(* ===== verification/Prelude.thy ===== *)
theory Prelude
  imports "HOL-Library.Word"
begin

unbundle bit_operations_syntax

text \<open>
  Vocabulary shared by every component of the model: machine integers, error numbers, faults,
  C strings, little-endian bytes, and the generic lemmas on lists the component theories use.

  A function of the source that can execute undefined behaviour returns \<open>fault + 'a\<close>:
  \<open>Inl f\<close> says that the run performs the illegal access \<open>f\<close> (or never returns, for
  \<open>Hang\<close>), \<open>Inr x\<close> that it returns \<open>x\<close>. Error numbers are ordinary return values, negative
  integers as in the kernel.
\<close>

section \<open>Types and constants\<close>

type_synonym u8 = "8 word"
type_synonym u32 = "32 word"
type_synonym s32 = "32 word"
type_synonym u64 = "64 word"
type_synonym bytes = "u8 list"

datatype fault =
    NullDeref
  | ErrPtrDeref
  | UseAfterFree
  | OutOfBounds
  | BadFree
  | BugOn
  | Hang

abbreviation (input) EPERM :: int where "EPERM \<equiv> 1"
abbreviation (input) ENOENT :: int where "ENOENT \<equiv> 2"
abbreviation (input) EINTR :: int where "EINTR \<equiv> 4"
abbreviation (input) EIO :: int where "EIO \<equiv> 5"
abbreviation (input) ENOMEM :: int where "ENOMEM \<equiv> 12"
abbreviation (input) EACCES :: int where "EACCES \<equiv> 13"
abbreviation (input) EFAULT :: int where "EFAULT \<equiv> 14"
abbreviation (input) EBUSY :: int where "EBUSY \<equiv> 16"
abbreviation (input) EEXIST :: int where "EEXIST \<equiv> 17"
abbreviation (input) EINVAL :: int where "EINVAL \<equiv> 22"
abbreviation (input) ENFILE :: int where "ENFILE \<equiv> 23"
abbreviation (input) ENODATA :: int where "ENODATA \<equiv> 61"
abbreviation (input) ENOKEY :: int where "ENOKEY \<equiv> 126"
abbreviation (input) ERESTARTSYS :: int where "ERESTARTSYS \<equiv> 512"

abbreviation (input) PATH_MAX :: nat where "PATH_MAX \<equiv> 4096"

text \<open>Collections the components fill: sizes and numbers of blocks, the parts of a device number, and the
  state of a freshly loaded module.\<close>

named_theorems layout_defs
named_theorems devno_defs
named_theorems start_defs

section \<open>The C type int\<close>

text \<open>The kernel is compiled so that signed arithmetic wraps around.\<close>

definition c_int :: "int \<Rightarrow> int" where
  "c_int x = signed_take_bit 31 x"

lemma sint_s32_inc: "sint (n + 1 :: s32) = c_int (sint n + 1)"
  by (simp add: c_int_def sint_word_ariths)

lemma c_int_id: "- (2 ^ 31) \<le> x \<Longrightarrow> x < 2 ^ 31 \<Longrightarrow> c_int x = x"
  unfolding c_int_def by (rule signed_take_bit_int_eq_self) simp_all

lemma sint_s32_bounds: "- (2 ^ 31) \<le> sint (n :: s32)" "sint (n :: s32) < 2 ^ 31"
  using sint_ge[of n] sint_lt[of n] by simp_all

lemma sint_s32_dec: "0 < sint (n :: s32) \<Longrightarrow> sint (n - 1) = sint n - 1"
  using c_int_id[of "sint n - 1"] sint_s32_bounds[of n] by (simp add: c_int_def sint_word_ariths)

lemma sint_s32_one [simp]: "sint (n :: s32) = 1 \<longleftrightarrow> n = 1"
proof
  assume "sint n = 1"
  then have "(of_int (sint n) :: s32) = 1" by simp
  then show "n = 1" by simp
qed simp

section \<open>C strings\<close>

text \<open>
  A C string is a list of characters without NUL; a buffer is a list that may contain NULs.
  \<open>cstr\<close> reads the string at the start of a buffer. \<open>strscpy\<close> copies at most \<open>n - 1\<close>
  characters (the buffer holds a terminating NUL), as the kernel's function of that name.
\<close>

definition NUL :: char where "NUL = CHR 0x00"

definition CR :: char where "CR = CHR 0x0D"

definition cstr :: "string \<Rightarrow> string" where
  "cstr buf = takeWhile (\<lambda>c. c \<noteq> NUL) buf"

definition is_cstr :: "string \<Rightarrow> bool" where
  "is_cstr s \<longleftrightarrow> NUL \<notin> set s"

definition strscpy :: "string \<Rightarrow> nat \<Rightarrow> string" where
  "strscpy src n = take (n - 1) src"

lemma cstr_id [simp]: "is_cstr s \<Longrightarrow> cstr s = s"
  by (auto simp: cstr_def is_cstr_def takeWhile_eq_all_conv)

lemma cstr_append_NUL [simp]: "is_cstr s \<Longrightarrow> cstr (s @ NUL # r) = s"
  by (induction s) (auto simp: cstr_def is_cstr_def)

lemma is_cstr_cstr [simp]: "is_cstr (cstr s)"
  by (auto simp: cstr_def is_cstr_def dest: set_takeWhileD)

lemma is_cstr_Nil [simp]: "is_cstr []"
  by (simp add: is_cstr_def)

lemma is_cstr_append [simp]: "is_cstr (s @ t) \<longleftrightarrow> is_cstr s \<and> is_cstr t"
  by (auto simp: is_cstr_def)

lemma length_strscpy: "length (strscpy s n) = min (length s) (n - 1)"
  by (simp add: strscpy_def)

lemma strscpy_fits [simp]: "length s < n \<Longrightarrow> strscpy s n = s"
  by (simp add: strscpy_def)

lemma strscpy_truncates: "n \<le> length s \<Longrightarrow> 0 < n \<Longrightarrow> strscpy s n \<noteq> s"
  by (rule notI, drule arg_cong[of _ _ length]) (simp add: length_strscpy)

section \<open>Little-endian 64-bit words\<close>

definition u64_bytes :: "u64 \<Rightarrow> bytes" where
  "u64_bytes w = map (\<lambda>i. ucast (drop_bit (8 * i) w)) [0..<8]"

definition bytes_u64 :: "bytes \<Rightarrow> u64" where
  "bytes_u64 bs = foldr (\<lambda>b acc. push_bit 8 acc OR ucast b) bs 0"

lemma length_u64_bytes [simp]: "length (u64_bytes w) = 8"
  by (simp add: u64_bytes_def)

lemma byte_split: "push_bit 8 (drop_bit 8 x) OR ucast (ucast x :: u8) = (x :: u64)"
  by (rule bit_word_eqI) (auto simp: bit_simps)

lemma bytes_u64_from:
  "k \<le> 8 \<Longrightarrow> bytes_u64 (map (\<lambda>i. ucast (drop_bit (8 * i) w)) [k..<8]) = drop_bit (8 * k) w"
proof (induction rule: inc_induct)
  case base
  show ?case by (simp add: bytes_u64_def drop_bit_word_beyond)
next
  case (step n)
  have "push_bit 8 (drop_bit (8 + 8 * n) w) OR ucast (ucast (drop_bit (8 * n) w) :: u8)
      = drop_bit (8 * n) w"
    using byte_split[of "drop_bit (8 * n) w"] by (simp add: add.commute)
  with step show ?case
    by (simp add: bytes_u64_def upt_rec[of n])
qed

lemma bytes_u64_bytes [simp]: "bytes_u64 (u64_bytes w) = w"
  using bytes_u64_from[of 0 w] by (simp add: u64_bytes_def)

lemma sint_of_nat32:
  assumes "n < 2 ^ 31"
  shows "sint (of_nat n :: u32) = int n"
proof -
  have "uint (of_nat n :: u32) = int n" using assms by (simp add: uint_nat unat_of_nat take_bit_eq_mod)
  with assms show ?thesis by (simp add: sint_uint signed_take_bit_int_eq_self)
qed

section \<open>Byte stores\<close>

text \<open>Writing \<open>d\<close> at position \<open>pos\<close> of a file or a buffer; a file grows when written beyond its end.\<close>

definition write_at :: "nat \<Rightarrow> bytes \<Rightarrow> bytes \<Rightarrow> bytes" where
  "write_at pos d dev =
     (if d = [] then dev
      else take pos dev @ replicate (pos - length dev) 0 @ d @ drop (pos + length d) dev)"

lemma write_at_inside:
  assumes "pos + length d \<le> length dev"
  shows "write_at pos d dev = take pos dev @ d @ drop (pos + length d) dev"
  using assms by (simp add: write_at_def)

lemma length_write_at_inside:
  "pos + length d \<le> length dev \<Longrightarrow> length (write_at pos d dev) = length dev"
  by (simp add: write_at_inside)

text \<open>Block \<open>i\<close> of a device of blocks of \<open>z\<close> bytes.\<close>

definition dev_block :: "nat \<Rightarrow> bytes \<Rightarrow> nat \<Rightarrow> bytes" where
  "dev_block z dev i = take z (drop (i * z) dev)"

lemma dev_block_write_at:
  assumes "length d = z" "0 < z" "(j + 1) * z \<le> length dev"
  shows "dev_block z (write_at (j * z) d dev) i = (if i = j then d else dev_block z dev i)"
proof -
  have inside: "write_at (j * z) d dev = take (j * z) dev @ d @ drop (j * z + z) dev"
    using assms by (subst write_at_inside) (simp_all add: algebra_simps)
  have lj: "j * z \<le> length dev" using assms(3) by (simp add: algebra_simps)
  consider "i = j" | "i < j" | "j < i" by linarith
  then show ?thesis
  proof cases
    case 1
    then show ?thesis using assms lj by (simp add: dev_block_def inside)
  next
    case 2
    then have "(i + 1) * z \<le> j * z" by (intro mult_right_mono) simp_all
    then have ij: "i * z + z \<le> j * z" by (simp add: algebra_simps)
    have "take z (drop (i * z) (take (j * z) dev @ d @ drop (j * z + z) dev)) = take z (drop (i * z) (take (j * z) dev))"
      using ij lj by (simp add: min_def)
    also have "\<dots> = take z (drop (i * z) dev)" using ij by (simp add: drop_take min_def)
    finally show ?thesis using 2 by (simp add: dev_block_def inside)
  next
    case 3
    then have "(j + 1) * z \<le> i * z" by (intro mult_right_mono) simp_all
    then obtain k where k: "i * z = j * z + z + k" by (metis add_mult_distrib le_Suc_ex mult_1)
    have "drop (i * z) (take (j * z) dev @ d @ drop (j * z + z) dev) = drop (i * z) dev"
      using lj assms(1) by (simp add: k add.commute)
    then show ?thesis using 3 by (simp add: dev_block_def inside)
  qed
qed

end
