(* ===== verification/Lru.thy ===== *)
theory Lru
  imports Prelude
begin

text \<open>
  The cache of already snapshotted block numbers, \<open>src/kernel/lru-ng.c\<close>: a \<open>struct list_lru\<close>
  for the eviction order paired with a static hash table for the lookup. Nodes live in a small
  store (\<open>mem\<close>) and the two containers hold their addresses, so that "in the list", "in the
  table" and "allocated" are three different facts that the invariant \<open>lru_inv\<close> relates.

  The kernel's containers are modelled by their documented behaviour. A \<open>list_lru\<close> keeps one
  list per NUMA node, \<open>list_lru_add_obj\<close> appends to the list of the item's node unless the item
  is on a list, \<open>list_lru_del_obj\<close> unlinks it, \<open>list_lru_walk\<close> calls its callback on the first
  items, node by node. A hash table bucket is a list with the newest entry first. Allocation
  results, and the bucket of a key, are arguments.
\<close>

section \<open>State\<close>

text \<open>\<open>LRU_NG__LRU_MAX_ENTRIES\<close> of \<open>lru-ng.h\<close>.\<close>

definition LRU_NG__HT_BUCKET_BITS :: nat where "LRU_NG__HT_BUCKET_BITS = 18"

definition LRU_NG__LRU_MAX_ENTRIES :: nat where
  "LRU_NG__LRU_MAX_ENTRIES = 2 ^ LRU_NG__HT_BUCKET_BITS"

text \<open>\<open>struct lru_node\<close>: the links \<open>hnode\<close> and \<open>lru\<close> are memberships of the address in the
  containers; \<open>numa\<close> is the NUMA node of the memory the allocator returned.\<close>

record lru_node =
  blknr :: u64
  numa :: nat

record lru_ng =
  llru :: "nat list list"
  hasht :: "nat \<Rightarrow> nat list"
  mem :: "nat \<rightharpoonup> lru_node"

section \<open>The kernel's list\_lru\<close>

abbreviation lru_items :: "nat list list \<Rightarrow> nat list" where
  "lru_items ls \<equiv> concat ls"

definition list_lru_add_obj :: "nat list list \<Rightarrow> nat \<Rightarrow> nat \<Rightarrow> bool \<times> nat list list" where
  "list_lru_add_obj ls nid a =
     (if a \<in> set (lru_items ls) then (False, ls) else (True, ls[nid := ls ! nid @ [a]]))"

definition list_lru_del_obj :: "nat list list \<Rightarrow> nat \<Rightarrow> bool \<times> nat list list" where
  "list_lru_del_obj ls a =
     (if a \<in> set (lru_items ls) then (True, map (removeAll a) ls) else (False, ls))"

definition list_lru_count :: "nat list list \<Rightarrow> nat" where
  "list_lru_count ls = length (lru_items ls)"

definition list_lru_walk :: "(nat \<Rightarrow> lru_ng \<Rightarrow> lru_ng) \<Rightarrow> nat \<Rightarrow> lru_ng \<Rightarrow> lru_ng" where
  "list_lru_walk cb n s = fold cb (take n (lru_items (llru s))) s"

section \<open>Allocation and initialisation\<close>

definition sizeof_lru_ng_hasht :: nat where
  "sizeof_lru_ng_hasht = 2 ^ LRU_NG__HT_BUCKET_BITS * 8"

abbreviation (input) PAGE_SIZE :: nat where "PAGE_SIZE \<equiv> 4096"

datatype allocator = Vmalloc | Kmalloc

text \<open>\<open>sizeof(struct lru_ng)\<close> is the table plus the \<open>list_lru\<close>, whose size \<open>lsz\<close> is the
  kernel's.\<close>

definition lru_ng_allocator :: "nat \<Rightarrow> allocator" where
  "lru_ng_allocator lsz = (if lsz + sizeof_lru_ng_hasht > PAGE_SIZE then Vmalloc else Kmalloc)"

text \<open>\<open>kfree\<close> is legal on \<open>kmalloc\<close> memory only, \<open>vfree\<close> on \<open>vmalloc\<close> memory only.\<close>

definition kfree_of :: "allocator \<Rightarrow> fault + unit" where
  "kfree_of al = (if al = Kmalloc then Inr () else Inl BadFree)"

definition vfree_of :: "allocator \<Rightarrow> fault + unit" where
  "vfree_of al = (if al = Vmalloc then Inr () else Inl BadFree)"

definition lru_ng_init :: "nat \<Rightarrow> bool \<Rightarrow> bool \<times> lru_ng" where
  "lru_ng_init nodes init_ok =
     (init_ok, \<lparr>llru = replicate nodes [], hasht = (\<lambda>_. []), mem = Map.empty\<rparr>)"

definition lru_ng_alloc_and_init ::
  "nat \<Rightarrow> nat \<Rightarrow> bool \<Rightarrow> bool \<Rightarrow> fault + lru_ng option" where
  "lru_ng_alloc_and_init lsz nodes alloc_ok init_ok =
     (let al = lru_ng_allocator lsz in
      if \<not> alloc_ok then Inr None
      else let (ok, lru) = lru_ng_init nodes init_ok in
        if \<not> ok then (case kfree_of al of Inl f \<Rightarrow> Inl f | Inr _ \<Rightarrow> Inr None)
        else Inr (Some lru))"

section \<open>Operations\<close>

definition hash_del :: "nat \<Rightarrow> lru_ng \<Rightarrow> lru_ng" where
  "hash_del a s = s\<lparr>hasht := (\<lambda>b. removeAll a (hasht s b))\<rparr>"

definition evict_cb :: "nat \<Rightarrow> lru_ng \<Rightarrow> lru_ng" where
  "evict_cb a s =
     (let s1 = s\<lparr>llru := map (removeAll a) (llru s)\<rparr>;
          s2 = hash_del a s1
      in s2\<lparr>mem := (mem s2)(a := None)\<rparr>)"

definition enforce_lru_size_limit :: "lru_ng \<Rightarrow> lru_ng" where
  "enforce_lru_size_limit s =
     (if list_lru_count (llru s) \<le> LRU_NG__LRU_MAX_ENTRIES then s
      else list_lru_walk evict_cb 1 s)"

text \<open>\<open>node\<close> is the result of \<open>kzalloc\<close>: the address and its NUMA node, or NULL.\<close>

definition lru_ng_add ::
  "(u64 \<Rightarrow> nat) \<Rightarrow> (nat \<times> nat) option \<Rightarrow> lru_ng \<Rightarrow> u64 \<Rightarrow> bool \<times> lru_ng" where
  "lru_ng_add bkt node s key =
     (case node of
        None \<Rightarrow> (False, s)
      | Some (a, nid) \<Rightarrow>
          let s1 = s\<lparr>hasht := (hasht s)(bkt key := a # hasht s (bkt key)),
                     mem := (mem s)(a \<mapsto> \<lparr>blknr = key, numa = nid\<rparr>)\<rparr>;
              (ok, l) = list_lru_add_obj (llru s1) nid a
          in if \<not> ok then
               let s2 = hash_del a s1 in (False, s2\<lparr>mem := (mem s2)(a := None)\<rparr>)
             else (True, enforce_lru_size_limit (s1\<lparr>llru := l\<rparr>)))"

definition node_matches :: "lru_ng \<Rightarrow> u64 \<Rightarrow> nat \<Rightarrow> bool" where
  "node_matches s key a = (case mem s a of None \<Rightarrow> False | Some n \<Rightarrow> blknr n = key)"

definition lru_ng_lookup :: "(u64 \<Rightarrow> nat) \<Rightarrow> lru_ng \<Rightarrow> u64 \<Rightarrow> bool \<times> lru_ng" where
  "lru_ng_lookup bkt s key =
     (case find (node_matches s key) (hasht s (bkt key)) of
        None \<Rightarrow> (False, s)
      | Some a \<Rightarrow>
          let (ok, l) = list_lru_del_obj (llru s) a in
          if \<not> ok then (False, s)
          else let s1 = s\<lparr>llru := l\<rparr>;
                   nid = (case mem s a of None \<Rightarrow> 0 | Some n \<Rightarrow> numa n);
                   (ok2, l2) = list_lru_add_obj (llru s1) nid a
               in if \<not> ok2 then (False, s1) else (True, s1\<lparr>llru := l2\<rparr>))"

definition lru_ng_cleanup :: "lru_ng \<Rightarrow> lru_ng" where
  "lru_ng_cleanup s = list_lru_walk evict_cb (2 ^ 64 - 1) s"

definition lru_ng_cleanup_and_destroy :: "nat \<Rightarrow> lru_ng \<Rightarrow> fault + lru_ng" where
  "lru_ng_cleanup_and_destroy lsz s =
     (let s1 = lru_ng_cleanup s;
          r = (if lsz + sizeof_lru_ng_hasht > PAGE_SIZE then vfree_of (lru_ng_allocator lsz)
               else kfree_of (lru_ng_allocator lsz))
      in case r of Inl f \<Rightarrow> Inl f | Inr _ \<Rightarrow> Inr s1)"

section \<open>Invariant\<close>

definition lru_inv :: "(u64 \<Rightarrow> nat) \<Rightarrow> lru_ng \<Rightarrow> bool" where
  "lru_inv bkt s \<longleftrightarrow>
     distinct (lru_items (llru s)) \<and>
     set (lru_items (llru s)) = dom (mem s) \<and>
     (\<forall>a n. mem s a = Some n \<longrightarrow> numa n < length (llru s)) \<and>
     (\<forall>b. distinct (hasht s b)) \<and>
     (\<forall>a b. a \<in> set (hasht s b) \<longleftrightarrow> (\<exists>n. mem s a = Some n \<and> bkt (blknr n) = b)) \<and>
     inj_on (\<lambda>a. map_option blknr (mem s a)) (dom (mem s))"

definition blknr_at :: "lru_ng \<Rightarrow> nat \<Rightarrow> u64" where
  "blknr_at s a = (case mem s a of None \<Rightarrow> 0 | Some n \<Rightarrow> blknr n)"

definition lru_abs :: "lru_ng \<Rightarrow> u64 list" where
  "lru_abs s = map (blknr_at s) (lru_items (llru s))"

lemma lru_invI:
  assumes "distinct (lru_items (llru s))" "set (lru_items (llru s)) = dom (mem s)"
    "\<And>a n. mem s a = Some n \<Longrightarrow> numa n < length (llru s)" "\<And>b. distinct (hasht s b)"
    "\<And>a b. a \<in> set (hasht s b) \<longleftrightarrow> (\<exists>n. mem s a = Some n \<and> bkt (blknr n) = b)"
    "\<And>a a' n n'. mem s a = Some n \<Longrightarrow> mem s a' = Some n' \<Longrightarrow> blknr n = blknr n' \<Longrightarrow> a = a'"
  shows "lru_inv bkt s"
  using assms unfolding lru_inv_def inj_on_def by fastforce

lemma lru_invD:
  assumes "lru_inv bkt s"
  shows "distinct (lru_items (llru s))" "set (lru_items (llru s)) = dom (mem s)"
    "\<And>a n. mem s a = Some n \<Longrightarrow> numa n < length (llru s)" "\<And>b. distinct (hasht s b)"
    "\<And>a b. a \<in> set (hasht s b) \<longleftrightarrow> (\<exists>n. mem s a = Some n \<and> bkt (blknr n) = b)"
    "\<And>a a' n n'. mem s a = Some n \<Longrightarrow> mem s a' = Some n' \<Longrightarrow> blknr n = blknr n' \<Longrightarrow> a = a'"
  using assms unfolding lru_inv_def inj_on_def by (simp_all, metis domI option.map(2))

lemma lru_items_removeAll: "lru_items (map (removeAll a) ls) = removeAll a (lru_items ls)"
  by (induction ls) simp_all

lemma set_lru_items_append_at:
  "i < length ls \<Longrightarrow> set (lru_items (ls[i := ls ! i @ [a]])) = insert a (set (lru_items ls))"
  by (induction ls arbitrary: i) (auto split: nat.splits)

lemma distinct_lru_items_append_at:
  "i < length ls \<Longrightarrow> a \<notin> set (lru_items ls) \<Longrightarrow> distinct (lru_items ls) \<Longrightarrow>
     distinct (lru_items (ls[i := ls ! i @ [a]]))"
proof (induction ls arbitrary: i)
  case (Cons x xs)
  show ?case
  proof (cases i)
    case 0
    with Cons.prems show ?thesis by auto
  next
    case (Suc j)
    with Cons.prems have "set (lru_items (xs[j := xs ! j @ [a]])) = insert a (set (lru_items xs))"
      by (intro set_lru_items_append_at) simp
    moreover have "distinct (lru_items (xs[j := xs ! j @ [a]]))"
      using Suc Cons.prems by (intro Cons.IH) simp_all
    ultimately show ?thesis
      using Suc Cons.prems by (auto simp del: set_concat)
  qed
qed simp

lemma length_lru_items_append_at:
  "i < length ls \<Longrightarrow> length (lru_items (ls[i := ls ! i @ [a]])) = Suc (length (lru_items ls))"
proof (induction ls arbitrary: i)
  case (Cons x xs)
  then show ?case by (cases i) auto
qed simp

section \<open>Every operation keeps the invariant\<close>

lemma evict_cb_inv:
  assumes "lru_inv bkt s" shows "lru_inv bkt (evict_cb a s)"
proof -
  note I = lru_invD[OF assms]
  show ?thesis
  proof (rule lru_invI)
    show "distinct (lru_items (llru (evict_cb a s)))"
      using I(1) by (simp add: evict_cb_def hash_del_def lru_items_removeAll distinct_removeAll)
    show "set (lru_items (llru (evict_cb a s))) = dom (mem (evict_cb a s))"
      using I(2) by (simp add: evict_cb_def hash_del_def lru_items_removeAll del: set_concat)
  qed (use I(3-6) in \<open>auto simp: evict_cb_def hash_del_def distinct_removeAll split: if_splits\<close>)
qed

lemma blknr_at_inj: "lru_inv bkt s \<Longrightarrow> inj_on (blknr_at s) (dom (mem s))"
  using lru_invD(6) by (fastforce simp: inj_on_def blknr_at_def)

lemma blknr_at_evict: "x \<noteq> a \<Longrightarrow> blknr_at (evict_cb a s) x = blknr_at s x"
  by (simp add: blknr_at_def evict_cb_def hash_del_def)

lemma evict_cb_abs:
  assumes inv: "lru_inv bkt s" and a: "a \<in> dom (mem s)"
  shows "lru_abs (evict_cb a s) = removeAll (blknr_at s a) (lru_abs s)"
proof -
  have items: "lru_items (llru (evict_cb a s)) = removeAll a (lru_items (llru s))"
    by (simp add: evict_cb_def hash_del_def lru_items_removeAll)
  have "inj_on (blknr_at s) (insert a (set (lru_items (llru s))))"
    using blknr_at_inj[OF inv] a by (simp add: lru_invD(2)[OF inv] insert_absorb del: set_concat)
  then have "map (blknr_at s) (removeAll a (lru_items (llru s))) = removeAll (blknr_at s a) (lru_abs s)"
    unfolding lru_abs_def by (rule map_removeAll_inj_on)
  moreover have "lru_abs (evict_cb a s) = map (blknr_at s) (removeAll a (lru_items (llru s)))"
    unfolding lru_abs_def items by (rule map_cong) (auto simp: blknr_at_evict)
  ultimately show ?thesis by simp
qed

lemma lru_abs_distinct: "lru_inv bkt s \<Longrightarrow> distinct (lru_abs s)"
  using blknr_at_inj lru_invD(1,2) by (fastforce simp: lru_abs_def distinct_map simp del: set_concat)

lemma evict_cb_items: "lru_items (llru (evict_cb a s)) = removeAll a (lru_items (llru s))"
  by (simp add: evict_cb_def hash_del_def lru_items_removeAll)

lemma evict_hd:
  assumes inv: "lru_inv bkt s" and a: "lru_items (llru s) = a # as"
  shows "lru_inv bkt (evict_cb a s)" "lru_abs (evict_cb a s) = tl (lru_abs s)"
    "lru_items (llru (evict_cb a s)) = as"
proof -
  show "lru_inv bkt (evict_cb a s)" using inv by (rule evict_cb_inv)
  have "distinct (a # as)" using lru_invD(1)[OF inv] a by simp
  then show 1: "lru_items (llru (evict_cb a s)) = as"
    by (simp add: evict_cb_items a)
  have "\<And>x. x \<in> set as \<Longrightarrow> x \<noteq> a" using \<open>distinct (a # as)\<close> by auto
  then show "lru_abs (evict_cb a s) = tl (lru_abs s)"
    unfolding lru_abs_def 1 a by (simp add: blknr_at_evict)
qed

lemma walk_evicts_prefix:
  assumes "lru_inv bkt s"
  shows "lru_inv bkt (fold evict_cb (take n (lru_items (llru s))) s) \<and>
    lru_abs (fold evict_cb (take n (lru_items (llru s))) s) = drop n (lru_abs s) \<and>
    lru_items (llru (fold evict_cb (take n (lru_items (llru s))) s)) = drop n (lru_items (llru s))"
  using assms
proof (induction n arbitrary: s)
  case (Suc n)
  show ?case
  proof (cases "lru_items (llru s)")
    case (Cons a as)
    note e = evict_hd[OF Suc.prems Cons]
    have "fold evict_cb (take (Suc n) (lru_items (llru s))) s
        = fold evict_cb (take n (lru_items (llru (evict_cb a s)))) (evict_cb a s)"
      by (simp add: Cons e(3))
    with Suc.IH[OF e(1)] e Cons show ?thesis by (simp add: drop_Suc)
  next
    case Nil
    have "fold evict_cb (take (Suc n) (lru_items (llru s))) s = s" by (subst Nil) simp
    moreover have "lru_abs s = []" unfolding lru_abs_def by (subst Nil) simp
    moreover have "drop (Suc n) (lru_items (llru s)) = lru_items (llru s)" by (subst (1 2) Nil) simp
    ultimately show ?thesis using Suc.prems by simp
  qed
qed (simp add: lru_abs_def)

lemma list_lru_walk_inv: "lru_inv bkt s \<Longrightarrow> lru_inv bkt (list_lru_walk evict_cb n s)"
  and list_lru_walk_abs: "lru_inv bkt s \<Longrightarrow> lru_abs (list_lru_walk evict_cb n s) = drop n (lru_abs s)"
  using walk_evicts_prefix unfolding list_lru_walk_def by blast+


subsection \<open>Adding a block\<close>

text \<open>The state between linking the node and enforcing the limit.\<close>

definition lru_link :: "(u64 \<Rightarrow> nat) \<Rightarrow> nat \<Rightarrow> nat \<Rightarrow> u64 \<Rightarrow> lru_ng \<Rightarrow> lru_ng" where
  "lru_link bkt a nid key s =
     s\<lparr>hasht := (hasht s)(bkt key := a # hasht s (bkt key)),
       mem := (mem s)(a \<mapsto> \<lparr>blknr = key, numa = nid\<rparr>),
       llru := (llru s)[nid := llru s ! nid @ [a]]\<rparr>"

text \<open>\<open>kzalloc\<close> returns memory that is not in use, on a NUMA node of the machine.\<close>

definition fresh_node :: "lru_ng \<Rightarrow> (nat \<times> nat) option \<Rightarrow> bool" where
  "fresh_node s node = (case node of None \<Rightarrow> True
     | Some (a, nid) \<Rightarrow> mem s a = None \<and> nid < length (llru s))"

lemma lru_ng_add_None: "lru_ng_add bkt None s key = (False, s)"
  by (simp add: lru_ng_add_def)

lemma lru_ng_add_Some:
  assumes "lru_inv bkt s" "fresh_node s (Some (a, nid))"
  shows "lru_ng_add bkt (Some (a, nid)) s key = (True, enforce_lru_size_limit (lru_link bkt a nid key s))"
proof -
  have "a \<notin> set (lru_items (llru s))"
    using lru_invD(2)[OF assms(1)] assms(2) by (auto simp: fresh_node_def simp del: set_concat)
  then show ?thesis
    by (simp add: lru_ng_add_def lru_link_def list_lru_add_obj_def Let_def del: set_concat)
qed

lemma lru_link_inv:
  assumes inv: "lru_inv bkt s" and fr: "fresh_node s (Some (a, nid))" and key: "key \<notin> set (lru_abs s)"
  shows "lru_inv bkt (lru_link bkt a nid key s)"
proof -
  note I = lru_invD[OF inv]
  have nid: "nid < length (llru s)" and a: "mem s a = None" using fr by (auto simp: fresh_node_def)
  have notin: "a \<notin> set (lru_items (llru s))" using I(2) a by (auto simp del: set_concat)
  have nk: "\<And>x n. mem s x = Some n \<Longrightarrow> blknr n \<noteq> key"
    using key I(2) unfolding lru_abs_def set_map
    by (metis blknr_at_def domI image_eqI option.simps(5))
  show ?thesis
  proof (rule lru_invI)
    show "distinct (lru_items (llru (lru_link bkt a nid key s)))"
      using distinct_lru_items_append_at[OF nid notin I(1)] by (simp add: lru_link_def)
    show "set (lru_items (llru (lru_link bkt a nid key s))) = dom (mem (lru_link bkt a nid key s))"
      using set_lru_items_append_at[OF nid] I(2) by (simp add: lru_link_def del: set_concat)
    show "\<And>b. distinct (hasht (lru_link bkt a nid key s) b)"
      using I(4,5) a by (auto simp: lru_link_def)
    show "\<And>a' b. a' \<in> set (hasht (lru_link bkt a nid key s) b) \<longleftrightarrow>
        (\<exists>n. mem (lru_link bkt a nid key s) a' = Some n \<and> bkt (blknr n) = b)"
      using I(5) a by (auto simp: lru_link_def)
  next
    fix x x' n n'
    assume m: "mem (lru_link bkt a nid key s) x = Some n" "mem (lru_link bkt a nid key s) x' = Some n'"
      and eq: "blknr n = blknr n'"
    have old: "x \<noteq> a \<Longrightarrow> mem s x = Some n" "x' \<noteq> a \<Longrightarrow> mem s x' = Some n'"
      and new: "x = a \<Longrightarrow> blknr n = key" "x' = a \<Longrightarrow> blknr n' = key"
      using m by (auto simp: lru_link_def)
    show "x = x'"
      by (cases "x = a"; cases "x' = a") (use old new eq nk in blast, use old new eq nk in metis,
        use old new eq nk in metis, use old I(6) eq in blast)
  qed (use I(3) nid in \<open>auto simp: lru_link_def split: if_splits\<close>)
qed

lemma lru_link_items:
  "nid < length (llru s) \<Longrightarrow> set (lru_items (llru (lru_link bkt a nid key s))) = insert a (set (lru_items (llru s)))"
  by (simp add: lru_link_def set_lru_items_append_at del: set_concat)

lemma blknr_at_link: "blknr_at (lru_link bkt a nid key s) x = (if x = a then key else blknr_at s x)"
  by (simp add: blknr_at_def lru_link_def)

lemma lru_link_abs_set:
  assumes "lru_inv bkt s" "fresh_node s (Some (a, nid))"
  shows "set (lru_abs (lru_link bkt a nid key s)) = insert key (set (lru_abs s))"
proof -
  have nid: "nid < length (llru s)" using assms(2) by (simp add: fresh_node_def)
  have "a \<notin> set (lru_items (llru s))"
    using lru_invD(2)[OF assms(1)] assms(2) by (auto simp: fresh_node_def simp del: set_concat)
  then have "blknr_at (lru_link bkt a nid key s) ` set (lru_items (llru s))
      = blknr_at s ` set (lru_items (llru s))"
    by (intro image_cong) (auto simp: blknr_at_link simp del: set_concat)
  then show ?thesis
    unfolding lru_abs_def set_map lru_link_items[OF nid] image_insert
    by (simp add: blknr_at_link)
qed

lemma length_lru_link:
  "nid < length (llru s) \<Longrightarrow> length (lru_abs (lru_link bkt a nid key s)) = Suc (length (lru_abs s))"
  by (simp add: lru_abs_def lru_link_def length_lru_items_append_at del: length_concat)

lemma lru_link_abs_uma:
  assumes "lru_inv bkt s" "fresh_node s (Some (a, nid))" "llru s = [xs]"
  shows "lru_abs (lru_link bkt a nid key s) = lru_abs s @ [key]"
proof -
  have nid: "nid = 0" using assms by (simp add: fresh_node_def)
  have "a \<notin> set xs"
    using lru_invD(2)[OF assms(1)] assms(2,3) by (auto simp: fresh_node_def)
  then show ?thesis
    by (auto simp: lru_abs_def blknr_at_link assms(3) nid lru_link_def blknr_at_def)
qed

lemma enforce_inv: "lru_inv bkt s \<Longrightarrow> lru_inv bkt (enforce_lru_size_limit s)"
  by (simp add: enforce_lru_size_limit_def list_lru_walk_inv)

lemma length_lru_abs: "length (lru_abs s) = list_lru_count (llru s)"
  by (simp add: lru_abs_def list_lru_count_def del: length_concat)

lemma enforce_abs:
  "lru_inv bkt s \<Longrightarrow> lru_abs (enforce_lru_size_limit s) =
     (if length (lru_abs s) \<le> LRU_NG__LRU_MAX_ENTRIES then lru_abs s else tl (lru_abs s))"
  by (simp add: enforce_lru_size_limit_def list_lru_walk_abs length_lru_abs drop_Suc)


subsection \<open>Looking a block up\<close>

text \<open>The state after a hit: the node has moved to the tail of its NUMA node's list.\<close>

definition lru_touch :: "nat \<Rightarrow> lru_ng \<Rightarrow> lru_ng" where
  "lru_touch a s = (let nid = (case mem s a of None \<Rightarrow> 0 | Some n \<Rightarrow> numa n);
     ls = map (removeAll a) (llru s) in s\<lparr>llru := ls[nid := ls ! nid @ [a]]\<rparr>)"

lemma node_matches_iff: "node_matches s key a \<longleftrightarrow> (\<exists>n. mem s a = Some n \<and> blknr n = key)"
  by (simp add: node_matches_def split: option.splits)

lemma find_bucket:
  assumes inv: "lru_inv bkt s"
  shows "find (node_matches s key) (hasht s (bkt key)) = None \<longleftrightarrow> key \<notin> set (lru_abs s)"
    "find (node_matches s key) (hasht s (bkt key)) = Some a \<Longrightarrow>
       a \<in> set (lru_items (llru s)) \<and> blknr_at s a = key"
proof -
  note I = lru_invD[OF inv]
  have "key \<in> set (lru_abs s) \<longleftrightarrow> (\<exists>a n. mem s a = Some n \<and> blknr n = key)"
    unfolding lru_abs_def set_map I(2) by (force simp: blknr_at_def dom_def image_iff)
  then show "find (node_matches s key) (hasht s (bkt key)) = None \<longleftrightarrow> key \<notin> set (lru_abs s)"
    using I(5) by (auto simp: find_None_iff node_matches_iff)
  assume "find (node_matches s key) (hasht s (bkt key)) = Some a"
  then have "node_matches s key a" by (auto simp: find_Some_iff)
  then show "a \<in> set (lru_items (llru s)) \<and> blknr_at s a = key"
    using I(2) by (auto simp: node_matches_iff blknr_at_def simp del: set_concat)
qed

lemma lru_ng_lookup_miss:
  "lru_inv bkt s \<Longrightarrow> key \<notin> set (lru_abs s) \<Longrightarrow> lru_ng_lookup bkt s key = (False, s)"
  by (simp add: lru_ng_lookup_def find_bucket(1)[THEN iffD2])

lemma lru_ng_lookup_hit:
  assumes inv: "lru_inv bkt s" and key: "key \<in> set (lru_abs s)"
  obtains a where "a \<in> set (lru_items (llru s))" "blknr_at s a = key"
    "lru_ng_lookup bkt s key = (True, lru_touch a s)"
proof -
  obtain a where f: "find (node_matches s key) (hasht s (bkt key)) = Some a"
    using find_bucket(1)[OF inv] key by fastforce
  have a: "a \<in> set (lru_items (llru s))" "blknr_at s a = key" using find_bucket(2)[OF inv f] by auto
  then have "lru_ng_lookup bkt s key = (True, lru_touch a s)"
    by (simp add: lru_ng_lookup_def f list_lru_del_obj_def list_lru_add_obj_def lru_touch_def
        Let_def lru_items_removeAll del: set_concat)
  with a that show ?thesis by blast
qed

lemma lru_touch_facts:
  assumes inv: "lru_inv bkt s" and a: "a \<in> set (lru_items (llru s))"
  shows "lru_inv bkt (lru_touch a s)" "set (lru_abs (lru_touch a s)) = set (lru_abs s)"
    "length (lru_abs (lru_touch a s)) = length (lru_abs s)"
    "llru s = [xs] \<Longrightarrow> lru_abs (lru_touch a s) = removeAll (blknr_at s a) (lru_abs s) @ [blknr_at s a]"
proof -
  note I = lru_invD[OF inv]
  obtain n where n: "mem s a = Some n" using a I(2) by (auto simp del: set_concat)
  let ?ls = "map (removeAll a) (llru s)"
  have nid: "numa n < length ?ls" using I(3)[OF n] by simp
  have llru': "llru (lru_touch a s) = ?ls[numa n := ?ls ! numa n @ [a]]"
    by (simp add: lru_touch_def n Let_def)
  have rest: "mem (lru_touch a s) = mem s" "hasht (lru_touch a s) = hasht s"
    "blknr_at (lru_touch a s) = blknr_at s"
    by (simp_all add: lru_touch_def Let_def blknr_at_def fun_eq_iff)
  have na: "a \<notin> set (lru_items ?ls)" by (simp add: lru_items_removeAll del: set_concat)
  have set': "set (lru_items (llru (lru_touch a s))) = set (lru_items (llru s))"
    unfolding llru' set_lru_items_append_at[OF nid] using a
    by (auto simp add: lru_items_removeAll simp del: set_concat)
  have dist: "distinct (lru_items ?ls)" using I(1) by (simp add: lru_items_removeAll distinct_removeAll)
  then have dist': "distinct (lru_items (llru (lru_touch a s)))"
    unfolding llru' using na nid by (intro distinct_lru_items_append_at)
  show "lru_inv bkt (lru_touch a s)"
    by (rule lru_invI) (use dist' set' I rest llru' in \<open>auto simp del: set_concat\<close>)
  show "set (lru_abs (lru_touch a s)) = set (lru_abs s)"
    unfolding lru_abs_def set_map set' rest ..
  show "length (lru_abs (lru_touch a s)) = length (lru_abs s)"
    unfolding lru_abs_def length_map using dist' I(1) set' distinct_card by metis
  assume one: "llru s = [xs]"
  have "inj_on (blknr_at s) (insert a (set xs))"
    using blknr_at_inj[OF inv] a I(2) one by (simp add: insert_absorb)
  with nid show "lru_abs (lru_touch a s) = removeAll (blknr_at s a) (lru_abs s) @ [blknr_at s a]"
    unfolding lru_abs_def llru' rest one by (simp add: map_removeAll_inj_on)
qed

lemma lru_touch_llru_length: "length (llru (lru_touch a s)) = length (llru s)"
  by (simp add: lru_touch_def Let_def)

lemma lru_inv_init: "lru_inv bkt (snd (lru_ng_init nodes ok))"
  and lru_abs_init: "lru_abs (snd (lru_ng_init nodes ok)) = []"
  by (rule lru_invI) (auto simp: lru_ng_init_def lru_abs_def)

section \<open>The cache interface\<close>

text \<open>
  What the snapshot worker relies on: a lookup that answers membership and keeps the set of
  cached blocks, and an insertion that adds at most the given block. The client lemmas say that
  a cache whose contents lie in a set of saved blocks stays so.
\<close>

locale block_cache =
  fixes ok :: "'c \<Rightarrow> bool"
    and contents :: "'c \<Rightarrow> u64 list"
    and fresh :: "'c \<Rightarrow> 'n \<Rightarrow> bool"
    and lookup :: "'c \<Rightarrow> u64 \<Rightarrow> bool \<times> 'c"
    and add :: "'n \<Rightarrow> 'c \<Rightarrow> u64 \<Rightarrow> bool \<times> 'c"
  assumes lookup_hit: "ok c \<Longrightarrow> fst (lookup c k) \<longleftrightarrow> k \<in> set (contents c)"
    and lookup_miss: "ok c \<Longrightarrow> \<not> fst (lookup c k) \<Longrightarrow> snd (lookup c k) = c"
    and lookup_ok: "ok c \<Longrightarrow> ok (snd (lookup c k))"
    and lookup_contents: "ok c \<Longrightarrow> set (contents (snd (lookup c k))) = set (contents c)"
    and add_ok: "ok c \<Longrightarrow> fresh c n \<Longrightarrow> k \<notin> set (contents c) \<Longrightarrow> ok (snd (add n c k))"
    and add_contents: "ok c \<Longrightarrow> fresh c n \<Longrightarrow> k \<notin> set (contents c) \<Longrightarrow>
          set (contents (snd (add n c k))) \<subseteq> insert k (set (contents c))"
begin

lemma lookup_within: "ok c \<Longrightarrow> set (contents c) \<subseteq> S \<Longrightarrow> set (contents (snd (lookup c k))) \<subseteq> S"
  by (simp add: lookup_contents)

lemma add_within:
  "ok c \<Longrightarrow> fresh c n \<Longrightarrow> k \<notin> set (contents c) \<Longrightarrow> set (contents c) \<subseteq> S \<Longrightarrow> k \<in> S \<Longrightarrow>
     set (contents (snd (add n c k))) \<subseteq> S"
  using add_contents by blast

lemma hit_in: "ok c \<Longrightarrow> set (contents c) \<subseteq> S \<Longrightarrow> fst (lookup c k) \<Longrightarrow> k \<in> S"
  using lookup_hit by blast

end

lemma lru_add_inv:
  "lru_inv bkt s \<Longrightarrow> fresh_node s node \<Longrightarrow> key \<notin> set (lru_abs s) \<Longrightarrow>
     lru_inv bkt (snd (lru_ng_add bkt node s key))"
  by (cases node) (auto simp: lru_ng_add_None lru_ng_add_Some intro!: enforce_inv lru_link_inv)

lemma set_tl_subset: "set (tl xs) \<subseteq> set xs"
  by (cases xs) auto

lemma lru_add_abs_subset:
  assumes "lru_inv bkt s" "fresh_node s node" "key \<notin> set (lru_abs s)"
  shows "set (lru_abs (snd (lru_ng_add bkt node s key))) \<subseteq> insert key (set (lru_abs s))"
proof (cases node)
  case (Some p)
  then obtain a nid where p: "node = Some (a, nid)" by (cases p) auto
  have "set (lru_abs (enforce_lru_size_limit (lru_link bkt a nid key s)))
      \<subseteq> set (lru_abs (lru_link bkt a nid key s))"
    using p assms
    by (auto simp: enforce_abs[OF lru_link_inv[of bkt s a nid key]] dest: subsetD[OF set_tl_subset])
  with assms p show ?thesis by (auto simp: lru_ng_add_Some lru_link_abs_set)
qed (auto simp: lru_ng_add_None)

interpretation lru: block_cache "lru_inv bkt" lru_abs fresh_node "lru_ng_lookup bkt" "lru_ng_add bkt"
  for bkt
proof
  fix c k assume inv: "lru_inv bkt c"
  show "fst (lru_ng_lookup bkt c k) \<longleftrightarrow> k \<in> set (lru_abs c)"
    by (cases "k \<in> set (lru_abs c)") (auto simp: lru_ng_lookup_miss[OF inv] elim: lru_ng_lookup_hit[OF inv])
  show "\<not> fst (lru_ng_lookup bkt c k) \<Longrightarrow> snd (lru_ng_lookup bkt c k) = c"
    by (cases "k \<in> set (lru_abs c)") (auto simp: lru_ng_lookup_miss[OF inv] elim: lru_ng_lookup_hit[OF inv])
  show "lru_inv bkt (snd (lru_ng_lookup bkt c k))"
    by (cases "k \<in> set (lru_abs c)") (auto simp: lru_ng_lookup_miss[OF inv] inv lru_touch_facts(1)[OF inv]
      elim: lru_ng_lookup_hit[OF inv])
  show "set (lru_abs (snd (lru_ng_lookup bkt c k))) = set (lru_abs c)"
    by (cases "k \<in> set (lru_abs c)") (auto simp: lru_ng_lookup_miss[OF inv] lru_touch_facts(2)[OF inv]
      elim: lru_ng_lookup_hit[OF inv])
qed (simp_all add: lru_add_inv lru_add_abs_subset)

lemma lru_add_room:
  "lru_inv bkt s \<Longrightarrow> fresh_node s (Some (a, nid)) \<Longrightarrow> key \<notin> set (lru_abs s) \<Longrightarrow>
     length (lru_abs s) < LRU_NG__LRU_MAX_ENTRIES \<Longrightarrow>
     set (lru_abs (snd (lru_ng_add bkt (Some (a, nid)) s key))) = insert key (set (lru_abs s))"
  by (simp add: lru_ng_add_Some enforce_abs[OF lru_link_inv] length_lru_link fresh_node_def lru_link_abs_set)

section \<open>What the cache promises\<close>

text \<open>The abstract cache on a machine with one NUMA node: the list of cached block numbers,
  least recently used first.\<close>

definition cache_touch :: "u64 \<Rightarrow> u64 list \<Rightarrow> u64 list" where
  "cache_touch k xs = (if k \<in> set xs then removeAll k xs @ [k] else xs)"

definition cache_insert :: "u64 \<Rightarrow> u64 list \<Rightarrow> u64 list" where
  "cache_insert k xs =
     (let ys = xs @ [k] in if length ys \<le> LRU_NG__LRU_MAX_ENTRIES then ys else tl ys)"

lemma lru_lookup_length:
  assumes "lru_inv bkt s"
  shows "length (lru_abs (snd (lru_ng_lookup bkt s key))) = length (lru_abs s)"
  by (cases "key \<in> set (lru_abs s)")
    (auto simp: lru_ng_lookup_miss[OF assms] lru_touch_facts(3)[OF assms] elim: lru_ng_lookup_hit[OF assms])

text \<open>\<open>lru_ng_lookup\<close> returns true exactly on the cached block numbers, keeps the list and
  the hash table consistent with each other and with the allocated nodes, and neither drops nor
  invents a cached block.\<close>

theorem lru_lookup_correct:
  assumes "lru_inv bkt s"
  shows "(fst (lru_ng_lookup bkt s key) \<longleftrightarrow> key \<in> set (lru_abs s)) \<and>
    lru_inv bkt (snd (lru_ng_lookup bkt s key)) \<and>
    set (lru_abs (snd (lru_ng_lookup bkt s key))) = set (lru_abs s) \<and>
    length (lru_abs (snd (lru_ng_lookup bkt s key))) = length (lru_abs s)"
  using assms by (simp add: lru.lookup_hit lru.lookup_ok lru.lookup_contents lru_lookup_length)

definition lru_sample :: lru_ng where
  "lru_sample = snd (lru_ng_add (\<lambda>_. 0) (Some (1, 0)) (snd (lru_ng_init 1 True)) 7)"

lemma lru_sample_eq:
  "lru_sample = \<lparr>llru = [[1]], hasht = (\<lambda>_. [])(0 := [1]), mem = [1 \<mapsto> \<lparr>blknr = 7, numa = 0\<rparr>]\<rparr>"
  by (simp add: lru_sample_def lru_ng_add_def lru_ng_init_def list_lru_add_obj_def
      enforce_lru_size_limit_def list_lru_count_def LRU_NG__LRU_MAX_ENTRIES_def LRU_NG__HT_BUCKET_BITS_def)

lemma lru_sample_inv: "lru_inv (\<lambda>_. 0) lru_sample"
  unfolding lru_sample_def
  by (rule lru_add_inv) (simp_all add: lru_inv_init lru_abs_init fresh_node_def, simp add: lru_ng_init_def)

lemma lru_sample_abs: "lru_abs lru_sample = [7]"
  by (simp add: lru_sample_eq lru_abs_def blknr_at_def)

theorem lru_lookup_correct_witness:
  "fst (lru_ng_lookup (\<lambda>_. 0) lru_sample 7) \<and> \<not> fst (lru_ng_lookup (\<lambda>_. 0) lru_sample 8)"
  using lru_lookup_correct[OF lru_sample_inv, of 7] lru_lookup_correct[OF lru_sample_inv, of 8]
  by (simp add: lru_sample_abs)

text \<open>\<open>lru_ng_add\<close> of a block that is not cached, given a fresh node, keeps the invariant,
  returns true, caches nothing but the old blocks and the new one, and never lets the cache grow
  beyond \<open>LRU_NG__LRU_MAX_ENTRIES\<close> entries.\<close>

theorem lru_add_correct:
  assumes "lru_inv bkt s" "fresh_node s (Some (a, nid))" "key \<notin> set (lru_abs s)"
    "length (lru_abs s) \<le> LRU_NG__LRU_MAX_ENTRIES"
  shows "fst (lru_ng_add bkt (Some (a, nid)) s key) \<and>
    lru_inv bkt (snd (lru_ng_add bkt (Some (a, nid)) s key)) \<and>
    set (lru_abs (snd (lru_ng_add bkt (Some (a, nid)) s key))) \<subseteq> insert key (set (lru_abs s)) \<and>
    length (lru_abs (snd (lru_ng_add bkt (Some (a, nid)) s key))) \<le> LRU_NG__LRU_MAX_ENTRIES"
proof -
  have "nid < length (llru s)" using assms(2) by (simp add: fresh_node_def)
  then have "length (lru_abs (enforce_lru_size_limit (lru_link bkt a nid key s))) \<le> LRU_NG__LRU_MAX_ENTRIES"
    using assms by (simp add: enforce_abs[OF lru_link_inv[OF assms(1-3)]] length_lru_link)
  with assms show ?thesis
    by (simp add: lru.add_ok lru.add_contents) (simp add: lru_ng_add_Some)
qed

theorem lru_add_correct_witness:
  "fst (lru_ng_add (\<lambda>_. 0) (Some (2, 0)) lru_sample 9) \<and>
   length (lru_abs (snd (lru_ng_add (\<lambda>_. 0) (Some (2, 0)) lru_sample 9))) \<le> 2 ^ 18"
proof -
  have "fresh_node lru_sample (Some (2, 0))" by (simp add: fresh_node_def lru_sample_eq)
  moreover have "length (lru_abs lru_sample) \<le> LRU_NG__LRU_MAX_ENTRIES"
    by (simp add: lru_sample_abs LRU_NG__LRU_MAX_ENTRIES_def)
  ultimately show ?thesis
    using lru_add_correct[OF lru_sample_inv, of 2 0 9]
    by (simp add: lru_sample_abs) (simp add: LRU_NG__LRU_MAX_ENTRIES_def LRU_NG__HT_BUCKET_BITS_def)
qed

lemma evict_llru_length [simp]: "length (llru (evict_cb a s)) = length (llru s)"
  by (simp add: evict_cb_def hash_del_def Let_def)

lemma enforce_llru_length [simp]: "length (llru (enforce_lru_size_limit s)) = length (llru s)"
proof -
  have "length (llru (fold evict_cb as s)) = length (llru s)" for as
    by (induction as arbitrary: s) simp_all
  then show ?thesis by (simp add: enforce_lru_size_limit_def list_lru_walk_def)
qed

text \<open>What the structure is for one NUMA node: list, hash table and allocated nodes agree, and the list holds the
  blocks \<open>xs\<close>, least recently used first.\<close>

definition implements :: "(u64 \<Rightarrow> nat) \<Rightarrow> lru_ng \<Rightarrow> u64 list \<Rightarrow> bool" where
  "implements bkt s xs \<longleftrightarrow> lru_inv bkt s \<and> length (llru s) = 1 \<and> lru_abs s = xs"

text \<open>C14: on a machine with one NUMA node the pair of list and hash table implements the abstract
  least-recently-used cache, which the results of the operations cannot be told from: a lookup answers whether
  the block is cached and moves it to the most recent end; an insertion into a fresh node returns true, appends
  the block there and drops the least recently used one when the limit is passed, so that the lookups after it
  find exactly the blocks that are left; without memory it returns false and changes nothing. List, table and
  allocated nodes agree after each of them.\<close>

theorem lru_refines_cache:
  assumes "implements bkt s xs"
  shows "fst (lru_ng_lookup bkt s key) = (key \<in> set xs) \<and>
    implements bkt (snd (lru_ng_lookup bkt s key)) (cache_touch key xs) \<and>
    lru_ng_add bkt None s key = (False, s) \<and>
    (fresh_node s (Some (a, nid)) \<longrightarrow> key \<notin> set xs \<longrightarrow>
      fst (lru_ng_add bkt (Some (a, nid)) s key) \<and>
      implements bkt (snd (lru_ng_add bkt (Some (a, nid)) s key)) (cache_insert key xs) \<and>
      (\<forall>k. fst (lru_ng_lookup bkt (snd (lru_ng_add bkt (Some (a, nid)) s key)) k) = (k \<in> set (cache_insert key xs))))"
proof -
  have inv: "lru_inv bkt s" and abs: "lru_abs s = xs" using assms by (simp_all add: implements_def)
  obtain ys where one: "llru s = [ys]" using assms by (auto simp: implements_def length_Suc_conv)
  have look: "implements bkt (snd (lru_ng_lookup bkt s key)) (cache_touch key xs)"
  proof (cases "key \<in> set (lru_abs s)")
    case True
    then show ?thesis
      by (rule lru_ng_lookup_hit[OF inv])
        (simp add: implements_def lru_touch_facts(1)[OF inv] lru_touch_facts(4)[OF inv _ one] lru_touch_llru_length one
          cache_touch_def True flip: abs)
  qed (use assms in \<open>simp add: lru_ng_lookup_miss[OF inv] cache_touch_def abs\<close>)
  have add: "implements bkt (snd (lru_ng_add bkt (Some (a, nid)) s key)) (cache_insert key xs)"
    if f: "fresh_node s (Some (a, nid))" and k: "key \<notin> set xs"
  proof -
    have k: "key \<notin> set (lru_abs s)" using that(2) abs by simp
    note link = lru_link_inv[OF inv f k]
    have "length (llru (lru_link bkt a nid key s)) = length (llru s)" by (simp add: lru_link_def)
    with one have "length (llru (lru_link bkt a nid key s)) = 1" by simp
    then show ?thesis
      by (simp add: implements_def lru_ng_add_Some[OF inv f] enforce_inv[OF link] enforce_abs[OF link]
          lru_link_abs_uma[OF inv f one] cache_insert_def Let_def flip: abs)
  qed
  have "fst (lru_ng_add bkt (Some (a, nid)) s key)" if "fresh_node s (Some (a, nid))"
    by (simp add: lru_ng_add_Some[OF inv that])
  moreover have "fst (lru_ng_lookup bkt s' k) = (k \<in> set xs')" if "implements bkt s' xs'" for s' xs' k
    using that lru.lookup_hit[of bkt s' k] by (simp add: implements_def)
  ultimately show ?thesis using look add assms by (auto simp: lru_ng_add_None)
qed

theorem lru_refines_cache_witness:
  "implements (\<lambda>_. 0) (snd (lru_ng_add (\<lambda>_. 0) (Some (2, 0)) lru_sample 9)) [7, 9] \<and>
   fst (lru_ng_lookup (\<lambda>_. 0) (snd (lru_ng_add (\<lambda>_. 0) (Some (2, 0)) lru_sample 9)) 7)"
proof -
  have "fresh_node lru_sample (Some (2, 0))" and "implements (\<lambda>_. 0) lru_sample [7]"
    using lru_sample_inv lru_sample_abs by (simp_all add: fresh_node_def lru_sample_eq implements_def)
  then show ?thesis
    using lru_refines_cache[of "\<lambda>_. 0" lru_sample "[7]" 9 2 0]
    by (simp add: cache_insert_def LRU_NG__LRU_MAX_ENTRIES_def LRU_NG__HT_BUCKET_BITS_def)
qed

text \<open>C28: \<open>lru_ng_cleanup_and_destroy\<close> releases the structure with the function that matches its
  allocation and leaks nothing: every node is freed, and both containers are empty.\<close>

theorem lru_cleanup_frees_all:
  assumes "lru_inv bkt s" "length (lru_abs s) < 2 ^ 64"
  shows "\<exists>s'. lru_ng_cleanup_and_destroy lsz s = Inr s' \<and> mem s' = Map.empty \<and>
    lru_items (llru s') = [] \<and> (\<forall>b. hasht s' b = [])"
proof -
  let ?s = "lru_ng_cleanup s"
  have len: "length (lru_items (llru s)) \<le> 2 ^ 64 - 1"
    using assms(2) by (simp add: lru_abs_def del: length_concat)
  have inv: "lru_inv bkt ?s" using assms(1) by (simp add: lru_ng_cleanup_def list_lru_walk_inv)
  have "lru_items (llru ?s) = drop (2 ^ 64 - 1) (lru_items (llru s))"
    using walk_evicts_prefix[OF assms(1), of "2 ^ 64 - 1"]
    unfolding lru_ng_cleanup_def list_lru_walk_def by blast
  with len have items: "lru_items (llru ?s) = []" by (simp del: concat_eq_Nil_conv)
  then have "dom (mem ?s) = {}" using lru_invD(2)[OF inv] by (metis list.set(1))
  then have m: "mem ?s = Map.empty" by simp
  then have "\<forall>b. hasht ?s b = []" using lru_invD(5)[OF inv] by (metis ex_in_conv option.distinct(1) set_empty)
  with items m show ?thesis
    by (simp add: lru_ng_cleanup_and_destroy_def lru_ng_allocator_def vfree_of_def kfree_of_def)
qed

theorem lru_cleanup_frees_all_witness:
  "\<exists>s'. lru_ng_cleanup_and_destroy 64 lru_sample = Inr s' \<and> mem s' = Map.empty"
  using lru_cleanup_frees_all[OF lru_sample_inv, of 64] by (auto simp: lru_sample_abs)

text \<open>when \<open>list_lru_init\<close> fails after the allocation, \<open>lru_ng_alloc_and_init\<close> calls \<open>kfree\<close> on
  memory it got from \<open>vmalloc\<close> (the structure is larger than a page), an illegal free; in every
  other case it returns the empty cache or NULL.\<close>

theorem lru_alloc_and_init_cases:
  "lru_ng_alloc_and_init lsz nodes True False = Inl BadFree \<and>
   lru_ng_alloc_and_init lsz nodes False ok = Inr None \<and>
   (\<exists>s. lru_ng_alloc_and_init lsz nodes True True = Inr (Some s) \<and> lru_inv bkt s \<and> lru_abs s = [])"
  using lru_inv_init[of bkt nodes True] lru_abs_init[of nodes True]
  by (simp add: lru_ng_alloc_and_init_def lru_ng_allocator_def kfree_of_def sizeof_lru_ng_hasht_def
      LRU_NG__HT_BUCKET_BITS_def lru_ng_init_def)

end
