(* ===== verification/Snapblocks.thy ===== *)
theory Snapblocks
  imports Prelude
begin

text \<open>
  The \<open>snapblocks\<close> file of one epoch, \<open>src/kernel/snapshot.c\<close> lines 252 to 427: its record
  header, the writer of one record and the linear search for a block number. A file is its list of
  bytes. The results of \<open>kernel_read\<close> and \<open>kernel_write\<close> (an error number or a byte count) are
  arguments; \<open>kernel_read\<close> of a negative \<open>loff_t\<close> fails, and files opened with \<open>O_APPEND\<close> are
  written at their end.

  \<open>parse_records\<close> and \<open>encode_records\<close> are the specification side: the list of
  (block number, block) pairs a file stands for.
\<close>

section \<open>The record header\<close>

definition SNAPBLOCK_MAGIC :: u64 where "SNAPBLOCK_MAGIC = 0x5ade5aad5abe5aef"

text \<open>\<open>enum snapblock_payload_type : u64\<close>.\<close>

definition SNAPBLOCK_PAYLOAD_TYPE_RAW :: u64 where "SNAPBLOCK_PAYLOAD_TYPE_RAW = 0"

record snapblock_file_hdr =
  hdr_magic :: u64
  hdr_blknr :: u64
  hdr_payldsiz :: u64
  hdr_payld_type :: u64
  hdr_payld_off :: u64

abbreviation (input) sizeof_hdr :: nat where "sizeof_hdr \<equiv> 40"

definition DEFINE_SNAPBLOCK_FILE_HDR :: "u64 \<Rightarrow> u64 \<Rightarrow> snapblock_file_hdr" where
  "DEFINE_SNAPBLOCK_FILE_HDR block_num payload_size =
     \<lparr>hdr_magic = SNAPBLOCK_MAGIC, hdr_blknr = block_num, hdr_payldsiz = payload_size,
      hdr_payld_type = SNAPBLOCK_PAYLOAD_TYPE_RAW, hdr_payld_off = of_nat sizeof_hdr\<rparr>"

text \<open>The packed header as bytes, and back.\<close>

definition encode_hdr :: "snapblock_file_hdr \<Rightarrow> bytes" where
  "encode_hdr h = u64_bytes (hdr_magic h) @ u64_bytes (hdr_blknr h) @ u64_bytes (hdr_payldsiz h) @
     u64_bytes (hdr_payld_type h) @ u64_bytes (hdr_payld_off h)"

definition decode_hdr :: "bytes \<Rightarrow> snapblock_file_hdr" where
  "decode_hdr bs =
     \<lparr>hdr_magic = bytes_u64 (take 8 bs), hdr_blknr = bytes_u64 (take 8 (drop 8 bs)),
      hdr_payldsiz = bytes_u64 (take 8 (drop 16 bs)),
      hdr_payld_type = bytes_u64 (take 8 (drop 24 bs)),
      hdr_payld_off = bytes_u64 (take 8 (drop 32 bs))\<rparr>"

section \<open>Reading\<close>

text \<open>\<open>kernel_read\<close> at \<open>pos\<close>: \<open>None\<close> for a negative return value; \<open>rfail\<close> are the offsets
  at which the read fails.\<close>

definition kernel_read :: "(u64 \<Rightarrow> bool) \<Rightarrow> bytes \<Rightarrow> u64 \<Rightarrow> nat \<Rightarrow> bytes option" where
  "kernel_read rfail file pos n =
     (if rfail pos \<or> sint pos < 0 then None else Some (take n (drop (unat pos) file)))"

definition read_snapblock_mandatory_header ::
  "(u64 \<Rightarrow> bool) \<Rightarrow> bytes \<Rightarrow> u64 \<Rightarrow> snapblock_file_hdr option" where
  "read_snapblock_mandatory_header rfail file start_hdr_off =
     (case kernel_read rfail file start_hdr_off sizeof_hdr of
        None \<Rightarrow> None
      | Some bs \<Rightarrow>
          if length bs \<noteq> sizeof_hdr then None
          else let out_hdr = decode_hdr bs in
            if hdr_magic out_hdr \<noteq> SNAPBLOCK_MAGIC then None else Some out_hdr)"

text \<open>The \<open>while\<close> loop follows the offsets of the file, so that a corrupt file can make it run
  for ever: \<open>None\<close> is "does not return".\<close>

partial_function (option) file_lookup_from ::
  "(u64 \<Rightarrow> bool) \<Rightarrow> u64 \<Rightarrow> bytes \<Rightarrow> u64 \<Rightarrow> bool option" where
  "file_lookup_from rfail blknr file foff =
     (case read_snapblock_mandatory_header rfail file foff of
        None \<Rightarrow> Some False
      | Some blk_header \<Rightarrow>
          if hdr_blknr blk_header = blknr then Some True
          else file_lookup_from rfail blknr file
                 (foff + (hdr_payld_off blk_header + hdr_payldsiz blk_header)))"

definition file_lookup :: "(u64 \<Rightarrow> bool) \<Rightarrow> u64 \<Rightarrow> bytes \<Rightarrow> bool option" where
  "file_lookup rfail blknr file = file_lookup_from rfail blknr file 0"

section \<open>Writing\<close>

record write_snapblock_args =
  mandatory_hdr :: snapblock_file_hdr
  extended_hdr :: "bytes option"
  extended_hdr_size :: nat
  payload :: bytes
  payload_size :: nat

definition DEFINE_WRITE_SNAPBLOCK_ARGS ::
  "snapblock_file_hdr \<Rightarrow> bytes \<Rightarrow> nat \<Rightarrow> write_snapblock_args" where
  "DEFINE_WRITE_SNAPBLOCK_ARGS mand_hdr payld payld_size =
     \<lparr>mandatory_hdr = mand_hdr, extended_hdr = None, extended_hdr_size = 0,
      payload = payld, payload_size = payld_size\<rparr>"

text \<open>The return values of the three \<open>kernel_write\<close> calls: a negative error number, or how many
  of the bytes were appended.\<close>

record write_results =
  wr_hdr :: int
  wr_ext :: int
  wr_payld :: int

definition kernel_write :: "int \<Rightarrow> bytes \<Rightarrow> nat \<Rightarrow> bytes \<Rightarrow> int \<times> bytes" where
  "kernel_write r buf n file = (r, file @ take (nat r) (take n buf))"

definition write_snapblock ::
  "write_results \<Rightarrow> bytes \<Rightarrow> write_snapblock_args \<Rightarrow> bool \<times> bytes" where
  "write_snapblock wr file wargs =
     (let (wrote, f1) = kernel_write (wr_hdr wr) (encode_hdr (mandatory_hdr wargs)) sizeof_hdr file in
      if wrote \<noteq> int sizeof_hdr then (False, f1)
      else
        let (ok, f2) =
          (case extended_hdr wargs of
             Some ext \<Rightarrow>
               if extended_hdr_size wargs > 0 then
                 let (wrote, f2) = kernel_write (wr_ext wr) ext (extended_hdr_size wargs) f1 in
                 (wrote = int (extended_hdr_size wargs), f2)
               else (True, f1)
           | None \<Rightarrow> (True, f1))
        in if \<not> ok then (False, f2)
           else
             let (wrote, f3) = kernel_write (wr_payld wr) (payload wargs) (payload_size wargs) f2 in
             if wrote \<noteq> int (payload_size wargs) then (False, f3) else (True, f3))"

section \<open>The list of records of a file\<close>

definition encode_record :: "u64 \<times> bytes \<Rightarrow> bytes" where
  "encode_record r = encode_hdr (DEFINE_SNAPBLOCK_FILE_HDR (fst r) (of_nat (length (snd r)))) @ snd r"

definition encode_records :: "(u64 \<times> bytes) list \<Rightarrow> bytes" where
  "encode_records rs = concat (map encode_record rs)"

function parse_records :: "bytes \<Rightarrow> (u64 \<times> bytes) list" where
  "parse_records bs =
     (let h = decode_hdr bs; n = unat (hdr_payldsiz h) in
      if length bs < sizeof_hdr \<or> h \<noteq> DEFINE_SNAPBLOCK_FILE_HDR (hdr_blknr h) (hdr_payldsiz h) \<or>
         length bs < sizeof_hdr + n
      then []
      else (hdr_blknr h, take n (drop sizeof_hdr bs)) # parse_records (drop (sizeof_hdr + n) bs))"
  by pat_completeness auto
termination
  by (relation "measure length") auto

declare parse_records.simps [simp del]

section \<open>Round trips\<close>

lemma length_encode_hdr [simp]: "length (encode_hdr h) = 40"
  by (simp add: encode_hdr_def)

lemma take_u64_bytes [simp]: "take 8 (u64_bytes w @ r) = u64_bytes w"
  and drop_u64_bytes [simp]: "8 \<le> k \<Longrightarrow> drop k (u64_bytes w @ r) = drop (k - 8) r"
  by simp_all

lemma decode_encode_hdr [simp]: "decode_hdr (encode_hdr h @ r) = h"
  by (simp add: decode_hdr_def encode_hdr_def)

lemma decode_encode_hdr0 [simp]: "decode_hdr (encode_hdr h) = h"
  using decode_encode_hdr[of h "[]"] by simp

lemma length_encode_record: "length (encode_record r) = 40 + length (snd r)"
  by (simp add: encode_record_def)

lemma encode_records_simps [simp]:
  "encode_records [] = []" "encode_records (r # rs) = encode_record r @ encode_records rs"
  "encode_records (rs @ rs') = encode_records rs @ encode_records rs'"
  by (simp_all add: encode_records_def)

lemma unat_of_nat64: "n < 2 ^ 64 \<Longrightarrow> unat (of_nat n :: u64) = n"
  by (simp add: unat_of_nat take_bit_eq_mod)

lemma parse_record_cons:
  assumes "length d < 2 ^ 64"
  shows "parse_records (encode_record (b, d) @ rest) = (b, d) # parse_records rest"
  using assms
  by (subst parse_records.simps)
    (simp add: encode_record_def Let_def DEFINE_SNAPBLOCK_FILE_HDR_def unat_of_nat64)

lemma parse_encode_records:
  "\<forall>r \<in> set rs. length (snd r) < 2 ^ 64 \<Longrightarrow> parse_records (encode_records rs) = rs"
proof (induction rs)
  case Nil
  show ?case by (subst parse_records.simps) simp
next
  case (Cons r rs)
  then show ?case by (cases r) (simp add: parse_record_cons)
qed

lemma parse_records_torn:
  assumes "\<forall>r \<in> set rs. length (snd r) < 2 ^ 64" "length part < n" "n < 2 ^ 64"
  shows "parse_records (encode_records rs @ encode_hdr (DEFINE_SNAPBLOCK_FILE_HDR b (of_nat n)) @ part) = rs"
  using assms(1)
proof (induction rs)
  case Nil
  then show ?case using assms(2,3)
    by (subst parse_records.simps) (simp add: Let_def DEFINE_SNAPBLOCK_FILE_HDR_def unat_of_nat64)
next
  case (Cons r rs)
  then show ?case by (cases r) (simp add: parse_record_cons)
qed

section \<open>The search loop\<close>

definition no_read_fail :: "u64 \<Rightarrow> bool" where "no_read_fail off = False"

lemma sint_of_nat64: 
  assumes "n < 2 ^ 63" shows "sint (of_nat n :: u64) = int n"
proof -
  have "uint (of_nat n :: u64) = int (unat (of_nat n :: u64))" by (simp only: of_nat_unat)
  also have "unat (of_nat n :: u64) = n" using assms by (intro unat_of_nat64) simp
  finally have "uint (of_nat n :: u64) = int n" .
  with assms show ?thesis by (simp add: sint_uint signed_take_bit_int_eq_self)
qed

lemma read_header_at_record:
  assumes "length pre + 40 \<le> 2 ^ 63" 
  shows "read_snapblock_mandatory_header no_read_fail (pre @ encode_record (b, d) @ rest)
      (of_nat (length pre)) = Some (DEFINE_SNAPBLOCK_FILE_HDR b (of_nat (length d)))"
  using assms
  by (simp add: read_snapblock_mandatory_header_def kernel_read_def no_read_fail_def
      encode_record_def sint_of_nat64 unat_of_nat64 Let_def DEFINE_SNAPBLOCK_FILE_HDR_def)

lemma read_header_at_end:
  assumes "length file < 2 ^ 63"
  shows "read_snapblock_mandatory_header no_read_fail file (of_nat (length file)) = None"
  using assms
  by (simp add: read_snapblock_mandatory_header_def kernel_read_def unat_of_nat64)

lemma file_lookup_from_records:
  assumes "length (pre @ encode_records rs) < 2 ^ 63"
  shows "file_lookup_from no_read_fail b (pre @ encode_records rs) (of_nat (length pre))
      = Some (b \<in> fst ` set rs)"
  using assms
proof (induction rs arbitrary: pre)
  case Nil
  then show ?case by (subst file_lookup_from.simps) (simp add: read_header_at_end)
next
  case (Cons r rs)
  obtain b' d where r: "r = (b', d)" by (cases r)
  let ?pre = "pre @ encode_record r"
  have len: "length pre + 40 + length d + length (encode_records rs) < 2 ^ 63"
    using Cons.prems by (simp add: r length_encode_record)
  have next_off: "of_nat (length pre) + (40 + of_nat (length d)) = (of_nat (length ?pre) :: u64)"
    by (simp add: r length_encode_record)
  have IH: "file_lookup_from no_read_fail b (?pre @ encode_records rs) (of_nat (length ?pre))
      = Some (b \<in> fst ` set rs)"
    using Cons.prems by (intro Cons.IH) simp
  show ?case
    using len IH next_off
    by (subst file_lookup_from.simps)
      (auto simp: r read_header_at_record DEFINE_SNAPBLOCK_FILE_HDR_def)
qed

lemma file_lookup_records:
  "length (encode_records rs) < 2 ^ 63 \<Longrightarrow>
     file_lookup no_read_fail b (encode_records rs) = Some (b \<in> fst ` set rs)"
  using file_lookup_from_records[of "[]" rs b] by (simp add: file_lookup_def)


section \<open>Writing one record\<close>

text \<open>The raw record the worker writes, and the results of a write without I/O errors.\<close>

definition write_raw :: "write_results \<Rightarrow> u64 \<Rightarrow> bytes \<Rightarrow> bytes \<Rightarrow> bool \<times> bytes" where
  "write_raw wr b d file = write_snapblock wr file
     (DEFINE_WRITE_SNAPBLOCK_ARGS (DEFINE_SNAPBLOCK_FILE_HDR b (of_nat (length d))) d (length d))"

definition full_write :: "write_results \<Rightarrow> bytes \<Rightarrow> bool" where
  "full_write wr d \<longleftrightarrow> wr_hdr wr = int sizeof_hdr \<and> wr_payld wr = int (length d)"

text \<open>\<open>kernel_write\<close> never reports more bytes than it was given.\<close>

definition write_range :: "write_results \<Rightarrow> bytes \<Rightarrow> bool" where
  "write_range wr d \<longleftrightarrow> wr_hdr wr \<le> int sizeof_hdr \<and> wr_payld wr \<le> int (length d)"

lemma write_raw_full:
  "full_write wr d \<Longrightarrow> write_raw wr b d file = (True, file @ encode_record (b, d))"
  by (simp add: full_write_def write_raw_def write_snapblock_def DEFINE_WRITE_SNAPBLOCK_ARGS_def
      kernel_write_def encode_record_def Let_def)

lemma nat_less_length: "d \<noteq> [] \<Longrightarrow> i < int (length d) \<Longrightarrow> nat i < length d"
  and nat_less_length': "d \<noteq> [] \<Longrightarrow> i \<le> int (length d) \<Longrightarrow> i \<noteq> int (length d) \<Longrightarrow> nat i < length d"
  by (cases "0 \<le> i"; simp)+

lemma write_raw_short:
  assumes "write_range wr d" "\<not> full_write wr d" "d \<noteq> []"
  shows "\<exists>k < length (encode_record (b, d)).
    write_raw wr b d file = (False, file @ take k (encode_record (b, d)))"
proof (cases "wr_hdr wr = int sizeof_hdr")
  case True
  with assms have "write_raw wr b d file = (False, file @ take (40 + nat (wr_payld wr)) (encode_record (b, d)))"
    and "40 + nat (wr_payld wr) < length (encode_record (b, d))"
    by (auto simp: write_raw_def write_snapblock_def DEFINE_WRITE_SNAPBLOCK_ARGS_def full_write_def
        write_range_def kernel_write_def encode_record_def Let_def nat_less_length')
  then show ?thesis by blast
next
  case False
  with assms have "write_raw wr b d file = (False, file @ take (nat (wr_hdr wr)) (encode_record (b, d)))"
    and "nat (wr_hdr wr) < length (encode_record (b, d))"
    by (auto simp: write_raw_def write_snapblock_def DEFINE_WRITE_SNAPBLOCK_ARGS_def full_write_def
        write_range_def kernel_write_def encode_record_def Let_def)
  then show ?thesis by blast
qed

section \<open>The log interface\<close>

text \<open>The abstract log of an epoch: the first block saved under a number stays.\<close>

definition log_add :: "u64 \<times> bytes \<Rightarrow> (u64 \<times> bytes) list \<Rightarrow> (u64 \<times> bytes) list" where
  "log_add r L = (if fst r \<in> fst ` set L then L else L @ [r])"

lemma log_add_distinct: "distinct (map fst L) \<Longrightarrow> distinct (map fst (log_add r L))"
  by (auto simp: log_add_def)

lemma log_add_keys: "fst ` set (log_add r L) = insert (fst r) (fst ` set L)"
  by (auto simp: log_add_def)

text \<open>
  What the worker relies on: the file stands for a list of records, the search finds exactly the
  recorded block numbers, and a complete write appends one record. Searching before writing is
  then \<open>log_add\<close>.
\<close>

locale block_log =
  fixes ok :: "'f \<Rightarrow> bool"
    and records :: "'f \<Rightarrow> (u64 \<times> 'd) list"
    and room :: "'f \<Rightarrow> 'd \<Rightarrow> bool"
    and full :: "'w \<Rightarrow> 'd \<Rightarrow> bool"
    and find_block :: "u64 \<Rightarrow> 'f \<Rightarrow> bool option"
    and append_block :: "'w \<Rightarrow> u64 \<Rightarrow> 'd \<Rightarrow> 'f \<Rightarrow> bool \<times> 'f"
  assumes find_spec: "ok f \<Longrightarrow> find_block b f = Some (b \<in> fst ` set (records f))"
    and append_true: "ok f \<Longrightarrow> full w d \<Longrightarrow> fst (append_block w b d f)"
    and append_ok: "ok f \<Longrightarrow> room f d \<Longrightarrow> full w d \<Longrightarrow> ok (snd (append_block w b d f))"
    and append_records: "ok f \<Longrightarrow> room f d \<Longrightarrow> full w d \<Longrightarrow>
          records (snd (append_block w b d f)) = records f @ [(b, d)]"
begin

lemma find_returns: "ok f \<Longrightarrow> find_block b f \<noteq> None"
  by (simp add: find_spec)

lemma find_appended:
  "ok f \<Longrightarrow> room f d \<Longrightarrow> full w d \<Longrightarrow> find_block b (snd (append_block w b d f)) = Some True"
  by (simp add: find_spec append_ok append_records)

lemma find_other:
  "ok f \<Longrightarrow> room f d \<Longrightarrow> full w d \<Longrightarrow> b' \<noteq> b \<Longrightarrow>
     find_block b' (snd (append_block w b d f)) = find_block b' f"
  by (simp add: find_spec append_ok append_records)

lemma append_new:
  "ok f \<Longrightarrow> room f d \<Longrightarrow> full w d \<Longrightarrow> find_block b f = Some False \<Longrightarrow> fst r = b \<Longrightarrow>
     b \<notin> fst ` set (records f) \<and> records (snd (append_block w b d f)) = records f @ [(b, d)]"
  by (simp add: find_spec append_records)

end

definition snapfile_ok :: "bytes \<Rightarrow> bool" where
  "snapfile_ok file \<longleftrightarrow> file = encode_records (parse_records file) \<and> length file < 2 ^ 63"

definition snapfile_room :: "bytes \<Rightarrow> bytes \<Rightarrow> bool" where
  "snapfile_room file d \<longleftrightarrow> length file + sizeof_hdr + length d < 2 ^ 63"

lemma encode_records_member: "r \<in> set rs \<Longrightarrow> length (snd r) \<le> length (encode_records rs)"
  by (induction rs) (auto simp: length_encode_record)

lemma snapfile_ok_encode: "length (encode_records rs) < 2 ^ 63 \<Longrightarrow> snapfile_ok (encode_records rs)"
  and parse_encode: "length (encode_records rs) < 2 ^ 63 \<Longrightarrow> parse_records (encode_records rs) = rs"
proof -
  assume len: "length (encode_records rs) < 2 ^ 63"
  have "\<And>r. r \<in> set rs \<Longrightarrow> length (snd r) < 2 ^ 64"
    using encode_records_member len by (fastforce intro: le_less_trans)
  then show "parse_records (encode_records rs) = rs" by (intro parse_encode_records) blast
  with len show "snapfile_ok (encode_records rs)" by (simp add: snapfile_ok_def)
qed

interpretation snaplog: block_log snapfile_ok parse_records snapfile_room full_write
  "file_lookup no_read_fail" write_raw
proof
  fix f d b and w :: write_results
  assume ok: "snapfile_ok f"
  show "file_lookup no_read_fail b f = Some (b \<in> fst ` set (parse_records f))"
    using ok file_lookup_records[of "parse_records f" b] by (simp add: snapfile_ok_def)
  assume full: "full_write w d"
  then show "fst (write_raw w b d f)" by (simp add: write_raw_full)
  assume room: "snapfile_room f d"
  have eq: "snd (write_raw w b d f) = encode_records (parse_records f @ [(b, d)])"
    using ok full by (simp add: write_raw_full snapfile_ok_def)
  have "length (encode_records (parse_records f @ [(b, d)])) < 2 ^ 63"
    using ok room by (simp add: snapfile_ok_def snapfile_room_def length_encode_record)
  then show "snapfile_ok (snd (write_raw w b d f))"
    and "parse_records (snd (write_raw w b d f)) = parse_records f @ [(b, d)]"
    unfolding eq by (rule snapfile_ok_encode, rule parse_encode)
qed



lemma file_lookup_from_stuck:
  assumes ret: "file_lookup_from rf blk fl off = Some y"
  shows "\<not> (\<exists>h. read_snapblock_mandatory_header rf fl off = Some h \<and> hdr_blknr h \<noteq> blk \<and>
    hdr_payld_off h + hdr_payldsiz h = 0)"
proof (rule file_lookup_from.raw_induct[where P = "\<lambda>rf blk fl off y.
    \<not> (\<exists>h. read_snapblock_mandatory_header rf fl off = Some h \<and> hdr_blknr h \<noteq> blk \<and>
    hdr_payld_off h + hdr_payldsiz h = 0)", OF _ ret])
  fix f rf blk fl off y
  assume IH: "\<And>blk fl off y z. f blk fl off y = Some z \<Longrightarrow>
      \<not> (\<exists>h. read_snapblock_mandatory_header blk off y = Some h \<and> hdr_blknr h \<noteq> fl \<and>
         hdr_payld_off h + hdr_payldsiz h = 0)"
    and eq: "(case read_snapblock_mandatory_header rf fl off of None \<Rightarrow> Some False
      | Some hh \<Rightarrow> if hdr_blknr hh = blk then Some True
          else f rf blk fl (off + (hdr_payld_off hh + hdr_payldsiz hh))) = Some y"
  show "\<not> (\<exists>h. read_snapblock_mandatory_header rf fl off = Some h \<and> hdr_blknr h \<noteq> blk \<and>
      hdr_payld_off h + hdr_payldsiz h = 0)"
  proof
    assume "\<exists>h. read_snapblock_mandatory_header rf fl off = Some h \<and> hdr_blknr h \<noteq> blk \<and>
      hdr_payld_off h + hdr_payldsiz h = 0"
    then obtain h where h: "read_snapblock_mandatory_header rf fl off = Some h" "hdr_blknr h \<noteq> blk"
      "hdr_payld_off h + hdr_payldsiz h = 0" by blast
    with eq have "f rf blk fl off = Some y" by simp
    from IH[OF this] h show False by blast
  qed
qed

section \<open>Properties\<close>

text \<open>The format of a snapblocks file, byte by byte: the magic number, the block number, the size of the block, the
  type 0 and the offset 40 as little-endian 64-bit numbers, then the block.\<close>

definition le64 :: "nat \<Rightarrow> bytes" where
  "le64 n = map (\<lambda>i. of_nat (n div 256 ^ i)) [0..<8]"

definition raw_record :: "u64 \<times> bytes \<Rightarrow> bytes" where
  "raw_record r =
     [0xef, 0x5a, 0xbe, 0x5a, 0xad, 0x5a, 0xde, 0x5a] @ le64 (unat (fst r)) @ le64 (length (snd r)) @
     [0, 0, 0, 0, 0, 0, 0, 0] @ [40, 0, 0, 0, 0, 0, 0, 0] @ snd r"

definition file_format :: "(u64 \<times> bytes) list \<Rightarrow> bytes" where
  "file_format rs = concat (map raw_record rs)"

lemma u64_bytes_le64: "u64_bytes w = le64 (unat w)"
proof -
  have "(ucast x :: u8) = of_nat (unat x)" for x :: u64 by (simp only: of_nat_unat)
  then have "(ucast (drop_bit (8 * i) w) :: u8) = of_nat (unat w div 256 ^ i)" for i
    by (simp only: unat_drop_bit_eq) (simp add: drop_bit_eq_div power_mult)
  then show ?thesis by (simp add: u64_bytes_def le64_def)
qed

lemma encode_raw_record: "length (snd r) < 2 ^ 64 \<Longrightarrow> encode_record r = raw_record r"
proof -
  assume len: "length (snd r) < 2 ^ 64"
  have "u64_bytes SNAPBLOCK_MAGIC = [0xef, 0x5a, 0xbe, 0x5a, 0xad, 0x5a, 0xde, 0x5a]"
    by (simp add: u64_bytes_le64 le64_def SNAPBLOCK_MAGIC_def upt_rec)
  moreover have "u64_bytes 0 = [0, 0, 0, 0, 0, 0, 0, 0]" "u64_bytes 40 = [40, 0, 0, 0, 0, 0, 0, 0]"
    by (simp_all add: u64_bytes_le64 le64_def upt_rec)
  ultimately show ?thesis
    by (simp add: encode_record_def encode_hdr_def DEFINE_SNAPBLOCK_FILE_HDR_def SNAPBLOCK_PAYLOAD_TYPE_RAW_def raw_record_def)
      (simp add: u64_bytes_le64 unat_of_nat64[OF len])
qed

lemma length_raw_record: "length (raw_record r) = 40 + length (snd r)"
  by (simp add: raw_record_def le64_def)

lemma encode_file_format:
  assumes "length (file_format rs) < 2 ^ 64"
  shows "encode_records rs = file_format rs"
  using assms
proof (induction rs)
  case (Cons r rs)
  then show ?case using encode_raw_record[of r] by (simp add: file_format_def length_raw_record)
qed (simp add: file_format_def)

lemma file_format_split: "i < length rs \<Longrightarrow> file_format rs = file_format (take i rs) @ raw_record (rs ! i) @ file_format (drop (Suc i) rs)"
  by (subst id_take_nth_drop[of i rs]) (simp_all add: file_format_def)

text \<open>C22: the \<open>snapblocks\<close> file on disk, byte for byte: a complete write of a block appends exactly one record in the
  format of \<open>file_format\<close>; the header read at the offset of a record gives its number and the raw type,
  its offset and size delimit exactly the block, and lead to the offset of the next record. So the records can
  be read back from the bytes, and any header from its packed bytes.\<close>

theorem snapblocks_roundtrip:
  assumes "length (file_format (rs @ [(b, d)])) < 2 ^ 63" "full_write wr d"
  shows "write_snapblock wr (file_format rs)
      (DEFINE_WRITE_SNAPBLOCK_ARGS (DEFINE_SNAPBLOCK_FILE_HDR b (of_nat (length d))) d (length d)) =
      (True, file_format (rs @ [(b, d)])) \<and>
    (\<forall>i < length rs. \<exists>h.
      read_snapblock_mandatory_header no_read_fail (file_format rs) (of_nat (length (file_format (take i rs)))) = Some h \<and>
      hdr_blknr h = fst (rs ! i) \<and> hdr_payld_type h = 0 \<and>
      take (unat (hdr_payldsiz h)) (drop (length (file_format (take i rs)) + unat (hdr_payld_off h)) (file_format rs)) = snd (rs ! i) \<and>
      length (file_format (take i rs)) + unat (hdr_payld_off h + hdr_payldsiz h) = length (file_format (take (Suc i) rs))) \<and>
    parse_records (file_format rs) = rs \<and> decode_hdr (encode_hdr h0) = h0"
proof -
  have all: "length (file_format rs) + 40 + length d < 2 ^ 63"
    using assms(1) by (simp add: file_format_def length_raw_record)
  have enc: "encode_records rs = file_format rs" "encode_record (b, d) = raw_record (b, d)"
    using all encode_raw_record[of "(b, d)"] by (simp_all add: encode_file_format)
  have "write_snapblock wr (file_format rs)
      (DEFINE_WRITE_SNAPBLOCK_ARGS (DEFINE_SNAPBLOCK_FILE_HDR b (of_nat (length d))) d (length d)) =
      (True, file_format (rs @ [(b, d)]))"
    using write_raw_full[OF assms(2), of b "file_format rs"] enc(2) by (simp add: write_raw_def file_format_def)
  moreover have "\<exists>h. read_snapblock_mandatory_header no_read_fail (file_format rs) (of_nat (length (file_format (take i rs)))) = Some h \<and>
      hdr_blknr h = fst (rs ! i) \<and> hdr_payld_type h = 0 \<and>
      take (unat (hdr_payldsiz h)) (drop (length (file_format (take i rs)) + unat (hdr_payld_off h)) (file_format rs)) = snd (rs ! i) \<and>
      length (file_format (take i rs)) + unat (hdr_payld_off h + hdr_payldsiz h) = length (file_format (take (Suc i) rs))"
    if i: "i < length rs" for i
  proof -
    obtain b' d' where r: "rs ! i = (b', d')" by (cases "rs ! i")
    let ?pre = "file_format (take i rs)" and ?rest = "file_format (drop (Suc i) rs)"
    have split: "file_format rs = ?pre @ raw_record (b', d') @ ?rest" using file_format_split[OF i] r by simp
    have len: "length ?pre + 40 + length d' < 2 ^ 63"
      using all by (simp add: split length_raw_record)
    then have raw: "encode_record (b', d') = raw_record (b', d')" by (simp add: encode_raw_record)
    have off: "unat (40 + of_nat (length d') :: u64) = 40 + length d'"
      using unat_of_nat64[of "40 + length d'"] len by simp
    have read: "read_snapblock_mandatory_header no_read_fail (file_format rs) (of_nat (length ?pre)) =
        Some (DEFINE_SNAPBLOCK_FILE_HDR b' (of_nat (length d')))"
      using read_header_at_record[of ?pre b' d' ?rest] len raw split by simp
    have blk: "take (length d') (drop (length ?pre + 40) (file_format rs)) = d'"
      unfolding split by (simp add: raw_record_def le64_def)
    have nxt: "length (file_format (take (Suc i) rs)) = length ?pre + 40 + length d'"
      using i r by (simp add: take_Suc_conv_app_nth file_format_def length_raw_record)
    show ?thesis
      using read blk nxt off len r
      by (simp add: DEFINE_SNAPBLOCK_FILE_HDR_def SNAPBLOCK_PAYLOAD_TYPE_RAW_def unat_of_nat64)
  qed
  moreover have "parse_records (file_format rs) = rs"
    using parse_encode[of rs] all enc(1) by simp
  ultimately show ?thesis by simp
qed

definition sample_records :: "(u64 \<times> bytes) list" where
  "sample_records = [(3, [1, 2]), (5, [7])]"

theorem snapblocks_roundtrip_witness:
  "write_snapblock \<lparr>wr_hdr = 40, wr_ext = 0, wr_payld = 2\<rparr> (file_format sample_records)
      (DEFINE_WRITE_SNAPBLOCK_ARGS (DEFINE_SNAPBLOCK_FILE_HDR 9 2) [8, 8] 2) = (True, file_format (sample_records @ [(9, [8, 8])])) \<and>
   parse_records (file_format sample_records) = sample_records"
proof -
  have "length (file_format (sample_records @ [(9, [8, 8])])) < 2 ^ 63"
    by (simp add: sample_records_def file_format_def length_raw_record)
  from snapblocks_roundtrip[OF this, of "\<lparr>wr_hdr = 40, wr_ext = 0, wr_payld = 2\<rparr>"]
  show ?thesis by (simp add: full_write_def numeral_2_eq_2)
qed

text \<open>C13: on a file of complete records the search of \<open>file_lookup\<close> returns, and it returns true
  exactly for the block numbers that have a record.\<close>

theorem file_lookup_total_correct:
  assumes "length (encode_records rs) < 2 ^ 63"
  shows "file_lookup no_read_fail b (encode_records rs) = Some (b \<in> fst ` set rs)"
  using assms by (rule file_lookup_records)

theorem file_lookup_total_correct_witness:
  "file_lookup no_read_fail 5 (encode_records sample_records) = Some True \<and>
   file_lookup no_read_fail 4 (encode_records sample_records) = Some False"
proof -
  have "length (encode_records sample_records) < 2 ^ 63"
    by (simp add: sample_records_def length_encode_record)
  from file_lookup_total_correct[OF this, of 5] file_lookup_total_correct[OF this, of 4]
  show ?thesis by (simp add: sample_records_def)
qed

text \<open>C31: \<open>write_snapblock\<close> returns true exactly when both the header and the block were written
  completely, and then the file has grown by that record; when it returns false the file may still
  have grown, by a proper prefix of the record.\<close>

theorem write_snapblock_outcome:
  assumes "write_range wr d" "d \<noteq> []"
  shows "(fst (write_raw wr b d file) \<longleftrightarrow> full_write wr d) \<and>
    (full_write wr d \<longrightarrow> snd (write_raw wr b d file) = file @ encode_record (b, d)) \<and>
    (\<not> full_write wr d \<longrightarrow> (\<exists>k < length (encode_record (b, d)).
      snd (write_raw wr b d file) = file @ take k (encode_record (b, d))))"
proof (cases "full_write wr d")
  case True
  then show ?thesis by (simp add: write_raw_full)
next
  case False
  then obtain k where "k < length (encode_record (b, d))"
    "write_raw wr b d file = (False, file @ take k (encode_record (b, d)))"
    using write_raw_short[OF assms(1) False assms(2)] by blast
  with False show ?thesis by auto
qed

theorem write_snapblock_outcome_witness:
  "\<not> fst (write_raw \<lparr>wr_hdr = 40, wr_ext = 0, wr_payld = - EIO\<rparr> 3 [1, 2] [])"
  using write_snapblock_outcome[of "\<lparr>wr_hdr = 40, wr_ext = 0, wr_payld = - EIO\<rparr>" "[1, 2]" 3 "[]"]
  by (simp add: write_range_def full_write_def)

text \<open>a torn record counts as saved: if the header of a block was written but its payload was
  not (or not completely), \<open>file_lookup\<close> from then on reports the block as present, although its
  contents are not in the file.\<close>

theorem torn_record_counts_as_saved:
  assumes "length (encode_records rs) + sizeof_hdr + length d < 2 ^ 63"
    and "d \<noteq> []" "b \<notin> fst ` set rs" "wr_hdr wr = int sizeof_hdr" "wr_payld wr < int (length d)"
  shows "\<exists>f. write_raw wr b d (encode_records rs) = (False, f) \<and>
    file_lookup no_read_fail b f = Some True \<and> parse_records f = rs"
proof -
  let ?d = "take (nat (wr_payld wr)) d"
  let ?hdr = "encode_hdr (DEFINE_SNAPBLOCK_FILE_HDR b (of_nat (length d)))"
  let ?f = "encode_records rs @ ?hdr @ ?d"
  have short: "length ?d < length d" using nat_less_length[OF assms(2,5)] by simp
  have w: "write_raw wr b d (encode_records rs) = (False, ?f)"
    using assms(4,5) by (simp add: write_raw_def write_snapblock_def DEFINE_WRITE_SNAPBLOCK_ARGS_def
        kernel_write_def Let_def)
  have small: "length pre + length (encode_records rs') = length (encode_records rs) \<Longrightarrow>
      file_lookup_from no_read_fail b (pre @ encode_records rs' @ ?hdr @ ?d) (of_nat (length pre)) = Some True"
    if "b \<notin> fst ` set rs'" for pre rs'
    using that
  proof (induction rs' arbitrary: pre)
    case Nil
    then show ?case
      using assms(1) by (subst file_lookup_from.simps)
        (simp add: read_snapblock_mandatory_header_def kernel_read_def no_read_fail_def
          sint_of_nat64 unat_of_nat64 Let_def DEFINE_SNAPBLOCK_FILE_HDR_def)
  next
    case (Cons r rs'')
    obtain b' d' where r: "r = (b', d')" by (cases r)
    have next_off: "of_nat (length pre) + (40 + of_nat (length d')) = (of_nat (length (pre @ encode_record r)) :: u64)"
      by (simp add: r length_encode_record)
    have "file_lookup_from no_read_fail b ((pre @ encode_record r) @ encode_records rs'' @ ?hdr @ ?d)
        (of_nat (length (pre @ encode_record r))) = Some True"
      using Cons.prems by (intro Cons.IH) (auto simp: length_encode_record)
    with Cons.prems assms(1) next_off show ?case
      by (subst file_lookup_from.simps)
        (auto simp: r read_header_at_record DEFINE_SNAPBLOCK_FILE_HDR_def length_encode_record)
  qed
  have "file_lookup no_read_fail b ?f = Some True"
    using small[OF assms(3), of "[]"] by (simp add: file_lookup_def)
  moreover have "parse_records ?f = rs"
    using assms(1) short encode_records_member by (intro parse_records_torn) fastforce+
  ultimately show ?thesis using w by blast
qed

theorem torn_record_counts_as_saved_witness:
  "\<exists>f. file_lookup no_read_fail 9 f = Some True \<and> parse_records f = sample_records"
proof -
  have "length (encode_records sample_records) + 40 + length [1, 2 :: u8] < 2 ^ 63"
    by (simp add: sample_records_def length_encode_record)
  from torn_record_counts_as_saved[OF this, of 9 "\<lparr>wr_hdr = 40, wr_ext = 0, wr_payld = 1\<rparr>"]
  show ?thesis by (auto simp: sample_records_def)
qed

text \<open>C38: a corrupt file can hang the worker: when the first header points back to itself
  (payload offset plus payload size wrap to 0) and holds another block number, the search for a
  block never returns.\<close>

theorem file_lookup_hangs:
  assumes "hdr_magic h = SNAPBLOCK_MAGIC" "hdr_payld_off h + hdr_payldsiz h = 0" "hdr_blknr h \<noteq> b"
  shows "file_lookup no_read_fail b (encode_hdr h @ rest) = None"
proof -
  have head: "read_snapblock_mandatory_header no_read_fail (encode_hdr h @ rest) 0 = Some h"
    using assms(1) by (simp add: read_snapblock_mandatory_header_def kernel_read_def no_read_fail_def)
  have "file_lookup_from no_read_fail b (encode_hdr h @ rest) 0 \<noteq> Some y" for y
    using file_lookup_from_stuck head assms(2,3) by blast
  then show ?thesis by (auto simp: file_lookup_def)
qed

definition looping_hdr :: snapblock_file_hdr where
  "looping_hdr = \<lparr>hdr_magic = SNAPBLOCK_MAGIC, hdr_blknr = 1, hdr_payldsiz = 0,
     hdr_payld_type = 0, hdr_payld_off = 0\<rparr>"

theorem file_lookup_hangs_witness: "file_lookup no_read_fail 2 (encode_hdr looping_hdr) = None"
  using file_lookup_hangs[of looping_hdr 2 "[]"] by (simp add: looping_hdr_def)

end
