(* ===== verification/Snapdir.thy ===== *)
theory Snapdir
  imports Snapblocks
begin

text \<open>
  Finding or making the directory \<open>/snapshot/<device>-<date>\<close> of an epoch and opening its
  \<open>snapblocks\<close> file, \<open>src/kernel/snapshot.c\<close> lines 37 to 230, 304 to 353 and 429 to 459.

  The file system is seen through the VFS calls the code makes: a table of inodes, where a
  directory maps names to inode numbers. A positive dentry is identified with its inode number,
  and \<open>dentry_refs\<close>, \<open>mnt_refs\<close> count the references the module holds on dentries and on the
  mount (\<open>dget\<close>/\<open>dput\<close>, \<open>path_get\<close>/\<open>path_put\<close>, an open file). Which VFS call fails is an
  argument (\<open>snapdir_env\<close>); a call that succeeds has its documented effect. The code is that of
  kernels from 6.15, where \<open>vfs_mkdir\<close> returns the dentry or an error pointer.
\<close>

section \<open>The file system\<close>

datatype inode_kind = KDir | KReg | KOther

record inode =
  i_kind :: inode_kind
  i_nlink :: nat
  i_entries :: "string \<rightharpoonup> nat"
  i_data :: bytes

record vfs =
  inodes :: "nat \<rightharpoonup> inode"
  next_ino :: nat
  dentry_refs :: "nat \<Rightarrow> int"
  mnt_refs :: int

definition ROOT_INO :: nat where "ROOT_INO = 0"

definition dget :: "nat \<Rightarrow> vfs \<Rightarrow> vfs" where
  "dget d v = v\<lparr>dentry_refs := (dentry_refs v)(d := dentry_refs v d + 1)\<rparr>"

definition dput :: "nat \<Rightarrow> vfs \<Rightarrow> vfs" where
  "dput d v = v\<lparr>dentry_refs := (dentry_refs v)(d := dentry_refs v d - 1)\<rparr>"

definition path_get :: "nat \<Rightarrow> vfs \<Rightarrow> vfs" where
  "path_get d v = (dget d v)\<lparr>mnt_refs := mnt_refs v + 1\<rparr>"

definition path_put :: "nat \<Rightarrow> vfs \<Rightarrow> vfs" where
  "path_put d v = (dput d v)\<lparr>mnt_refs := mnt_refs v - 1\<rparr>"

definition d_kind :: "vfs \<Rightarrow> nat \<Rightarrow> inode_kind option" where
  "d_kind v d = map_option i_kind (inodes v d)"

definition dir_entry :: "vfs \<Rightarrow> nat \<Rightarrow> string \<Rightarrow> nat option" where
  "dir_entry v d name = (case inodes v d of None \<Rightarrow> None | Some i \<Rightarrow> i_entries i name)"

text \<open>\<open>vfs_path_lookup\<close>: on success the path holds a reference on the dentry and the mount.\<close>

definition vfs_path_lookup :: "vfs \<Rightarrow> nat \<Rightarrow> string \<Rightarrow> (nat \<times> vfs) option" where
  "vfs_path_lookup v d name =
     (case dir_entry v d name of None \<Rightarrow> None | Some c \<Rightarrow> Some (c, path_get c v))"

text \<open>\<open>vfs_mkdir\<close> and \<open>vfs_create\<close>: a new inode, linked in the parent.\<close>

definition new_inode :: "inode_kind \<Rightarrow> vfs \<Rightarrow> nat \<Rightarrow> string \<Rightarrow> nat \<times> vfs" where
  "new_inode k v d name =
     (let c = next_ino v;
          node = \<lparr>i_kind = k, i_nlink = (if k = KDir then 2 else 1), i_entries = Map.empty, i_data = []\<rparr>;
          upd = (case inodes v d of None \<Rightarrow> inodes v
                 | Some p \<Rightarrow> (inodes v)(d \<mapsto> p\<lparr>i_entries := (i_entries p)(name \<mapsto> c)\<rparr>))
      in (c, v\<lparr>inodes := upd(c \<mapsto> node), next_ino := c + 1\<rparr>))"

text \<open>Return values of the calls that the environment decides, by the name they are made for:
  0 or a negative error number, and whether an allocation succeeds.\<close>

record snapdir_env =
  kern_path_err :: int
  want_write_err :: "string \<Rightarrow> int"
  new_dentry_err :: "string \<Rightarrow> int"
  vfs_mkdir_err :: "string \<Rightarrow> int"
  vfs_create_err :: int
  dentry_open_err :: int
  kmalloc_path_ok :: bool
  kmalloc_name_ok :: bool

datatype dentry_ptr = DNull | DErr int | DPtr nat

datatype file_ptr = FErr int | FPtr nat

section \<open>Directories\<close>

text \<open>The variant for kernels from 6.15 on, where \<open>vfs_mkdir\<close> returns the dentry or an error pointer. (Before, an
  error of \<open>vfs_mkdir\<close> is only logged and the new dentry, still without an inode, is returned as if it were made.)\<close>

definition mkdir_via_name_by_dent ::
  "snapdir_env \<Rightarrow> string \<Rightarrow> nat \<Rightarrow> vfs \<Rightarrow> dentry_ptr \<times> vfs" where
  "mkdir_via_name_by_dent env dir_name d_parent v =
     (if new_dentry_err env dir_name \<noteq> 0 then (DNull, v)
      else if vfs_mkdir_err env dir_name \<noteq> 0 then (DErr (vfs_mkdir_err env dir_name), v)
      else let (c, v1) = new_inode KDir v d_parent dir_name in (DPtr c, dget c v1))"

definition path_snapdir_get :: "nat \<Rightarrow> vfs \<Rightarrow> nat option \<times> vfs" where
  "path_snapdir_get dent v = (Some dent, path_get dent v)"

definition mkdir_may_exist ::
  "snapdir_env \<Rightarrow> string \<Rightarrow> nat \<Rightarrow> vfs \<Rightarrow> nat option \<times> vfs" where
  "mkdir_may_exist env relname dentry v =
     (case vfs_path_lookup v dentry relname of
        Some (existing, v1) \<Rightarrow>
          let v2 = path_put existing (dget existing v1) in
          if d_kind v2 existing \<noteq> Some KDir then (None, v2) else (Some existing, v2)
      | None \<Rightarrow>
          if want_write_err env relname \<noteq> 0 then (None, v)
          else (case mkdir_via_name_by_dent env relname dentry v of
                  (DErr e, v1) \<Rightarrow> (None, v1)
                | (DNull, v1) \<Rightarrow> (None, v1)
                | (DPtr d, v1) \<Rightarrow> (Some d, v1)))"

definition init_path_snapdir ::
  "snapdir_env \<Rightarrow> string \<Rightarrow> vfs \<Rightarrow> bool \<times> nat option \<times> vfs" where
  "init_path_snapdir env snap_subdir_name v =
     (if kern_path_err env \<noteq> 0 then (False, None, v)
      else let v1 = path_get ROOT_INO v in
        (case mkdir_may_exist env ''snapshot'' ROOT_INO v1 of
           (None, v2) \<Rightarrow> (False, None, path_put ROOT_INO v2)
         | (Some d_snap, v2) \<Rightarrow>
             (case mkdir_may_exist env snap_subdir_name d_snap v2 of
                (None, v3) \<Rightarrow> (False, None, path_put ROOT_INO (dput d_snap v3))
              | (Some d_sub, v3) \<Rightarrow>
                  let v4 = dput d_snap v3 in
                  if \<not> kmalloc_path_ok env then (False, None, path_put ROOT_INO (dput d_sub v4))
                  else let (p, v5) = path_snapdir_get d_sub v4 in
                    (True, p, path_put ROOT_INO (dput d_sub v5)))))"

section \<open>Names\<close>

text \<open>\<open>MNT_FMT_DATE_LEN\<close> is \<open>sizeof("-9999-12-31_23:59:59")\<close>; \<open>kbasename\<close> is the part after the
  last slash; \<open>snprintf\<close> writes at most \<open>n - 1\<close> characters.\<close>

definition MNT_FMT_DATE_LEN :: nat where "MNT_FMT_DATE_LEN = 21"

definition kbasename :: "string \<Rightarrow> string" where
  "kbasename s = rev (takeWhile (\<lambda>c. c \<noteq> CHR ''/'') (rev s))"

definition subdir_name :: "string \<Rightarrow> string \<Rightarrow> string" where
  "subdir_name devname mountdate =
     (let subdirname_len_wnul = length devname + MNT_FMT_DATE_LEN + 1
      in take (subdirname_len_wnul - 1) (kbasename devname @ mountdate))"

definition dentry_healthy :: "vfs \<Rightarrow> nat \<Rightarrow> bool" where
  "dentry_healthy v d =
     (case inodes v d of None \<Rightarrow> False | Some i \<Rightarrow> i_nlink i > 0 \<and> i_kind i = KDir)"

text \<open>The recursive call is made at most once, with the null pointer.\<close>

function ensure_path_snapdir_ok ::
  "snapdir_env \<Rightarrow> nat option \<Rightarrow> string \<Rightarrow> string \<Rightarrow> vfs \<Rightarrow> bool \<times> nat option \<times> vfs" where
  "ensure_path_snapdir_ok env None devname mountdate v =
     (if \<not> kmalloc_name_ok env then (False, None, v)
      else init_path_snapdir env (subdir_name devname mountdate) v)"
| "ensure_path_snapdir_ok env (Some dent) devname mountdate v =
     (if dentry_healthy v dent then (True, Some dent, v)
      else ensure_path_snapdir_ok env None devname mountdate (path_put dent v))"
  by pat_completeness auto
termination
  by (relation "measure (\<lambda>(env, p, devname, mountdate, v). if p = None then 0 else 1)") auto

section \<open>The snapblocks file\<close>

text \<open>\<open>dentry_open\<close> with \<open>O_RDWR | O_APPEND\<close>: the file holds a reference on its path, which
  \<open>fput\<close> drops.\<close>

definition dentry_open :: "snapdir_env \<Rightarrow> nat \<Rightarrow> vfs \<Rightarrow> file_ptr \<times> vfs" where
  "dentry_open env d v =
     (if dentry_open_err env \<noteq> 0 then (FErr (dentry_open_err env), v) else (FPtr d, path_get d v))"

definition fput :: "nat \<Rightarrow> vfs \<Rightarrow> vfs" where
  "fput d v = path_put d v"

definition create_snapblocks_file :: "snapdir_env \<Rightarrow> nat \<Rightarrow> vfs \<Rightarrow> bool \<times> file_ptr \<times> vfs" where
  "create_snapblocks_file env path_snapdir v =
     (if new_dentry_err env ''snapblocks'' \<noteq> 0 then (False, FErr 0, v)
      else if vfs_create_err env \<noteq> 0 then (False, FErr 0, v)
      else let (d_new, v1) = new_inode KReg v path_snapdir ''snapblocks'';
               v2 = dget d_new v1;
               (filp, v3) = dentry_open env d_new v2;
               v4 = dput d_new v3
           in (case filp of FErr e \<Rightarrow> (False, FErr e, v4) | FPtr f \<Rightarrow> (True, FPtr f, v4)))"

definition ensure_snapblocks_file_ok :: "snapdir_env \<Rightarrow> nat \<Rightarrow> vfs \<Rightarrow> bool \<times> file_ptr \<times> vfs" where
  "ensure_snapblocks_file_ok env path_snapdir v =
     (case vfs_path_lookup v path_snapdir ''snapblocks'' of
        Some (c, v1) \<Rightarrow>
          if d_kind v1 c \<noteq> Some KReg then (False, FErr 0, v1)
          else let (filp, v2) = dentry_open env c v1 in (True, filp, path_put c v2)
      | None \<Rightarrow> create_snapblocks_file env path_snapdir v)"

section \<open>Well-formed file systems\<close>

definition vfs_wf :: "vfs \<Rightarrow> bool" where
  "vfs_wf v \<longleftrightarrow>
     (\<exists>r. inodes v ROOT_INO = Some r \<and> i_kind r = KDir \<and> i_nlink r > 0) \<and>
     (\<forall>n i. inodes v n = Some i \<longrightarrow> n < next_ino v) \<and>
     (\<forall>n i name c. inodes v n = Some i \<longrightarrow> i_entries i name = Some c \<longrightarrow>
        (\<exists>j. inodes v c = Some j \<and> i_nlink j > 0))"

text \<open>What the module's calls may do to inodes that exist: add entries to a directory.\<close>

definition inode_le :: "inode \<Rightarrow> inode \<Rightarrow> bool" where
  "inode_le i j \<longleftrightarrow> i_kind j = i_kind i \<and> i_nlink j = i_nlink i \<and> i_data j = i_data i \<and>
     i_entries i \<subseteq>\<^sub>m i_entries j"

definition vfs_le :: "vfs \<Rightarrow> vfs \<Rightarrow> bool" where
  "vfs_le v w \<longleftrightarrow> (\<forall>n i. inodes v n = Some i \<longrightarrow> (\<exists>j. inodes w n = Some j \<and> inode_le i j))"

lemma vfs_le_refl [intro, simp]: "vfs_le v v"
  by (auto simp: vfs_le_def inode_le_def)

lemma inode_le_trans: "inode_le i j \<Longrightarrow> inode_le j k \<Longrightarrow> inode_le i k"
  unfolding inode_le_def using map_le_trans by fastforce

lemma vfs_le_trans: "vfs_le u v \<Longrightarrow> vfs_le v w \<Longrightarrow> vfs_le u w"
  unfolding vfs_le_def using inode_le_trans by blast

lemma refs_inodes [simp]:
  "inodes (dget d v) = inodes v" "inodes (dput d v) = inodes v"
  "inodes (path_get d v) = inodes v" "inodes (path_put d v) = inodes v"
  "next_ino (dget d v) = next_ino v" "next_ino (dput d v) = next_ino v"
  "next_ino (path_get d v) = next_ino v" "next_ino (path_put d v) = next_ino v"
  by (simp_all add: dget_def dput_def path_get_def path_put_def)

lemma refs_mnt [simp]:
  "mnt_refs (dget d v) = mnt_refs v" "mnt_refs (dput d v) = mnt_refs v"
  "mnt_refs (path_get d v) = mnt_refs v + 1" "mnt_refs (path_put d v) = mnt_refs v - 1"
  by (simp_all add: dget_def dput_def path_get_def path_put_def)

lemma refs_dentry:
  "dentry_refs (dget d v) = (dentry_refs v)(d := dentry_refs v d + 1)"
  "dentry_refs (dput d v) = (dentry_refs v)(d := dentry_refs v d - 1)"
  "dentry_refs (path_get d v) = (dentry_refs v)(d := dentry_refs v d + 1)"
  "dentry_refs (path_put d v) = (dentry_refs v)(d := dentry_refs v d - 1)"
  by (simp_all add: dget_def dput_def path_get_def path_put_def)

lemma refs_views [simp]:
  "dir_entry (dget d v) = dir_entry v" "dir_entry (dput d v) = dir_entry v"
  "dir_entry (path_get d v) = dir_entry v" "dir_entry (path_put d v) = dir_entry v"
  "d_kind (dget d v) = d_kind v" "d_kind (dput d v) = d_kind v"
  "d_kind (path_get d v) = d_kind v" "d_kind (path_put d v) = d_kind v"
  "dentry_healthy (dget d v) = dentry_healthy v" "dentry_healthy (dput d v) = dentry_healthy v"
  "dentry_healthy (path_get d v) = dentry_healthy v" "dentry_healthy (path_put d v) = dentry_healthy v"
  "vfs_wf (dget d v) = vfs_wf v" "vfs_wf (dput d v) = vfs_wf v"
  "vfs_wf (path_get d v) = vfs_wf v" "vfs_wf (path_put d v) = vfs_wf v"
  "vfs_le u (dget d v) = vfs_le u v" "vfs_le u (dput d v) = vfs_le u v"
  "vfs_le u (path_get d v) = vfs_le u v" "vfs_le u (path_put d v) = vfs_le u v"
  "vfs_le (dget d v) u = vfs_le v u" "vfs_le (dput d v) u = vfs_le v u"
  "vfs_le (path_get d v) u = vfs_le v u" "vfs_le (path_put d v) u = vfs_le v u"
  by (simp_all add: dir_entry_def d_kind_def dentry_healthy_def vfs_le_def vfs_wf_def fun_eq_iff)

lemma new_inode_spec:
  assumes wf: "vfs_wf v" and d: "inodes v d = Some p" and free: "i_entries p name = None"
    and new: "new_inode k v d name = (c, w)"
  shows "vfs_wf w" "vfs_le v w" "dir_entry w d name = Some c" "c = next_ino v"
    "inodes w c = Some \<lparr>i_kind = k, i_nlink = (if k = KDir then 2 else 1), i_entries = Map.empty, i_data = []\<rparr>"
    "dentry_refs w = dentry_refs v" "mnt_refs w = mnt_refs v"
proof -
  have lt: "\<And>n i. inodes v n = Some i \<Longrightarrow> n < next_ino v" using wf by (auto simp: vfs_wf_def)
  have c: "c = next_ino v" and fresh: "inodes v c = None" and dc: "d \<noteq> c"
    using new lt d by (force simp: new_inode_def Let_def)+
  have iw: "inodes w = (inodes v)(d \<mapsto> p\<lparr>i_entries := (i_entries p)(name \<mapsto> c)\<rparr>,
      c \<mapsto> \<lparr>i_kind = k, i_nlink = (if k = KDir then 2 else 1), i_entries = Map.empty, i_data = []\<rparr>)"
    and nw: "next_ino w = c + 1"
    and refs: "dentry_refs w = dentry_refs v" "mnt_refs w = mnt_refs v"
    using new by (auto simp: new_inode_def Let_def d)
  show "c = next_ino v" "dentry_refs w = dentry_refs v" "mnt_refs w = mnt_refs v" by fact+
  show "dir_entry w d name = Some c" using dc by (simp add: dir_entry_def iw)
  show "inodes w c = Some \<lparr>i_kind = k, i_nlink = (if k = KDir then 2 else 1), i_entries = Map.empty, i_data = []\<rparr>"
    by (simp add: iw)
  show "vfs_le v w"
    using fresh free by (auto simp: vfs_le_def inode_le_def iw d map_le_def)
  have root: "\<exists>r. inodes v ROOT_INO = Some r \<and> i_kind r = KDir \<and> i_nlink r > 0"
    and kids: "\<And>n i nm x. inodes v n = Some i \<Longrightarrow> i_entries i nm = Some x \<Longrightarrow> \<exists>j. inodes v x = Some j \<and> i_nlink j > 0"
    using wf by (auto simp: vfs_wf_def)
  have keep: "\<exists>j. inodes w x = Some j \<and> i_nlink j > 0" if "\<exists>j. inodes v x = Some j \<and> i_nlink j > 0" for x
    using that fresh d by (auto simp: iw)
  have fc: "\<exists>j. inodes w c = Some j \<and> i_nlink j > 0" by (simp add: iw)
  have kids': "\<exists>j. inodes w x = Some j \<and> i_nlink j > 0"
    if "inodes w n = Some i" "i_entries i nm = Some x" for n i nm x
  proof (cases "n = d")
    case True
    with that dc have "i = p\<lparr>i_entries := (i_entries p)(name \<mapsto> c)\<rparr>" by (simp add: iw)
    with that keep[OF kids[OF d]] fc show ?thesis by (cases "nm = name") simp_all
  next
    case False
    with that have "inodes v n = Some i" by (cases "n = c") (auto simp: iw)
    with that(2) show ?thesis by (intro keep) (rule kids)
  qed
  have "\<exists>r. inodes w ROOT_INO = Some r \<and> i_kind r = KDir \<and> i_nlink r > 0"
    using root fresh d by (auto simp: iw)
  moreover have "\<And>n i. inodes w n = Some i \<Longrightarrow> n < next_ino w"
    using lt d nw c by (fastforce simp: iw split: if_splits intro: less_SucI)
  ultimately show "vfs_wf w" using kids' unfolding vfs_wf_def by blast
qed


section \<open>Making the directory\<close>

lemma dentry_healthyI: "inodes v d = Some i \<Longrightarrow> i_nlink i > 0 \<Longrightarrow> i_kind i = KDir \<Longrightarrow> dentry_healthy v d"
  by (simp add: dentry_healthy_def)

lemma dentry_healthyE:
  assumes "dentry_healthy v d"
  obtains i where "inodes v d = Some i" "i_nlink i > 0" "i_kind i = KDir"
  using assms by (auto simp: dentry_healthy_def split: option.splits)

lemma vfs_le_healthy: "vfs_le v w \<Longrightarrow> dentry_healthy v d \<Longrightarrow> dentry_healthy w d"
  unfolding vfs_le_def inode_le_def dentry_healthy_def by (fastforce split: option.splits)

lemma vfs_le_entry: "vfs_le v w \<Longrightarrow> dir_entry v d name = Some c \<Longrightarrow> dir_entry w d name = Some c"
proof -
  assume le: "vfs_le v w" and e: "dir_entry v d name = Some c"
  from e obtain i where i: "inodes v d = Some i" "i_entries i name = Some c"
    by (auto simp: dir_entry_def split: option.splits)
  with le obtain j where "inodes w d = Some j" "i_entries i \<subseteq>\<^sub>m i_entries j"
    by (auto simp: vfs_le_def inode_le_def)
  with i show ?thesis by (auto simp: dir_entry_def map_le_def dom_def)
qed

lemma vfs_le_data:
  "vfs_le v w \<Longrightarrow> inodes v c = Some i \<Longrightarrow> \<exists>j. inodes w c = Some j \<and> i_data j = i_data i \<and> i_kind j = i_kind i"
  unfolding vfs_le_def inode_le_def by blast

lemma wf_entry: "vfs_wf v \<Longrightarrow> dir_entry v d name = Some c \<Longrightarrow> \<exists>j. inodes v c = Some j \<and> i_nlink j > 0"
  unfolding vfs_wf_def dir_entry_def by (auto split: option.splits)

lemma views_cong: "inodes w = inodes v \<Longrightarrow> dir_entry w = dir_entry v"
  "inodes w = inodes v \<Longrightarrow> d_kind w = d_kind v"
  by (simp_all add: dir_entry_def d_kind_def fun_eq_iff)

lemma wf_root: "vfs_wf v \<Longrightarrow> dentry_healthy v ROOT_INO"
  unfolding vfs_wf_def dentry_healthy_def by auto

text \<open>An existing name that is not a directory.\<close>

definition obstacle :: "vfs \<Rightarrow> nat \<Rightarrow> string \<Rightarrow> bool" where
  "obstacle v d name = (case dir_entry v d name of None \<Rightarrow> False | Some c \<Rightarrow> d_kind v c \<noteq> Some KDir)"

lemma mkdir_may_exist_Some:
  assumes wf: "vfs_wf v" and d: "dentry_healthy v d"
    and res: "mkdir_may_exist env name d v = (Some c, w)"
  shows "vfs_wf w" "vfs_le v w" "dentry_healthy w c" "dir_entry w d name = Some c"
    "dentry_refs w = (dentry_refs v)(c := dentry_refs v c + 1)" "mnt_refs w = mnt_refs v"
    "(dir_entry v d name = Some c \<and> inodes w = inodes v) \<or> (dir_entry v d name = None \<and> (\<forall>n. dir_entry w c n = None))"
proof -
  obtain p where p: "inodes v d = Some p" using d by (rule dentry_healthyE)
  have "vfs_wf w \<and> vfs_le v w \<and> dentry_healthy w c \<and> dir_entry w d name = Some c \<and>
      dentry_refs w = (dentry_refs v)(c := dentry_refs v c + 1) \<and> mnt_refs w = mnt_refs v \<and>
      ((dir_entry v d name = Some c \<and> inodes w = inodes v) \<or> (dir_entry v d name = None \<and> (\<forall>n. dir_entry w c n = None)))"
  proof (cases "dir_entry v d name")
    case None
    then have free: "i_entries p name = None" by (simp add: dir_entry_def p)
    obtain w0 where new: "new_inode KDir v d name = (c, w0)" and w: "w = dget c w0"
      using res None by (auto simp: mkdir_may_exist_def vfs_path_lookup_def mkdir_via_name_by_dent_def
          split: if_splits prod.splits)
    note n = new_inode_spec[OF wf p free new]
    have "dentry_healthy w0 c" "\<forall>nm. dir_entry w0 c nm = None"
      using n(5) by (simp_all add: dentry_healthy_def dir_entry_def)
    with n None show ?thesis by (simp add: w refs_dentry)
  next
    case (Some c')
    with res have "c' = c" "w = path_put c (dget c (path_get c v))" "d_kind v c = Some KDir"
      by (auto simp: mkdir_may_exist_def vfs_path_lookup_def Let_def split: if_splits)
    with Some wf wf_entry[OF wf Some] show ?thesis
      by (auto simp: refs_dentry d_kind_def dentry_healthy_def)
  qed
  then show "vfs_wf w" "vfs_le v w" "dentry_healthy w c" "dir_entry w d name = Some c"
    "dentry_refs w = (dentry_refs v)(c := dentry_refs v c + 1)" "mnt_refs w = mnt_refs v"
    "(dir_entry v d name = Some c \<and> inodes w = inodes v) \<or> (dir_entry v d name = None \<and> (\<forall>n. dir_entry w c n = None))"
    by blast+
qed

lemma mkdir_may_exist_None:
  assumes res: "mkdir_may_exist env name d v = (None, w)"
  shows "inodes w = inodes v" "next_ino w = next_ino v" "mnt_refs w = mnt_refs v"
    "dentry_refs w = (case dir_entry v d name of None \<Rightarrow> dentry_refs v
       | Some c \<Rightarrow> (dentry_refs v)(c := dentry_refs v c + 1))"
    "dir_entry v d name = None \<or> obstacle v d name"
  using res
  by (auto simp: mkdir_may_exist_def vfs_path_lookup_def Let_def mkdir_via_name_by_dent_def obstacle_def
      refs_dentry split: option.splits if_splits prod.splits)

text \<open>No call fails.\<close>

definition snapdir_env_ok :: "snapdir_env \<Rightarrow> bool" where
  "snapdir_env_ok env \<longleftrightarrow> kern_path_err env = 0 \<and> (\<forall>n. want_write_err env n = 0) \<and>
     (\<forall>n. new_dentry_err env n = 0) \<and> (\<forall>n. vfs_mkdir_err env n = 0) \<and> vfs_create_err env = 0 \<and>
     dentry_open_err env = 0 \<and> kmalloc_path_ok env \<and> kmalloc_name_ok env"

lemma mkdir_may_exist_ok:
  assumes "snapdir_env_ok env" "\<not> obstacle v d name"
  obtains c w where "mkdir_may_exist env name d v = (Some c, w)"
proof -
  have "fst (mkdir_may_exist env name d v) \<noteq> None"
    using assms by (auto simp: mkdir_may_exist_def vfs_path_lookup_def Let_def mkdir_via_name_by_dent_def
        obstacle_def snapdir_env_ok_def split: option.splits if_splits prod.splits)
  then show ?thesis using that by (cases "mkdir_may_exist env name d v") auto
qed


section \<open>The directory of an epoch\<close>

definition snapdir_of :: "vfs \<Rightarrow> string \<Rightarrow> nat option" where
  "snapdir_of v sub = (case dir_entry v ROOT_INO ''snapshot'' of None \<Rightarrow> None
     | Some s \<Rightarrow> dir_entry v s sub)"

definition snapdir_obstacle :: "vfs \<Rightarrow> string \<Rightarrow> bool" where
  "snapdir_obstacle v sub \<longleftrightarrow> obstacle v ROOT_INO ''snapshot'' \<or>
     (\<exists>s. dir_entry v ROOT_INO ''snapshot'' = Some s \<and> obstacle v s sub)"

lemma obstacle_refs [simp]:
  "obstacle (path_get d v) = obstacle v" "snapdir_of (path_get d v) = snapdir_of v"
  "snapdir_of (path_put d v) = snapdir_of v" "snapdir_of (dput d v) = snapdir_of v"
  by (simp_all add: obstacle_def snapdir_of_def fun_eq_iff split: option.split)

lemma snapdir_obstacle_path_put: "snapdir_obstacle (path_put d v) = snapdir_obstacle v"
  by (simp add: snapdir_obstacle_def obstacle_def fun_eq_iff split: option.split)

text \<open>The first object on the path of \<open>/snapshot/<device><date>\<close> that is not a directory.\<close>

definition first_obstacle :: "vfs \<Rightarrow> string \<Rightarrow> nat option" where
  "first_obstacle v sub =
     (case dir_entry v ROOT_INO ''snapshot'' of
        None \<Rightarrow> None
      | Some s \<Rightarrow>
          if d_kind v s \<noteq> Some KDir then Some s
          else (case dir_entry v s sub of
              None \<Rightarrow> None
            | Some c \<Rightarrow> if d_kind v c \<noteq> Some KDir then Some c else None))"

text \<open>The references the epoch's pointer accounts for.\<close>

definition owned :: "nat option \<Rightarrow> nat \<Rightarrow> int" where
  "owned p x = (if p = Some x then 1 else 0)"

lemma owned_point [simp]: "owned None x = 0" "owned (Some d) x = (if d = x then 1 else 0)"
  by (simp_all add: owned_def)

lemma first_obstacle_refs [simp]: "first_obstacle (path_put d v) = first_obstacle v"
  by (simp add: first_obstacle_def fun_eq_iff split: option.split)

lemma mkdir_may_exist_None_obstacle:
  assumes "mkdir_may_exist env name d v = (None, w)"
  shows "dentry_refs w x = dentry_refs v x + owned (dir_entry v d name) x"
    "\<forall>c. dir_entry v d name = Some c \<longrightarrow> d_kind v c \<noteq> Some KDir"
  using mkdir_may_exist_None(4,5)[OF assms] by (auto simp: obstacle_def split: option.splits)

lemma init_path_snapdir_True:
  assumes wf: "vfs_wf v" and res: "init_path_snapdir env sub v = (True, p, w)"
  obtains d where "p = Some d" "vfs_wf w" "vfs_le v w" "dentry_healthy w d" "snapdir_of w sub = Some d"
    "dentry_refs w = (dentry_refs v)(d := dentry_refs v d + 1)" "mnt_refs w = mnt_refs v + 1"
    "(snapdir_of v sub = Some d \<and> inodes w = inodes v) \<or>
     (snapdir_of v sub = None \<and> (\<forall>n. dir_entry w d n = None))"
    "first_obstacle v sub = None"
proof -
  let ?v1 = "path_get ROOT_INO v"
  obtain s v2 where m1: "mkdir_may_exist env ''snapshot'' ROOT_INO ?v1 = (Some s, v2)"
    using res by (auto simp: init_path_snapdir_def Let_def split: if_splits prod.splits option.splits)
  have "vfs_wf ?v1" "dentry_healthy ?v1 ROOT_INO" using wf wf_root by auto
  note a = mkdir_may_exist_Some[OF this m1]
  obtain d v3 where m2: "mkdir_may_exist env sub s v2 = (Some d, v3)"
    using res m1 by (auto simp: init_path_snapdir_def Let_def split: if_splits prod.splits option.splits)
  note b = mkdir_may_exist_Some[OF a(1) a(3) m2]
  have p: "p = Some d" and w: "w = path_put ROOT_INO (dput d (path_get d (dput s v3)))"
    using res m1 m2 by (auto simp: init_path_snapdir_def Let_def path_snapdir_get_def split: if_splits)
  have "(snapdir_of v sub = Some d \<and> inodes v3 = inodes v) \<or>
      (snapdir_of v sub = None \<and> (\<forall>n. dir_entry v3 d n = None))"
    using a(7) b(7) views_cong(1)[of v2 ?v1] by (auto simp: snapdir_of_def)
  moreover have "snapdir_of v3 sub = Some d"
    using vfs_le_entry[OF b(2) a(4)] b(4) by (simp add: snapdir_of_def)
  moreover have "first_obstacle v sub = None"
  proof -
    have dir: "d_kind v2 s = Some KDir" "d_kind v3 d = Some KDir"
      using a(3) b(3) by (auto simp: dentry_healthy_def d_kind_def split: option.splits)
    show ?thesis using a(7) b(7) dir views_cong[of v2 ?v1] views_cong[of v3 v2]
      by (auto simp: first_obstacle_def)
  qed
  ultimately show ?thesis
    using that[of d] p a b vfs_le_trans[of v v2 v3] by (simp add: w refs_dentry fun_eq_iff)
qed

lemma init_path_snapdir_False:
  assumes wf: "vfs_wf v" and res: "init_path_snapdir env sub v = (False, p, w)"
  shows "p = None" "mnt_refs w = mnt_refs v"
    "dentry_refs w x = dentry_refs v x + owned (if kern_path_err env = 0 then first_obstacle v sub else None) x"
    "snapdir_env_ok env \<Longrightarrow> snapdir_obstacle v sub"
proof -
  let ?v1 = "path_get ROOT_INO v"
  have v1: "vfs_wf ?v1" "dentry_healthy ?v1 ROOT_INO" using wf wf_root by auto
  let ?refs = "\<lambda>o'. dentry_refs w x = dentry_refs v x + owned (if kern_path_err env = 0 then o' else None) x"
  have "p = None \<and> mnt_refs w = mnt_refs v \<and> ?refs (first_obstacle v sub) \<and>
      (snapdir_env_ok env \<longrightarrow> snapdir_obstacle v sub)"
  proof (cases "kern_path_err env \<noteq> 0")
    case True
    with res show ?thesis by (simp add: init_path_snapdir_def snapdir_env_ok_def)
  next
    case kern: False
    show ?thesis
    proof (cases "mkdir_may_exist env ''snapshot'' ROOT_INO ?v1")
      case (Pair r v2)
      show ?thesis
      proof (cases r)
        case None
        note m = mkdir_may_exist_None[OF Pair[unfolded None]] mkdir_may_exist_None_obstacle[OF Pair[unfolded None]]
        have "first_obstacle v sub = dir_entry v ROOT_INO ''snapshot''"
          using m(7) by (auto simp: first_obstacle_def split: option.split)
        moreover have "snapdir_env_ok env \<Longrightarrow> obstacle v ROOT_INO ''snapshot''"
          using Pair None mkdir_may_exist_ok[of env ?v1 ROOT_INO "''snapshot''"] by fastforce
        ultimately show ?thesis using m(3,6) res kern Pair None
          by (auto simp: init_path_snapdir_def Let_def refs_dentry snapdir_obstacle_def)
      next
        case (Some s)
        note a = mkdir_may_exist_Some[OF v1 Pair[unfolded Some]]
        have dirs: "d_kind v2 s = Some KDir" using a(3) by (auto simp: dentry_healthy_def d_kind_def split: option.splits)
        have ob: "obstacle v2 s sub \<Longrightarrow> snapdir_obstacle v sub"
          using a(7) views_cong[of v2 ?v1] by (auto simp: obstacle_def snapdir_obstacle_def split: option.splits)
        show ?thesis
        proof (cases "mkdir_may_exist env sub s v2")
          case (Pair r3 v3)
          show ?thesis
          proof (cases r3)
            case None
            note m = mkdir_may_exist_None[OF Pair[unfolded None]] mkdir_may_exist_None_obstacle[OF Pair[unfolded None]]
            have "snapdir_env_ok env \<Longrightarrow> obstacle v2 s sub"
              using Pair None mkdir_may_exist_ok[of env v2 s sub] by fastforce
            moreover have "first_obstacle v sub = dir_entry v2 s sub"
              using m(7) a(7) views_cong[of v2 ?v1] dirs by (auto simp: first_obstacle_def split: option.split)
            moreover have "p = None" "w = path_put ROOT_INO (dput s v3)"
              using res kern Pair None Some \<open>mkdir_may_exist env ''snapshot'' ROOT_INO ?v1 = (r, v2)\<close>
              by (simp_all add: init_path_snapdir_def Let_def)
            ultimately show ?thesis using m(3,6) a(5,6) ob kern by (auto simp: refs_dentry)
          next
            case (Some d)
            note b = mkdir_may_exist_Some[OF a(1) a(3) Pair[unfolded Some]]
            have "p = None" "\<not> kmalloc_path_ok env" and w: "w = path_put ROOT_INO (dput d (dput s v3))"
              using res kern Pair Some \<open>r = Some s\<close> \<open>mkdir_may_exist env ''snapshot'' ROOT_INO ?v1 = (r, v2)\<close>
              by (auto simp: init_path_snapdir_def Let_def path_snapdir_get_def split: if_splits)
            moreover have "dentry_refs w = dentry_refs v"
              by (simp add: w refs_dentry a(5) b(5) fun_eq_iff)
            moreover have "first_obstacle v sub = None"
            proof -
              have "d_kind v3 d = Some KDir" using b(3) by (auto simp: dentry_healthy_def d_kind_def split: option.splits)
              with a(7) b(7) dirs show ?thesis using views_cong[of v2 ?v1] views_cong[of v3 v2] by (auto simp: first_obstacle_def)
            qed
            ultimately show ?thesis by (simp add: a(6) b(6) snapdir_env_ok_def)
          qed
        qed
      qed
    qed
  qed
  then show "p = None" "mnt_refs w = mnt_refs v" "?refs (first_obstacle v sub)"
    "snapdir_env_ok env \<Longrightarrow> snapdir_obstacle v sub" by blast+
qed

lemma init_path_snapdir_ok:
  assumes "vfs_wf v" "snapdir_env_ok env" "\<not> snapdir_obstacle v sub"
  obtains p w where "init_path_snapdir env sub v = (True, p, w)"
proof -
  obtain ok p w where r: "init_path_snapdir env sub v = (ok, p, w)" by (rule prod_cases3)
  have ok
  proof (rule ccontr)
    assume "\<not> ok"
    with r have "init_path_snapdir env sub v = (False, p, w)" by simp
    from init_path_snapdir_False(4)[OF assms(1) this] assms(2,3) show False by simp
  qed
  with r that show ?thesis by simp
qed

section \<open>The snapblocks file of a directory\<close>

definition saved_bytes :: "vfs \<Rightarrow> nat \<Rightarrow> bytes" where
  "saved_bytes v d = (case dir_entry v d ''snapblocks'' of None \<Rightarrow> []
     | Some c \<Rightarrow> (case inodes v c of None \<Rightarrow> [] | Some i \<Rightarrow> i_data i))"

definition file_obstacle :: "vfs \<Rightarrow> nat \<Rightarrow> bool" where
  "file_obstacle v d = (case dir_entry v d ''snapblocks'' of None \<Rightarrow> False
     | Some c \<Rightarrow> d_kind v c \<noteq> Some KReg)"

lemma saved_bytes_refs [simp]:
  "saved_bytes (path_get x v) = saved_bytes v" "saved_bytes (path_put x v) = saved_bytes v"
  "saved_bytes (dput x v) = saved_bytes v" "saved_bytes (dget x v) = saved_bytes v"
  by (simp_all add: saved_bytes_def fun_eq_iff split: option.split)

lemma ensure_snapblocks_file_opens:
  assumes wf: "vfs_wf v" and d: "dentry_healthy v d" and env: "snapdir_env_ok env"
    and ob: "\<not> file_obstacle v d"
  obtains f i w where "ensure_snapblocks_file_ok env d v = (True, FPtr f, w)"
    "inodes w f = Some i" "i_kind i = KReg" "i_data i = saved_bytes v d" "i_nlink i > 0"
    "dir_entry w d ''snapblocks'' = Some f" "vfs_wf w" "vfs_le v w"
    "dentry_refs w = (dentry_refs v)(f := dentry_refs v f + 1)" "mnt_refs w = mnt_refs v + 1"
proof (cases "dir_entry v d ''snapblocks''")
  case (Some f)
  obtain i where i: "inodes v f = Some i" "i_nlink i > 0" using wf_entry[OF wf Some] by blast
  have "i_kind i = KReg" using ob Some i by (simp add: file_obstacle_def d_kind_def)
  moreover have "ensure_snapblocks_file_ok env d v = (True, FPtr f, path_put f (path_get f (path_get f v)))"
    using Some calculation i env
    by (simp add: ensure_snapblocks_file_ok_def vfs_path_lookup_def dentry_open_def snapdir_env_ok_def
        d_kind_def Let_def)
  ultimately show ?thesis
    using that[of f "path_put f (path_get f (path_get f v))" i] Some i wf
    by (simp add: saved_bytes_def refs_dentry fun_eq_iff)
next
  case None
  obtain p where p: "inodes v d = Some p" using d by (rule dentry_healthyE)
  have free: "i_entries p ''snapblocks'' = None" using None p by (simp add: dir_entry_def)
  obtain f w0 where new: "new_inode KReg v d ''snapblocks'' = (f, w0)" by (cases "new_inode KReg v d ''snapblocks''")
  note n = new_inode_spec[OF wf p free new]
  have "ensure_snapblocks_file_ok env d v = (True, FPtr f, dput f (path_get f (dget f w0)))"
    using None env new
    by (simp add: ensure_snapblocks_file_ok_def vfs_path_lookup_def create_snapblocks_file_def
        dentry_open_def snapdir_env_ok_def Let_def)
  then show ?thesis
    using that[of f "dput f (path_get f (dget f w0))"] n None
    by (simp add: saved_bytes_def refs_dentry fun_eq_iff)
qed

section \<open>Properties\<close>

lemma ensure_path_snapdir_ok_result:
  assumes "vfs_wf v" "ensure_path_snapdir_ok env p dev date v = (True, q, w)"
  shows "\<exists>d. q = Some d \<and> dentry_healthy w d \<and> vfs_wf w \<and> vfs_le v w \<and>
    (case p of Some d0 \<Rightarrow> if dentry_healthy v d0 then q = p \<and> w = v
         else snapdir_of w (subdir_name dev date) = Some d
     | None \<Rightarrow> snapdir_of w (subdir_name dev date) = Some d)"
proof (cases "\<exists>d0. p = Some d0 \<and> dentry_healthy v d0")
  case True
  with assms show ?thesis by auto
next
  case False
  then obtain v' where i: "init_path_snapdir env (subdir_name dev date) v' = (True, q, w)"
    and v': "vfs_wf v' = vfs_wf v" "\<And>w. vfs_le v' w = vfs_le v w"
    using assms(2) by (cases p) (auto split: if_splits)
  from assms(1) v' have "vfs_wf v'" by simp
  obtain d where "q = Some d" "dentry_healthy w d" "vfs_wf w" "vfs_le v' w"
    "snapdir_of w (subdir_name dev date) = Some d"
    by (rule init_path_snapdir_True[OF \<open>vfs_wf v'\<close> i])
  with False v' show ?thesis by (auto split: option.splits)
qed

text \<open>C20: when \<open>ensure_path_snapdir_ok\<close> returns true, the epoch's pointer designates a live
  directory; a healthy pointer is left alone and nothing else changes, any other pointer is
  replaced by \<open>/snapshot/<device><date>\<close>, and no existing inode is lost or altered beyond new
  directory entries.\<close>

theorem ensure_path_snapdir_ok_correct:
  assumes "vfs_wf v" "ensure_path_snapdir_ok env p dev date v = (True, q, w)"
  shows "\<exists>d. q = Some d \<and> dentry_healthy w d \<and> vfs_wf w \<and> vfs_le v w \<and>
    (case p of Some d0 \<Rightarrow> if dentry_healthy v d0 then q = p \<and> w = v
         else snapdir_of w (subdir_name dev date) = Some d
     | None \<Rightarrow> snapdir_of w (subdir_name dev date) = Some d)"
  using assms by (rule ensure_path_snapdir_ok_result)

definition empty_vfs :: vfs where
  "empty_vfs = \<lparr>inodes = [0 \<mapsto> \<lparr>i_kind = KDir, i_nlink = 2, i_entries = Map.empty, i_data = []\<rparr>],
     next_ino = 1, dentry_refs = (\<lambda>_. 0), mnt_refs = 0\<rparr>"

definition quiet_env :: snapdir_env where
  "quiet_env = \<lparr>kern_path_err = 0, want_write_err = (\<lambda>_. 0), new_dentry_err = (\<lambda>_. 0),
     vfs_mkdir_err = (\<lambda>_. 0), vfs_create_err = 0, dentry_open_err = 0, kmalloc_path_ok = True,
     kmalloc_name_ok = True\<rparr>"

lemma empty_vfs_wf: "vfs_wf empty_vfs"
  by (auto simp: vfs_wf_def empty_vfs_def ROOT_INO_def)

lemma quiet_env_ok: "snapdir_env_ok quiet_env"
  by (simp add: snapdir_env_ok_def quiet_env_def)

lemma empty_vfs_no_obstacle: "\<not> snapdir_obstacle empty_vfs sub"
  by (simp add: snapdir_obstacle_def obstacle_def dir_entry_def empty_vfs_def ROOT_INO_def)

theorem ensure_path_snapdir_ok_correct_witness:
  "\<exists>d w. ensure_path_snapdir_ok quiet_env None ''/dev/sda1'' ''-2025-01-01_00:00:00'' empty_vfs
      = (True, Some d, w) \<and> snapdir_of w (subdir_name ''/dev/sda1'' ''-2025-01-01_00:00:00'') = Some d"
proof -
  obtain p w where i: "init_path_snapdir quiet_env (subdir_name ''/dev/sda1'' ''-2025-01-01_00:00:00'') empty_vfs
      = (True, p, w)"
    by (rule init_path_snapdir_ok[OF empty_vfs_wf quiet_env_ok empty_vfs_no_obstacle])
  then have e: "ensure_path_snapdir_ok quiet_env None ''/dev/sda1'' ''-2025-01-01_00:00:00'' empty_vfs = (True, p, w)"
    by (simp add: quiet_env_def)
  from ensure_path_snapdir_ok_correct[OF empty_vfs_wf e] e show ?thesis by auto
qed

text \<open>What a call pins for ever: when the path is built anew, the first object on it that is not a directory.\<close>

definition leaked :: "snapdir_env \<Rightarrow> nat option \<Rightarrow> string \<Rightarrow> vfs \<Rightarrow> nat option" where
  "leaked env p sub v =
     (if (case p of None \<Rightarrow> False | Some d \<Rightarrow> dentry_healthy v d) \<or> \<not> kmalloc_name_ok env \<or> kern_path_err env \<noteq> 0 then None
      else first_obstacle v sub)"

text \<open>C21: the reference counts after \<open>ensure_path_snapdir_ok\<close>, exactly, whatever succeeds or fails: apart from the
  reference that the epoch's pointer itself stands for, every dentry and the mount are as they were found, on
  every path but one: an object that is not a directory and blocks \<open>/snapshot/<device><date>\<close> keeps the reference
  that \<open>mkdir_may_exist\<close> took on it, and then the call fails.\<close>

theorem ensure_path_snapdir_ok_balanced:
  assumes "vfs_wf v" "ensure_path_snapdir_ok env p dev date v = (ok, q, w)"
  shows "dentry_refs w x - owned q x =
      dentry_refs v x - owned p x + owned (leaked env p (subdir_name dev date) v) x \<and>
    mnt_refs w - (if q = None then 0 else 1) = mnt_refs v - (if p = None then 0 else 1) \<and>
    (leaked env p (subdir_name dev date) v \<noteq> None \<longrightarrow> \<not> ok)"
proof -
  let ?sub = "subdir_name dev date"
  let ?bal = "\<lambda>v p w q l. dentry_refs w x - owned q x = dentry_refs v x - owned p x + owned l x \<and>
    mnt_refs w - (if q = None then 0 else 1) = mnt_refs v - (if p = None then (0::int) else 1) \<and> (l \<noteq> None \<longrightarrow> \<not> ok)"
  have none: "?bal u None w q (leaked env None ?sub u)"
    if that: "ensure_path_snapdir_ok env None dev date u = (ok, q, w)" "vfs_wf u" for u
  proof (cases "kmalloc_name_ok env")
    case name: True
    with that have i: "init_path_snapdir env ?sub u = (ok, q, w)" by simp
    show ?thesis
    proof (cases ok)
      case True
      with i have r: "init_path_snapdir env ?sub u = (True, q, w)" by simp
      obtain d where "q = Some d" "dentry_refs w = (dentry_refs u)(d := dentry_refs u d + 1)"
        "mnt_refs w = mnt_refs u + 1" "first_obstacle u ?sub = None"
        by (rule init_path_snapdir_True[OF \<open>vfs_wf u\<close> r])
      then show ?thesis by (simp add: leaked_def)
    next
      case False
      with i have "init_path_snapdir env ?sub u = (False, q, w)" by simp
      from init_path_snapdir_False(1-3)[OF that(2) this] False name show ?thesis by (simp add: leaked_def)
    qed
  qed (use that in \<open>simp add: leaked_def\<close>)
  show ?thesis
  proof (cases p)
    case (Some d)
    show ?thesis
    proof (cases "dentry_healthy v d")
      case False
      with assms Some have e: "ensure_path_snapdir_ok env None dev date (path_put d v) = (ok, q, w)" by simp
      have "?bal (path_put d v) None w q (leaked env None ?sub (path_put d v))"
        using assms by (intro none[OF e]) simp
      moreover have "leaked env None ?sub (path_put d v) = leaked env p ?sub v"
        using Some False by (simp add: leaked_def)
      ultimately show ?thesis using Some by (auto simp: refs_dentry split: if_splits)
    qed (use assms Some in \<open>auto simp: leaked_def\<close>)
  next
    case None
    with none[OF _ assms(1)] assms(2) show ?thesis by simp
  qed
qed

definition blocked_vfs :: vfs where
  "blocked_vfs = empty_vfs\<lparr>inodes := [0 \<mapsto> \<lparr>i_kind = KDir, i_nlink = 2, i_entries = [''snapshot'' \<mapsto> 1], i_data = []\<rparr>,
     1 \<mapsto> \<lparr>i_kind = KReg, i_nlink = 1, i_entries = Map.empty, i_data = []\<rparr>], next_ino := 2\<rparr>"

theorem ensure_path_snapdir_ok_balanced_witness:
  "dentry_refs (snd (snd (ensure_path_snapdir_ok quiet_env None ''img'' ''-2025-01-01_00:00:00'' empty_vfs))) 0 -
     owned (fst (snd (ensure_path_snapdir_ok quiet_env None ''img'' ''-2025-01-01_00:00:00'' empty_vfs))) 0 = 0 \<and>
   dentry_refs (snd (snd (ensure_path_snapdir_ok quiet_env None ''img'' ''-2025-01-01_00:00:00'' blocked_vfs))) 1 -
     owned (fst (snd (ensure_path_snapdir_ok quiet_env None ''img'' ''-2025-01-01_00:00:00'' blocked_vfs))) 1 = 1"
proof -
  obtain ok q w where e: "ensure_path_snapdir_ok quiet_env None ''img'' ''-2025-01-01_00:00:00'' empty_vfs = (ok, q, w)"
    by (rule prod_cases3)
  obtain ok' q' w' where b: "ensure_path_snapdir_ok quiet_env None ''img'' ''-2025-01-01_00:00:00'' blocked_vfs = (ok', q', w')"
    by (rule prod_cases3)
  have wf: "vfs_wf blocked_vfs" by (auto simp: vfs_wf_def blocked_vfs_def empty_vfs_def ROOT_INO_def split: if_splits)
  have "first_obstacle empty_vfs sub = None" "first_obstacle blocked_vfs sub = Some 1" for sub
    by (simp_all add: first_obstacle_def blocked_vfs_def empty_vfs_def dir_entry_def d_kind_def ROOT_INO_def)
  then show ?thesis
    using ensure_path_snapdir_ok_balanced[OF empty_vfs_wf e, of 0] ensure_path_snapdir_ok_balanced[OF wf b, of 1] e b
    by (simp add: leaked_def quiet_env_def) (simp add: blocked_vfs_def empty_vfs_def)
qed

text \<open>where the path is blocked by an object that is not a directory, \<open>mkdir_may_exist\<close>
  returns NULL but keeps the reference it took with \<open>dget\<close>: the dentry is pinned for ever.\<close>

theorem mkdir_may_exist_leaks:
  assumes "dir_entry v d name = Some c" "d_kind v c \<noteq> Some KDir"
  shows "\<exists>w. mkdir_may_exist env name d v = (None, w) \<and> dentry_refs w c = dentry_refs v c + 1"
  using assms by (simp add: mkdir_may_exist_def vfs_path_lookup_def Let_def refs_dentry)

theorem mkdir_may_exist_leaks_witness:
  "\<exists>w. mkdir_may_exist quiet_env ''snapshot'' 0 blocked_vfs = (None, w) \<and> dentry_refs w 1 = 1"
  using mkdir_may_exist_leaks[of blocked_vfs 0 "''snapshot''" 1 quiet_env]
  by (simp add: blocked_vfs_def dir_entry_def d_kind_def empty_vfs_def)

lemma subdir_name_eq:
  assumes "length date \<le> MNT_FMT_DATE_LEN"
  shows "subdir_name dev date = kbasename dev @ date"
proof -
  have "length (kbasename dev) \<le> length dev"
    unfolding kbasename_def using length_takeWhile_le[of _ "rev dev"] by simp
  then have "length (kbasename dev @ date) \<le> length dev + MNT_FMT_DATE_LEN" using assms by simp
  then show ?thesis by (simp add: subdir_name_def Let_def del: take_append)
qed

text \<open>the buffer for the directory name is large enough: \<open>snprintf\<close> never truncates, the
  name is the device's base name followed by the mount date. Two devices with the same base name
  that are first mounted in the same second therefore share one snapshot directory.\<close>

theorem subdir_name_exact:
  assumes "length date \<le> MNT_FMT_DATE_LEN"
  shows "subdir_name dev date = kbasename dev @ date \<and>
    (subdir_name dev date = subdir_name dev' date \<longleftrightarrow> kbasename dev = kbasename dev')"
  using assms by (simp add: subdir_name_eq)

theorem subdir_name_exact_witness:
  "subdir_name ''/a/img'' ''-2025-01-01_00:00:00'' = subdir_name ''/b/img'' ''-2025-01-01_00:00:00''"
  using subdir_name_exact[of "''-2025-01-01_00:00:00''" "''/a/img''" "''/b/img''", THEN conjunct2]
  by (simp add: MNT_FMT_DATE_LEN_def kbasename_def)

text \<open>two error paths of \<open>ensure_snapblocks_file_ok\<close>: if the name is taken by something that
  is not a regular file the path reference of the lookup is leaked, and if \<open>dentry_open\<close> fails on the
  existing file the function still returns true and hands out an error pointer.\<close>

theorem ensure_snapblocks_file_ok_errors:
  assumes "dir_entry v d ''snapblocks'' = Some c"
  shows "(d_kind v c \<noteq> Some KReg \<longrightarrow> (\<exists>w. ensure_snapblocks_file_ok env d v = (False, FErr 0, w) \<and>
      dentry_refs w c = dentry_refs v c + 1 \<and> mnt_refs w = mnt_refs v + 1)) \<and>
    (d_kind v c = Some KReg \<longrightarrow> dentry_open_err env \<noteq> 0 \<longrightarrow>
      (\<exists>w. ensure_snapblocks_file_ok env d v = (True, FErr (dentry_open_err env), w)))"
  using assms by (simp add: ensure_snapblocks_file_ok_def vfs_path_lookup_def refs_dentry dentry_open_def Let_def)

definition file_vfs :: vfs where
  "file_vfs = empty_vfs\<lparr>inodes := [0 \<mapsto> \<lparr>i_kind = KDir, i_nlink = 2, i_entries = [''snapblocks'' \<mapsto> 1], i_data = []\<rparr>,
     1 \<mapsto> \<lparr>i_kind = KReg, i_nlink = 1, i_entries = Map.empty, i_data = []\<rparr>], next_ino := 2\<rparr>"

theorem ensure_snapblocks_file_ok_errors_witness:
  "\<exists>w. ensure_snapblocks_file_ok (quiet_env\<lparr>dentry_open_err := - ENOMEM\<rparr>) 0 file_vfs = (True, FErr (- ENOMEM), w)"
  using ensure_snapblocks_file_ok_errors[of file_vfs 0 1 "quiet_env\<lparr>dentry_open_err := - ENOMEM\<rparr>"]
  by (simp add: file_vfs_def dir_entry_def d_kind_def empty_vfs_def)

end
