(* ===== verification/Snapwork.thy ===== *)
theory Snapwork
  imports Lru Snapdir
begin

text \<open>
  The deferred snapshot work, \<open>make_snapshot\<close> of \<open>src/kernel/snapshot.c\<close>, on the epoch it was
  queued for (\<open>struct epoch\<close> and \<open>destroy_an_epoch\<close> of \<open>src/kernel/include/devices.h\<close>). One call
  of the model is one run of the work item on the device's ordered workqueue. The outcomes of the
  kernel calls it makes are the fields of \<open>ms_env\<close>; \<open>node_alloc\<close> gives the node \<open>kzalloc\<close> returns
  in the state of the cache, or NULL.
\<close>

section \<open>State\<close>

record epoch =
  n_currently_mounted :: s32
  first_mount_date :: string
  path_snapdir :: "nat option"
  cached_blocks :: "lru_ng option"

record make_snapshot_work =
  block_nr :: u64
  blocksize :: nat
  block :: bytes
  msw_original_dev_name :: string
  msw_first_mount_date :: string

record ms_env =
  list_lru_size :: nat
  numa_nodes :: nat
  lru_alloc_ok :: bool
  lru_init_ok :: bool
  node_alloc :: "lru_ng \<Rightarrow> (nat \<times> nat) option"
  sd_env :: snapdir_env
  read_fail :: "u64 \<Rightarrow> bool"
  write_res :: write_results

definition destroy_an_epoch :: "nat \<Rightarrow> epoch option \<Rightarrow> vfs \<Rightarrow> fault + vfs" where
  "destroy_an_epoch lsz epoch v =
     (case epoch of
        None \<Rightarrow> Inr v
      | Some e \<Rightarrow>
          let v1 = (case path_snapdir e of None \<Rightarrow> v | Some d \<Rightarrow> path_put d v) in
          (case cached_blocks e of
             None \<Rightarrow> Inr v1
           | Some l \<Rightarrow>
               (case lru_ng_cleanup_and_destroy lsz l of Inl f \<Rightarrow> Inl f | Inr _ \<Rightarrow> Inr v1)))"

section \<open>The work\<close>

definition ensure_cached_blocks_lru_ok :: "ms_env \<Rightarrow> lru_ng option \<Rightarrow> fault + bool \<times> lru_ng option" where
  "ensure_cached_blocks_lru_ok env lru =
     (case lru of
        None \<Rightarrow>
          (case lru_ng_alloc_and_init (list_lru_size env) (numa_nodes env) (lru_alloc_ok env) (lru_init_ok env) of
             Inl f \<Rightarrow> Inl f
           | Inr l \<Rightarrow> Inr (l \<noteq> None, l))
      | Some l \<Rightarrow> Inr (True, Some l))"

definition file_data :: "vfs \<Rightarrow> nat \<Rightarrow> bytes" where
  "file_data v f = (case inodes v f of None \<Rightarrow> [] | Some i \<Rightarrow> i_data i)"

definition set_file_data :: "nat \<Rightarrow> bytes \<Rightarrow> vfs \<Rightarrow> vfs" where
  "set_file_data f bs v =
     (case inodes v f of None \<Rightarrow> v | Some i \<Rightarrow> v\<lparr>inodes := (inodes v)(f \<mapsto> i\<lparr>i_data := bs\<rparr>)\<rparr>)"

text \<open>The part behind the two \<open>ensure\<close> functions, with the file open: note the condition
  \<open>write_snapblock(...) != 0\<close>, which is taken when the write succeeded.\<close>

definition snapshot_into_file ::
  "(u64 \<Rightarrow> nat) \<Rightarrow> ms_env \<Rightarrow> make_snapshot_work \<Rightarrow> nat \<Rightarrow> lru_ng \<Rightarrow> vfs \<Rightarrow> fault + lru_ng \<times> vfs" where
  "snapshot_into_file bkt env msw f lru v =
     (case file_lookup (read_fail env) (block_nr msw) (file_data v f) of
        None \<Rightarrow> Inl Hang
      | Some True \<Rightarrow>
          let lru2 = snd (lru_ng_add bkt (node_alloc env lru) lru (block_nr msw)) in
          Inr (lru2, fput f v)
      | Some False \<Rightarrow>
          let file_hdr = DEFINE_SNAPBLOCK_FILE_HDR (block_nr msw) (of_nat (blocksize msw));
              wargs = DEFINE_WRITE_SNAPBLOCK_ARGS file_hdr (block msw) (blocksize msw);
              (written, data) = write_snapblock (write_res env) (file_data v f) wargs;
              v1 = set_file_data f data v
          in if written then Inr (lru, fput f v1)
             else let lru2 = snd (lru_ng_add bkt (node_alloc env lru) lru (block_nr msw)) in
               Inr (lru2, fput f v1))"

definition make_snapshot ::
  "(u64 \<Rightarrow> nat) \<Rightarrow> ms_env \<Rightarrow> make_snapshot_work \<Rightarrow> epoch \<times> vfs \<Rightarrow> fault + epoch \<times> vfs" where
  "make_snapshot bkt env msw st =
     (let (ep, v) = st in
      case ensure_cached_blocks_lru_ok env (cached_blocks ep) of
        Inl f \<Rightarrow> Inl f
      | Inr (_, None) \<Rightarrow> Inr (ep\<lparr>cached_blocks := None\<rparr>, v)
      | Inr (_, Some lru) \<Rightarrow>
          let (hit, lru1) = lru_ng_lookup bkt lru (block_nr msw);
              ep1 = ep\<lparr>cached_blocks := Some lru1\<rparr>
          in if hit then Inr (ep1, v)
             else
               let (ok, p, v1) = ensure_path_snapdir_ok (sd_env env) (path_snapdir ep1)
                     (msw_original_dev_name msw) (msw_first_mount_date msw) v;
                   ep2 = ep1\<lparr>path_snapdir := p\<rparr>
               in if \<not> ok then Inr (ep2, v1)
                  else (case p of
                      None \<Rightarrow> Inl NullDeref
                    | Some d \<Rightarrow>
                        (case ensure_snapblocks_file_ok (sd_env env) d v1 of
                           (False, _, v2) \<Rightarrow> Inr (ep2, v2)
                         | (True, FErr _, v2) \<Rightarrow> Inl ErrPtrDeref
                         | (True, FPtr f, v2) \<Rightarrow>
                             (case snapshot_into_file bkt env msw f lru1 v2 of
                                Inl ft \<Rightarrow> Inl ft
                              | Inr (lru2, v3) \<Rightarrow> Inr (ep2\<lparr>cached_blocks := Some lru2\<rparr>, v3)))))"

text \<open>The ordered workqueue runs its items one after the other.\<close>

fun run_snapshots ::
  "(u64 \<Rightarrow> nat) \<Rightarrow> ms_env \<Rightarrow> make_snapshot_work list \<Rightarrow> epoch \<times> vfs \<Rightarrow> fault + epoch \<times> vfs" where
  "run_snapshots bkt env [] st = Inr st"
| "run_snapshots bkt env (w # ws) st =
     (case make_snapshot bkt env w st of Inl f \<Rightarrow> Inl f | Inr st' \<Rightarrow> run_snapshots bkt env ws st')"

section \<open>The state of an epoch\<close>

definition epoch_dir :: "string \<Rightarrow> epoch \<times> vfs \<Rightarrow> nat option" where
  "epoch_dir dev st = (case path_snapdir (fst st) of Some d \<Rightarrow> Some d
     | None \<Rightarrow> snapdir_of (snd st) (subdir_name dev (first_mount_date (fst st))))"

definition epoch_bytes :: "string \<Rightarrow> epoch \<times> vfs \<Rightarrow> bytes" where
  "epoch_bytes dev st = (case epoch_dir dev st of None \<Rightarrow> [] | Some d \<Rightarrow> saved_bytes (snd st) d)"

definition epoch_records :: "string \<Rightarrow> epoch \<times> vfs \<Rightarrow> (u64 \<times> bytes) list" where
  "epoch_records dev st = parse_records (epoch_bytes dev st)"

definition epoch_ok :: "(u64 \<Rightarrow> nat) \<Rightarrow> string \<Rightarrow> epoch \<times> vfs \<Rightarrow> bool" where
  "epoch_ok bkt dev st \<longleftrightarrow>
     vfs_wf (snd st) \<and>
     (case path_snapdir (fst st) of Some d \<Rightarrow> dentry_healthy (snd st) d
      | None \<Rightarrow> \<not> snapdir_obstacle (snd st) (subdir_name dev (first_mount_date (fst st)))) \<and>
     (case epoch_dir dev st of Some d \<Rightarrow> \<not> file_obstacle (snd st) d | None \<Rightarrow> True) \<and>
     snapfile_ok (epoch_bytes dev st) \<and>
     (case cached_blocks (fst st) of None \<Rightarrow> True
      | Some l \<Rightarrow> lru_inv bkt l \<and> set (lru_abs l) \<subseteq> fst ` set (epoch_records dev st))"

text \<open>No call of the worker fails, except that \<open>kzalloc\<close> of a cache node may.\<close>

definition ms_env_ok :: "ms_env \<Rightarrow> bool" where
  "ms_env_ok env \<longleftrightarrow> snapdir_env_ok (sd_env env) \<and> read_fail env = no_read_fail \<and>
     lru_alloc_ok env \<and> lru_init_ok env \<and> (\<forall>s. fresh_node s (node_alloc env s))"

definition work_for :: "string \<Rightarrow> string \<Rightarrow> make_snapshot_work \<Rightarrow> bool" where
  "work_for dev date w \<longleftrightarrow> msw_original_dev_name w = dev \<and> msw_first_mount_date w = date \<and>
     blocksize w = length (block w)"

lemma file_data_refs [simp]: "file_data (fput x v) f = file_data v f"
  by (simp add: file_data_def fput_def)

lemma set_file_data_facts:
  assumes "inodes v f = Some i"
  shows "file_data (set_file_data f bs v) f = bs"
    "dir_entry (set_file_data f bs v) = dir_entry v"
    "d_kind (set_file_data f bs v) = d_kind v"
    "dentry_healthy (set_file_data f bs v) = dentry_healthy v"
    "vfs_wf (set_file_data f bs v) = vfs_wf v"
    "file_obstacle (set_file_data f bs v) = file_obstacle v"
proof -
  let ?w = "set_file_data f bs v"
  have i: "inodes ?w = (inodes v)(f \<mapsto> i\<lparr>i_data := bs\<rparr>)" and n: "next_ino ?w = next_ino v"
    using assms by (simp_all add: set_file_data_def)
  show "file_data ?w f = bs" by (simp add: file_data_def i)
  show e: "dir_entry ?w = dir_entry v" and k: "d_kind ?w = d_kind v"
    and "dentry_healthy ?w = dentry_healthy v"
    using assms by (simp_all add: dir_entry_def d_kind_def dentry_healthy_def i fun_eq_iff)
  show "file_obstacle ?w = file_obstacle v" by (simp add: file_obstacle_def e k fun_eq_iff split: option.split)
  have link: "(\<exists>j. inodes ?w x = Some j \<and> P (i_kind j) (i_nlink j)) \<longleftrightarrow>
      (\<exists>j. inodes v x = Some j \<and> P (i_kind j) (i_nlink j))" for x P
    using assms by (simp add: i)
  have dom: "(\<exists>j. inodes ?w x = Some j) \<longleftrightarrow> (\<exists>j. inodes v x = Some j)" for x
    using assms by (simp add: i)
  have ent: "(\<forall>n i nm c. inodes u n = Some i \<longrightarrow> i_entries i nm = Some c \<longrightarrow> Q c) \<longleftrightarrow>
      (\<forall>n nm c. dir_entry u n nm = Some c \<longrightarrow> Q c)" for u Q
    by (auto simp: dir_entry_def split: option.splits)
  have wf: "vfs_wf u \<longleftrightarrow> (\<exists>r. inodes u ROOT_INO = Some r \<and> i_kind r = KDir \<and> i_nlink r > 0) \<and>
      (\<forall>n. (\<exists>i. inodes u n = Some i) \<longrightarrow> n < next_ino u) \<and>
      (\<forall>n nm c. dir_entry u n nm = Some c \<longrightarrow> (\<exists>j. inodes u c = Some j \<and> i_nlink j > 0))" for u
    unfolding vfs_wf_def ent by blast
  show "vfs_wf ?w = vfs_wf v"
    unfolding wf e n dom using link[of ROOT_INO "\<lambda>k n. k = KDir \<and> n > 0"] link[of _ "\<lambda>k n. n > 0"] by simp
qed

lemma saved_bytes_entry:
  "dir_entry v d ''snapblocks'' = Some f \<Longrightarrow> saved_bytes v d = file_data v f"
  by (simp add: saved_bytes_def file_data_def)

lemma fput_views [simp]:
  "dir_entry (fput f v) = dir_entry v" "dentry_healthy (fput f v) = dentry_healthy v"
  "vfs_wf (fput f v) = vfs_wf v" "file_obstacle (fput f v) = file_obstacle v"
  "saved_bytes (fput f v) = saved_bytes v"
  by (simp_all add: fput_def) (simp add: file_obstacle_def fun_eq_iff split: option.split)

lemma file_obstacleI: "dir_entry v d ''snapblocks'' = Some f \<Longrightarrow> inodes v f = Some i \<Longrightarrow> i_kind i = KReg \<Longrightarrow>
    \<not> file_obstacle v d"
  by (simp add: file_obstacle_def d_kind_def)

lemma epoch_ok_open:
  "epoch_ok bkt dev (ep\<lparr>path_snapdir := Some d, cached_blocks := Some l\<rparr>, v) \<longleftrightarrow>
     vfs_wf v \<and> dentry_healthy v d \<and> \<not> file_obstacle v d \<and> snapfile_ok (saved_bytes v d) \<and>
     lru_inv bkt l \<and> set (lru_abs l) \<subseteq> fst ` set (parse_records (saved_bytes v d))"
  by (simp add: epoch_ok_def epoch_dir_def epoch_bytes_def epoch_records_def)

text \<open>Reaching the open file leaves what is saved unchanged.\<close>

lemma reach_snapblocks:
  assumes ok: "epoch_ok bkt dev (ep, v)" and env: "snapdir_env_ok env"
  obtains d v1 f i w where
    "ensure_path_snapdir_ok env (path_snapdir ep) dev (first_mount_date ep) v = (True, Some d, v1)"
    "ensure_snapblocks_file_ok env d v1 = (True, FPtr f, w)"
    "vfs_wf w" "dentry_healthy w d" "dir_entry w d ''snapblocks'' = Some f"
    "inodes w f = Some i" "i_kind i = KReg" "file_data w f = epoch_bytes dev (ep, v)"
proof -
  obtain d v1 where e: "ensure_path_snapdir_ok env (path_snapdir ep) dev (first_mount_date ep) v = (True, Some d, v1)"
    and v1: "vfs_wf v1" "dentry_healthy v1 d" "\<not> file_obstacle v1 d" "saved_bytes v1 d = epoch_bytes dev (ep, v)"
  proof (cases "path_snapdir ep")
    case (Some d)
    with ok that[of d v] show ?thesis by (simp add: epoch_ok_def epoch_dir_def epoch_bytes_def)
  next
    case None
    let ?sub = "subdir_name dev (first_mount_date ep)"
    have wf: "vfs_wf v" and ob: "\<not> snapdir_obstacle v ?sub"
      using ok None by (simp_all add: epoch_ok_def)
    obtain p w where i: "init_path_snapdir env ?sub v = (True, p, w)"
      by (rule init_path_snapdir_ok[OF wf env ob])
    obtain d where d: "p = Some d" "vfs_wf w" "dentry_healthy w d"
      "(snapdir_of v ?sub = Some d \<and> inodes w = inodes v) \<or> (snapdir_of v ?sub = None \<and> (\<forall>n. dir_entry w d n = None))"
      by (rule init_path_snapdir_True[OF wf i]) blast
    have "\<not> file_obstacle w d \<and> saved_bytes w d = epoch_bytes dev (ep, v)"
      using d(4) ok None views_cong[of w v]
      by (auto simp: epoch_ok_def epoch_dir_def epoch_bytes_def file_obstacle_def saved_bytes_def
          split: option.splits)
    with that[of d w] d i None env show ?thesis by (simp add: snapdir_env_ok_def)
  qed
  obtain f i w where o: "ensure_snapblocks_file_ok env d v1 = (True, FPtr f, w)"
    "inodes w f = Some i" "i_kind i = KReg" "i_data i = saved_bytes v1 d"
    "dir_entry w d ''snapblocks'' = Some f" "vfs_wf w" "vfs_le v1 w"
    by (rule ensure_snapblocks_file_opens[OF v1(1,2) env v1(3)]) blast
  moreover have "file_data w f = epoch_bytes dev (ep, v)"
    using o v1(4) by (simp add: file_data_def)
  moreover have "dentry_healthy w d" using vfs_le_healthy[OF o(7) v1(2)] .
  ultimately show ?thesis using that e by blast
qed


section \<open>One run of the work\<close>

lemma snapshot_into_file_result:
  assumes lru: "lru_inv bkt l" "set (lru_abs l) \<subseteq> fst ` set (parse_records (file_data v f))"
    and miss: "block_nr w \<notin> set (lru_abs l)" and env: "ms_env_ok env" "full_write (write_res env) (block w)"
    and fl: "snapfile_ok (file_data v f)" "snapfile_room (file_data v f) (block w)"
    and size: "blocksize w = length (block w)" and i: "inodes v f = Some i" "i_kind i = KReg"
    and d: "vfs_wf v" "dentry_healthy v d" "dir_entry v d ''snapblocks'' = Some f"
  obtains l' v' where "snapshot_into_file bkt env w f l v = Inr (l', v')"
    "lru_inv bkt l'" "snapfile_ok (saved_bytes v' d)" "vfs_wf v'" "dentry_healthy v' d" "\<not> file_obstacle v' d"
    "parse_records (saved_bytes v' d) = log_add (block_nr w, block w) (parse_records (file_data v f))"
    "set (lru_abs l') \<subseteq> fst ` set (parse_records (saved_bytes v' d))"
    "block_nr w \<notin> fst ` set (parse_records (file_data v f)) \<longrightarrow> l' = l"
proof -
  let ?R = "parse_records (file_data v f)" and ?add = "lru_ng_add bkt (node_alloc env l) l (block_nr w)"
  have rf: "read_fail env = no_read_fail" and fresh: "fresh_node l (node_alloc env l)"
    using env by (auto simp: ms_env_ok_def)
  have ob: "\<not> file_obstacle v d" using d(3) i by (rule file_obstacleI)
  have find: "file_lookup (read_fail env) (block_nr w) (file_data v f) = Some (block_nr w \<in> fst ` set ?R)"
    unfolding rf by (rule snaplog.find_spec[OF fl(1)])
  show ?thesis
  proof (cases "block_nr w \<in> fst ` set ?R")
    case True
    have "snapshot_into_file bkt env w f l v = Inr (snd ?add, fput f v)"
      by (simp add: snapshot_into_file_def find True)
    moreover have "set (lru_abs (snd ?add)) \<subseteq> fst ` set ?R"
      using lru.add_within[OF lru(1) fresh miss lru(2) True] .
    ultimately show ?thesis
      using that[of "snd ?add" "fput f v"] lru.add_ok[OF lru(1) fresh miss] fl d ob True
      by (simp add: saved_bytes_entry[OF d(3)] log_add_def)
  next
    case False
    have wr: "write_raw (write_res env) (block_nr w) (block w) (file_data v f) =
        write_snapblock (write_res env) (file_data v f) (DEFINE_WRITE_SNAPBLOCK_ARGS
          (DEFINE_SNAPBLOCK_FILE_HDR (block_nr w) (of_nat (blocksize w))) (block w) (blocksize w))"
      by (simp add: write_raw_def size)
    obtain bs where bs: "write_raw (write_res env) (block_nr w) (block w) (file_data v f) = (True, bs)"
      using snaplog.append_true[OF fl(1) env(2)] by (metis prod.collapse)
    note ap = snaplog.append_ok[OF fl env(2), of "block_nr w"] snaplog.append_records[OF fl env(2), of "block_nr w"]
    note sf = set_file_data_facts[OF i(1), of bs]
    let ?v = "fput f (set_file_data f bs v)"
    have "snapshot_into_file bkt env w f l v = Inr (l, ?v)"
      using bs wr by (simp add: snapshot_into_file_def find False Let_def)
    moreover have sb: "saved_bytes ?v d = bs"
      using d(3) sf(1,2) by (simp add: saved_bytes_entry)
    ultimately show ?thesis
      using that[of l ?v] lru d ob ap bs sf False by (auto simp: log_add_def)
  qed
qed

text \<open>The blocks in the cache of an epoch.\<close>

definition cached :: "epoch \<Rightarrow> u64 list" where
  "cached ep = (case cached_blocks ep of None \<Rightarrow> [] | Some l \<Rightarrow> lru_abs l)"

lemma make_snapshot_hit:
  assumes ok: "epoch_ok bkt dev (ep, v)" and hit: "block_nr w \<in> set (cached ep)"
  obtains l where "lru_inv bkt l" "set (lru_abs l) = set (cached ep)"
    "make_snapshot bkt env w (ep, v) = Inr (ep\<lparr>cached_blocks := Some l\<rparr>, v)"
proof -
  obtain l where l: "cached_blocks ep = Some l" "lru_inv bkt l" "block_nr w \<in> set (lru_abs l)"
    using ok hit by (auto simp: epoch_ok_def cached_def split: option.splits)
  obtain l1 where lk: "lru_ng_lookup bkt l (block_nr w) = (True, l1)"
    using lru.lookup_hit[OF l(2), of "block_nr w"] l(3) by (cases "lru_ng_lookup bkt l (block_nr w)") auto
  have "lru_inv bkt l1" "set (lru_abs l1) = set (cached ep)"
    using lru.lookup_ok[OF l(2), of "block_nr w"] lru.lookup_contents[OF l(2), of "block_nr w"] lk l(1)
    by (simp_all add: cached_def)
  with that l(1) lk show ?thesis by (simp add: make_snapshot_def ensure_cached_blocks_lru_ok_def)
qed

lemma make_snapshot_miss:
  assumes ok: "epoch_ok bkt dev (ep, v)" and env: "ms_env_ok env"
    and w: "work_for dev (first_mount_date ep) w" and miss: "block_nr w \<notin> set (cached ep)"
  obtains l d f i v2 where
    "make_snapshot bkt env w (ep, v) = (case snapshot_into_file bkt env w f l v2 of Inl ft \<Rightarrow> Inl ft
       | Inr (l2, v3) \<Rightarrow> Inr (ep\<lparr>path_snapdir := Some d, cached_blocks := Some l2\<rparr>, v3))"
    "lru_inv bkt l" "lru_abs l = cached ep"
    "vfs_wf v2" "dentry_healthy v2 d" "dir_entry v2 d ''snapblocks'' = Some f"
    "inodes v2 f = Some i" "i_kind i = KReg" "file_data v2 f = epoch_bytes dev (ep, v)"
    "\<forall>l0. cached_blocks ep = Some l0 \<longrightarrow> l = l0"
proof -
  obtain l where l: "ensure_cached_blocks_lru_ok env (cached_blocks ep) = Inr (True, Some l)"
    "lru_inv bkt l" "lru_abs l = cached ep" "\<forall>l0. cached_blocks ep = Some l0 \<longrightarrow> l = l0"
  proof (cases "cached_blocks ep")
    case None
    let ?l = "snd (lru_ng_init (numa_nodes env) True)"
    have "ensure_cached_blocks_lru_ok env (cached_blocks ep) = Inr (True, Some ?l)"
      using env None by (simp add: ensure_cached_blocks_lru_ok_def lru_ng_alloc_and_init_def ms_env_ok_def
          lru_ng_init_def Let_def)
    then show ?thesis
      using that[of ?l] lru_inv_init[of bkt "numa_nodes env" True] lru_abs_init[of "numa_nodes env" True] None
      by (simp add: cached_def)
  next
    case (Some l)
    have "lru_inv bkt l" using ok Some by (simp add: epoch_ok_def)
    with Some show ?thesis by (intro that[of l]) (simp_all add: ensure_cached_blocks_lru_ok_def cached_def)
  qed
  have lk: "lru_ng_lookup bkt l (block_nr w) = (False, l)"
    using miss l(2,3) by (simp add: lru_ng_lookup_miss)
  have senv: "snapdir_env_ok (sd_env env)" using env by (simp add: ms_env_ok_def)
  obtain d v1 f i v2 where r:
    "ensure_path_snapdir_ok (sd_env env) (path_snapdir ep) dev (first_mount_date ep) v = (True, Some d, v1)"
    "ensure_snapblocks_file_ok (sd_env env) d v1 = (True, FPtr f, v2)"
    "vfs_wf v2" "dentry_healthy v2 d" "dir_entry v2 d ''snapblocks'' = Some f"
    "inodes v2 f = Some i" "i_kind i = KReg" "file_data v2 f = epoch_bytes dev (ep, v)"
    by (rule reach_snapblocks[OF ok senv])
  have ms: "make_snapshot bkt env w (ep, v) = (case snapshot_into_file bkt env w f l v2 of Inl ft \<Rightarrow> Inl ft
       | Inr (l2, v3) \<Rightarrow> Inr (ep\<lparr>path_snapdir := Some d, cached_blocks := Some l2\<rparr>, v3))"
    using w r(1,2) lk l(1) by (simp add: make_snapshot_def work_for_def split: sum.split)
  show ?thesis by (rule that[OF ms l(2,3) r(3-8) l(4)])
qed

lemma make_snapshot_step:
  assumes ok: "epoch_ok bkt dev (ep, v)" and env: "ms_env_ok env" "full_write (write_res env) (block w)"
    and w: "work_for dev (first_mount_date ep) w" and room: "snapfile_room (epoch_bytes dev (ep, v)) (block w)"
  obtains ep' v' where "make_snapshot bkt env w (ep, v) = Inr (ep', v')" "epoch_ok bkt dev (ep', v')"
    "epoch_records dev (ep', v') = log_add (block_nr w, block w) (epoch_records dev (ep, v))"
    "first_mount_date ep' = first_mount_date ep"
    "block_nr w \<notin> fst ` set (epoch_records dev (ep, v)) \<longrightarrow> block_nr w \<notin> set (cached ep')"
proof -
  let ?R = "epoch_records dev (ep, v)" and ?b = "block_nr w"
  have sub: "set (cached ep) \<subseteq> fst ` set ?R"
    using ok by (auto simp: epoch_ok_def cached_def split: option.splits)
  show ?thesis
  proof (cases "?b \<in> set (cached ep)")
    case True
    obtain l1 where l1: "lru_inv bkt l1" "set (lru_abs l1) = set (cached ep)"
      "make_snapshot bkt env w (ep, v) = Inr (ep\<lparr>cached_blocks := Some l1\<rparr>, v)"
      by (rule make_snapshot_hit[OF ok True])
    let ?ep = "ep\<lparr>cached_blocks := Some l1\<rparr>"
    have same: "epoch_bytes dev (?ep, v) = epoch_bytes dev (ep, v)" "epoch_dir dev (?ep, v) = epoch_dir dev (ep, v)"
      by (simp_all add: epoch_bytes_def epoch_dir_def split: option.split)
    have "epoch_ok bkt dev (?ep, v)"
      using ok l1(1,2) sub by (auto simp: epoch_ok_def same epoch_records_def split: option.splits)
    moreover have "log_add (?b, block w) ?R = ?R"
      using True sub by (auto simp: log_add_def)
    ultimately show ?thesis
      using that[of ?ep v] l1(3) True sub by (auto simp: epoch_records_def same)
  next
    case miss: False
    obtain l d f i v2 where r:
      "make_snapshot bkt env w (ep, v) = (case snapshot_into_file bkt env w f l v2 of Inl ft \<Rightarrow> Inl ft
         | Inr (l2, v3) \<Rightarrow> Inr (ep\<lparr>path_snapdir := Some d, cached_blocks := Some l2\<rparr>, v3))"
      "lru_inv bkt l" "lru_abs l = cached ep"
      "vfs_wf v2" "dentry_healthy v2 d" "dir_entry v2 d ''snapblocks'' = Some f"
      "inodes v2 f = Some i" "i_kind i = KReg" "file_data v2 f = epoch_bytes dev (ep, v)"
      by (rule make_snapshot_miss[OF ok env(1) w miss])
    have R: "?R = parse_records (file_data v2 f)" by (simp add: epoch_records_def r(9))
    have pre: "set (lru_abs l) \<subseteq> fst ` set (parse_records (file_data v2 f))" "?b \<notin> set (lru_abs l)"
      "snapfile_ok (file_data v2 f)" "snapfile_room (file_data v2 f) (block w)" "blocksize w = length (block w)"
      using sub room w ok miss by (simp_all add: r(3,9) epoch_records_def epoch_ok_def work_for_def)
    obtain l2 v3 where s: "snapshot_into_file bkt env w f l v2 = Inr (l2, v3)"
      "lru_inv bkt l2" "snapfile_ok (saved_bytes v3 d)" "vfs_wf v3" "dentry_healthy v3 d" "\<not> file_obstacle v3 d"
      "parse_records (saved_bytes v3 d) = log_add (?b, block w) ?R"
      "set (lru_abs l2) \<subseteq> fst ` set (parse_records (saved_bytes v3 d))" "?b \<notin> fst ` set ?R \<longrightarrow> l2 = l"
      unfolding R by (rule snapshot_into_file_result[OF r(2) pre(1,2) env pre(3-5) r(7,8,4,5,6)])
    let ?ep = "ep\<lparr>path_snapdir := Some d, cached_blocks := Some l2\<rparr>"
    have "make_snapshot bkt env w (ep, v) = Inr (?ep, v3)" using r(1) s(1) by simp
    moreover have "epoch_ok bkt dev (?ep, v3)" using s by (simp add: epoch_ok_open)
    moreover have "epoch_records dev (?ep, v3) = log_add (?b, block w) ?R"
      using s(7) by (simp add: epoch_records_def epoch_bytes_def epoch_dir_def)
    moreover have "?b \<notin> fst ` set ?R \<longrightarrow> ?b \<notin> set (cached ?ep)"
      using s(9) pre(2) by (simp add: cached_def)
    ultimately show ?thesis using that by simp
  qed
qed


section \<open>Properties\<close>

text \<open>when no kernel call fails, one run of \<open>make_snapshot\<close> saves its block unless a block with
  that number is already saved in the epoch: the file's records become \<open>log_add\<close> of the old ones,
  whether the cache, the file search or the write decided it, and the epoch stays well formed (live
  directory, parsable file, every cached number recorded).\<close>

theorem make_snapshot_first_wins:
  assumes "epoch_ok bkt dev (ep, v)" "ms_env_ok env" "full_write (write_res env) (block w)"
    "work_for dev (first_mount_date ep) w" "snapfile_room (epoch_bytes dev (ep, v)) (block w)"
  shows "\<exists>ep' v'. make_snapshot bkt env w (ep, v) = Inr (ep', v') \<and> epoch_ok bkt dev (ep', v') \<and>
    epoch_records dev (ep', v') = log_add (block_nr w, block w) (epoch_records dev (ep, v))"
  by (rule make_snapshot_step[OF assms]) blast

definition sample_date :: string where "sample_date = ''-2025-01-01_00:00:00''"

definition sample_epoch :: epoch where
  "sample_epoch = \<lparr>n_currently_mounted = 1, first_mount_date = sample_date, path_snapdir = None,
     cached_blocks = Some (snd (lru_ng_init 1 True))\<rparr>"

definition sample_env :: "write_results \<Rightarrow> ms_env" where
  "sample_env wr = \<lparr>list_lru_size = 64, numa_nodes = 1, lru_alloc_ok = True, lru_init_ok = True,
     node_alloc = (\<lambda>s. if fresh_node s (Some (1, 0)) then Some (1, 0) else None), sd_env = quiet_env,
     read_fail = no_read_fail, write_res = wr\<rparr>"

definition sample_work :: "u64 \<Rightarrow> bytes \<Rightarrow> make_snapshot_work" where
  "sample_work b d = \<lparr>block_nr = b, blocksize = length d, block = d,
     msw_original_dev_name = ''/dev/sda1'', msw_first_mount_date = sample_date\<rparr>"

lemma sample_env_ok: "ms_env_ok (sample_env wr)"
  by (simp add: ms_env_ok_def sample_env_def quiet_env_ok) (simp add: fresh_node_def)

lemma sample_work_for: "work_for ''/dev/sda1'' (first_mount_date sample_epoch) (sample_work b d)"
  by (simp add: work_for_def sample_work_def sample_epoch_def)

lemma sample_snapdir: "snapdir_of empty_vfs sub = None"
  by (simp add: snapdir_of_def dir_entry_def empty_vfs_def ROOT_INO_def)

lemma sample_epoch_bytes: "epoch_bytes ''/dev/sda1'' (sample_epoch, empty_vfs) = []"
  by (simp add: epoch_bytes_def epoch_dir_def sample_epoch_def sample_snapdir)

lemma parse_Nil [simp]: "parse_records [] = []"
  using parse_encode[of "[]"] by simp

lemma sample_epoch_ok: "epoch_ok bkt ''/dev/sda1'' (sample_epoch, empty_vfs)"
  using snapfile_ok_encode[of "[]"] lru_inv_init[of bkt 1 True] lru_abs_init[of 1 True]
  by (simp add: epoch_ok_def sample_epoch_bytes empty_vfs_wf)
    (simp add: epoch_dir_def sample_epoch_def sample_snapdir empty_vfs_no_obstacle)

lemma sample_epoch_records: "epoch_records ''/dev/sda1'' (sample_epoch, empty_vfs) = []"
  by (simp add: epoch_records_def sample_epoch_bytes)

theorem make_snapshot_first_wins_witness:
  "\<exists>ep' v'. make_snapshot (\<lambda>_. 0) (sample_env \<lparr>wr_hdr = 40, wr_ext = 0, wr_payld = 2\<rparr>)
      (sample_work 3 [1, 2]) (sample_epoch, empty_vfs) = Inr (ep', v') \<and>
    epoch_records ''/dev/sda1'' (ep', v') = [(3, [1, 2])]"
proof -
  have "full_write (write_res (sample_env \<lparr>wr_hdr = 40, wr_ext = 0, wr_payld = 2\<rparr>)) (block (sample_work 3 [1, 2]))"
    "snapfile_room (epoch_bytes ''/dev/sda1'' (sample_epoch, empty_vfs)) (block (sample_work 3 [1, 2]))"
    by (simp_all add: full_write_def sample_env_def sample_work_def snapfile_room_def sample_epoch_bytes)
  from make_snapshot_first_wins[OF sample_epoch_ok sample_env_ok this(1) sample_work_for this(2), of "\<lambda>_. 0"]
  show ?thesis by (auto simp: epoch_records_def sample_epoch_bytes log_add_def sample_work_def)
qed

definition queued :: "make_snapshot_work \<Rightarrow> u64 \<times> bytes" where
  "queued w = (block_nr w, block w)"

lemma log_add_bytes:
  "length (encode_records (log_add r L)) \<le> length (encode_records L) + sizeof_hdr + length (snd r)"
  by (cases r) (simp add: log_add_def length_encode_record)

lemma run_snapshots_log:
  assumes "epoch_ok bkt dev (ep, v)" "ms_env_ok env"
    "\<forall>w \<in> set ws. work_for dev (first_mount_date ep) w \<and> full_write (write_res env) (block w)"
    "length (epoch_bytes dev (ep, v)) + (\<Sum>w\<leftarrow>ws. sizeof_hdr + length (block w)) < 2 ^ 63"
  shows "\<exists>ep' v'. run_snapshots bkt env ws (ep, v) = Inr (ep', v') \<and> epoch_ok bkt dev (ep', v') \<and>
    epoch_records dev (ep', v') = fold log_add (map queued ws) (epoch_records dev (ep, v))"
  using assms
proof (induction ws arbitrary: ep v)
  case Nil
  then show ?case by simp
next
  case (Cons w ws)
  have w: "work_for dev (first_mount_date ep) w" "full_write (write_res env) (block w)"
    and room: "snapfile_room (epoch_bytes dev (ep, v)) (block w)"
    using Cons.prems by (simp_all add: snapfile_room_def)
  obtain ep1 v1 where s: "make_snapshot bkt env w (ep, v) = Inr (ep1, v1)" "epoch_ok bkt dev (ep1, v1)"
    "epoch_records dev (ep1, v1) = log_add (queued w) (epoch_records dev (ep, v))"
    "first_mount_date ep1 = first_mount_date ep"
    unfolding queued_def by (rule make_snapshot_step[OF Cons.prems(1,2) w(2,1) room])
  have enc: "epoch_bytes dev st = encode_records (epoch_records dev st)" if "epoch_ok bkt dev st" for st
    using that by (simp add: epoch_ok_def epoch_records_def snapfile_ok_def)
  have "length (epoch_bytes dev (ep1, v1)) \<le> length (epoch_bytes dev (ep, v)) + sizeof_hdr + length (block w)"
    using log_add_bytes[of "queued w"] by (simp add: enc[OF s(2)] enc[OF Cons.prems(1)] s(3)) (simp add: queued_def)
  then have "length (epoch_bytes dev (ep1, v1)) + (\<Sum>w\<leftarrow>ws. sizeof_hdr + length (block w)) < 2 ^ 63"
    using Cons.prems(4) by simp
  from Cons.IH[OF s(2) Cons.prems(2) _ this] Cons.prems(3) s show ?case by simp
qed

text \<open>C4: the queue of an epoch: running any list of works of one epoch without failing calls
  returns, and the saved records are the fold of \<open>log_add\<close> over the queued blocks in queue order, so
  that the first block queued under a number is the one that is kept.\<close>

theorem run_snapshots_refines_log:
  assumes "epoch_ok bkt dev (ep, v)" "ms_env_ok env"
    "\<forall>w \<in> set ws. work_for dev (first_mount_date ep) w \<and> full_write (write_res env) (block w)"
    "length (epoch_bytes dev (ep, v)) + (\<Sum>w\<leftarrow>ws. sizeof_hdr + length (block w)) < 2 ^ 63"
  shows "\<exists>ep' v'. run_snapshots bkt env ws (ep, v) = Inr (ep', v') \<and> epoch_ok bkt dev (ep', v') \<and>
    epoch_records dev (ep', v') = fold log_add (map queued ws) (epoch_records dev (ep, v))"
  by (rule run_snapshots_log[OF assms])

theorem run_snapshots_refines_log_witness:
  "\<exists>ep' v'. run_snapshots (\<lambda>_. 0) (sample_env \<lparr>wr_hdr = 40, wr_ext = 0, wr_payld = 2\<rparr>)
      [sample_work 3 [1, 2], sample_work 4 [5, 6], sample_work 3 [9, 9]] (sample_epoch, empty_vfs) = Inr (ep', v') \<and>
    epoch_records ''/dev/sda1'' (ep', v') = [(3, [1, 2]), (4, [5, 6])]"
proof -
  let ?ws = "[sample_work 3 [1, 2], sample_work 4 [5, 6], sample_work 3 [9, 9]]"
  have "\<forall>w \<in> set ?ws. work_for ''/dev/sda1'' (first_mount_date sample_epoch) w \<and>
      full_write (write_res (sample_env \<lparr>wr_hdr = 40, wr_ext = 0, wr_payld = 2\<rparr>)) (block w)"
    "length (epoch_bytes ''/dev/sda1'' (sample_epoch, empty_vfs)) + (\<Sum>w\<leftarrow>?ws. 40 + length (block w)) < 2 ^ 63"
    by (simp_all add: sample_work_for) (simp_all add: full_write_def sample_env_def sample_work_def sample_epoch_bytes)
  from run_snapshots_refines_log[OF sample_epoch_ok sample_env_ok this, of "\<lambda>_. 0"]
  show ?thesis by (auto simp: epoch_records_def sample_epoch_bytes log_add_def sample_work_def queued_def)
qed

text \<open>the test \<open>write_snapblock(...) != 0\<close> is inverted, part one: when the write of a new block
  succeeds the worker skips \<open>lru_ng_add\<close>, so the block just saved is not in the cache and its next
  occurrence has to search the file again.\<close>

theorem saved_block_not_cached:
  assumes "epoch_ok bkt dev (ep, v)" "ms_env_ok env" "full_write (write_res env) (block w)"
    "work_for dev (first_mount_date ep) w" "snapfile_room (epoch_bytes dev (ep, v)) (block w)"
    "block_nr w \<notin> fst ` set (epoch_records dev (ep, v))"
  shows "\<exists>ep' v'. make_snapshot bkt env w (ep, v) = Inr (ep', v') \<and>
    block_nr w \<in> fst ` set (epoch_records dev (ep', v')) \<and> block_nr w \<notin> set (cached ep')"
  by (rule make_snapshot_step[OF assms(1-5)]) (use assms(6) in \<open>fastforce simp: log_add_keys\<close>)

theorem saved_block_not_cached_witness:
  "\<exists>ep' v'. make_snapshot (\<lambda>_. 0) (sample_env \<lparr>wr_hdr = 40, wr_ext = 0, wr_payld = 2\<rparr>)
      (sample_work 3 [1, 2]) (sample_epoch, empty_vfs) = Inr (ep', v') \<and> 3 \<notin> set (cached ep')"
proof -
  let ?w = "sample_work 3 [1, 2]"
  have "full_write (write_res (sample_env \<lparr>wr_hdr = 40, wr_ext = 0, wr_payld = 2\<rparr>)) (block ?w)"
    "snapfile_room (epoch_bytes ''/dev/sda1'' (sample_epoch, empty_vfs)) (block ?w)"
    "block_nr ?w \<notin> fst ` set (epoch_records ''/dev/sda1'' (sample_epoch, empty_vfs))"
    by (simp_all add: full_write_def sample_env_def sample_work_def snapfile_room_def sample_epoch_bytes
        epoch_records_def)
  from saved_block_not_cached[OF sample_epoch_ok sample_env_ok this(1) sample_work_for this(2,3), of "\<lambda>_. 0"]
  show ?thesis by (auto simp: sample_work_def)
qed

text \<open>A block number stays in the cache while there is room: every run looks it up or adds one number at most.\<close>

definition caching :: "(u64 \<Rightarrow> nat) \<Rightarrow> u64 \<Rightarrow> nat \<Rightarrow> epoch \<Rightarrow> bool" where
  "caching bkt b m ep \<longleftrightarrow>
     (\<exists>l. cached_blocks ep = Some l \<and> lru_inv bkt l \<and> b \<in> set (lru_abs l) \<and> length (lru_abs l) \<le> m)"

lemma lru_add_grows:
  assumes "lru_inv bkt l" "fresh_node l nd" "key \<notin> set (lru_abs l)" "length (lru_abs l) < LRU_NG__LRU_MAX_ENTRIES"
  shows "lru_inv bkt (snd (lru_ng_add bkt nd l key))"
    "set (lru_abs l) \<subseteq> set (lru_abs (snd (lru_ng_add bkt nd l key)))"
    "length (lru_abs (snd (lru_ng_add bkt nd l key))) \<le> Suc (length (lru_abs l))"
proof -
  show "lru_inv bkt (snd (lru_ng_add bkt nd l key))" by (rule lru.add_ok[OF assms(1-3)])
  show "set (lru_abs l) \<subseteq> set (lru_abs (snd (lru_ng_add bkt nd l key)))"
    using lru_add_room[of bkt l _ _ key] assms by (cases nd) (auto simp: lru_ng_add_None)
  show "length (lru_abs (snd (lru_ng_add bkt nd l key))) \<le> Suc (length (lru_abs l))"
  proof (cases nd)
    case (Some p)
    obtain a nid where p: "p = (a, nid)" by (cases p)
    have "nid < length (llru l)" using assms(2) Some p by (simp add: fresh_node_def)
    with assms Some p show ?thesis
      by (simp add: lru_ng_add_Some enforce_abs[OF lru_link_inv] length_lru_link)
  qed (simp add: lru_ng_add_None)
qed

lemma make_snapshot_caching:
  assumes c: "caching bkt b m ep" and m: "m < LRU_NG__LRU_MAX_ENTRIES" and fresh: "\<forall>s. fresh_node s (node_alloc env s)"
    and r: "make_snapshot bkt env w (ep, v) = Inr (ep', v')"
  shows "caching bkt b (Suc m) ep'"
proof -
  obtain l where l: "cached_blocks ep = Some l" "lru_inv bkt l" "b \<in> set (lru_abs l)" "length (lru_abs l) \<le> m"
    using c by (auto simp: caching_def)
  obtain hit l1 where lk: "lru_ng_lookup bkt l (block_nr w) = (hit, l1)" by (cases "lru_ng_lookup bkt l (block_nr w)")
  have look: "lru_inv bkt l1" "set (lru_abs l1) = set (lru_abs l)"
    using lru.lookup_ok[OF l(2), of "block_nr w"] lru.lookup_contents[OF l(2), of "block_nr w"] lk by simp_all
  have "length (lru_abs l1) \<le> m"
    using lru_lookup_length[OF l(2), of "block_nr w"] lk l(4) by simp
  note l1 = look(1) _ this
  have b1: "b \<in> set (lru_abs l1)" using look(2) l(3) by simp
  have same: "caching bkt b (Suc m) e" if "cached_blocks e = Some l1" for e :: epoch
    using l1 b1 that by (simp add: caching_def)
  have add: "caching bkt b (Suc m) e"
    if "cached_blocks e = Some (snd (lru_ng_add bkt (node_alloc env l1) l1 (block_nr w)))" "\<not> hit" for e :: epoch
  proof -
    have "block_nr w \<notin> set (lru_abs l1)" using lru.lookup_hit[OF l(2), of "block_nr w"] lk that(2) look(2) by simp
    note g = lru_add_grows[OF l1(1) fresh[rule_format] this less_le_trans[OF le_imp_less_Suc[OF l1(3)] Suc_leI[OF m]]]
    from g(1) g(3) l1(3) subsetD[OF g(2) b1] show ?thesis using that(1) by (simp add: caching_def)
  qed
  show ?thesis using r l(1) lk same add
    by (auto simp: make_snapshot_def ensure_cached_blocks_lru_ok_def snapshot_into_file_def Let_def
        split: if_splits prod.splits option.splits sum.splits bool.splits file_ptr.splits)
qed

text \<open>The worker under changing conditions: every run with its own outcomes of the kernel's calls.\<close>

fun run_works ::
  "(u64 \<Rightarrow> nat) \<Rightarrow> (ms_env \<times> make_snapshot_work) list \<Rightarrow> epoch \<times> vfs \<Rightarrow> fault + epoch \<times> vfs" where
  "run_works bkt [] st = Inr st"
| "run_works bkt ((env, w) # ws) st =
     (case make_snapshot bkt env w st of Inl f \<Rightarrow> Inl f | Inr st' \<Rightarrow> run_works bkt ws st')"

lemma run_works_caching:
  assumes "caching bkt b m ep" "m + length ws \<le> LRU_NG__LRU_MAX_ENTRIES"
    and "\<forall>(env, w) \<in> set ws. \<forall>s. fresh_node s (node_alloc env s)" and "run_works bkt ws (ep, v) = Inr (ep', v')"
  shows "caching bkt b (m + length ws) ep'"
  using assms
proof (induction bkt ws "(ep, v)" arbitrary: ep v m rule: run_works.induct)
  case (2 bkt env w ws ep v)
  then obtain ep1 v1 where s: "make_snapshot bkt env w (ep, v) = Inr (ep1, v1)" "run_works bkt ws (ep1, v1) = Inr (ep', v')"
    by (auto split: sum.splits)
  have "caching bkt b (Suc m) ep1" by (rule make_snapshot_caching[OF _ _ _ s(1)]) (use "2.prems" in auto)
  from "2.hyps"[OF s(1) this] "2.prems" s(2) show ?case by simp
qed simp

lemma make_snapshot_cached:
  assumes "caching bkt b m ep" "block_nr w = b"
  obtains ep' where "make_snapshot bkt env w (ep, v) = Inr (ep', v)"
proof -
  obtain l where l: "cached_blocks ep = Some l" "lru_inv bkt l" "b \<in> set (lru_abs l)" using assms by (auto simp: caching_def)
  then obtain l' where "lru_ng_lookup bkt l b = (True, l')"
    using lru.lookup_hit[OF l(2), of b] by (cases "lru_ng_lookup bkt l b") auto
  with l(1) assms(2) that show thesis by (simp add: make_snapshot_def ensure_cached_blocks_lru_ok_def)
qed

text \<open>C34: the inverted test, part two: when the write of a new block fails the worker puts the block into the
  cache although nothing complete was saved. From then on, whatever works of the epoch run in between and
  whatever fails in them, every work for that block returns at once and leaves the file system as it is: the
  original contents are lost, as long as the cache has not dropped the number, which takes as many works as
  the cache has free places.\<close>

theorem failed_write_loses_block:
  assumes "epoch_ok bkt dev (ep, v)" "ms_env_ok env" "work_for dev (first_mount_date ep) w"
    "block_nr w \<notin> fst ` set (epoch_records dev (ep, v))" "block w \<noteq> []"
    "write_range (write_res env) (block w)" "\<not> full_write (write_res env) (block w)"
    "cached_blocks ep = Some l" "node_alloc env l \<noteq> None" "length (lru_abs l) < LRU_NG__LRU_MAX_ENTRIES"
  shows "\<exists>ep' v' d k. make_snapshot bkt env w (ep, v) = Inr (ep', v') \<and>
    path_snapdir ep' = Some d \<and> k < length (encode_record (block_nr w, block w)) \<and>
    saved_bytes v' d = epoch_bytes dev (ep, v) @ take k (encode_record (block_nr w, block w)) \<and>
    (\<forall>ws ep2 v2. length (lru_abs l) + length ws < LRU_NG__LRU_MAX_ENTRIES \<longrightarrow>
      (\<forall>(env1, w1) \<in> set ws. \<forall>s. fresh_node s (node_alloc env1 s)) \<longrightarrow>
      run_works bkt ws (ep', v') = Inr (ep2, v2) \<longrightarrow>
      (\<forall>env2 w2. block_nr w2 = block_nr w \<longrightarrow> (\<exists>ep3. make_snapshot bkt env2 w2 (ep2, v2) = Inr (ep3, v2))))"
proof -
  let ?b = "block_nr w"
  have sub: "set (cached ep) \<subseteq> fst ` set (epoch_records dev (ep, v))"
    using assms(1,8) by (simp add: epoch_ok_def cached_def)
  then have miss: "?b \<notin> set (cached ep)" using assms(4) by blast
  obtain l' d f i v2 where r:
    "make_snapshot bkt env w (ep, v) = (case snapshot_into_file bkt env w f l' v2 of Inl ft \<Rightarrow> Inl ft
       | Inr (l2, v3) \<Rightarrow> Inr (ep\<lparr>path_snapdir := Some d, cached_blocks := Some l2\<rparr>, v3))"
    "lru_inv bkt l'" "lru_abs l' = cached ep" "dir_entry v2 d ''snapblocks'' = Some f"
    "inodes v2 f = Some i" "file_data v2 f = epoch_bytes dev (ep, v)" "l' = l"
    by (rule make_snapshot_miss[OF assms(1-3) miss]) (use assms(8) in blast)
  have fok: "snapfile_ok (file_data v2 f)" using assms(1) r(6) by (simp add: epoch_ok_def)
  have find: "file_lookup (read_fail env) ?b (file_data v2 f) = Some False"
    using snaplog.find_spec[OF fok, of ?b] assms(2,4) r(6) by (simp add: ms_env_ok_def epoch_records_def)
  obtain k where k: "k < length (encode_record (?b, block w))"
    "write_raw (write_res env) ?b (block w) (file_data v2 f) =
      (False, file_data v2 f @ take k (encode_record (?b, block w)))"
    using write_raw_short[OF assms(6,7,5)] by blast
  have fresh: "fresh_node l' (node_alloc env l')" using assms(2) by (simp add: ms_env_ok_def)
  obtain a nid where nd: "node_alloc env l' = Some (a, nid)" using assms(9) r(7) by auto
  let ?l2 = "snd (lru_ng_add bkt (node_alloc env l') l' ?b)"
  let ?v3 = "fput f (set_file_data f (file_data v2 f @ take k (encode_record (?b, block w))) v2)"
  let ?ep = "ep\<lparr>path_snapdir := Some d, cached_blocks := Some ?l2\<rparr>"
  have ms: "make_snapshot bkt env w (ep, v) = Inr (?ep, ?v3)"
    using r(1) find k(2) assms(3) by (simp add: snapshot_into_file_def Let_def write_raw_def work_for_def)
  have sb: "saved_bytes ?v3 d = epoch_bytes dev (ep, v) @ take k (encode_record (?b, block w))"
    using r(4) set_file_data_facts(1,2)[OF r(5)] by (simp add: saved_bytes_entry r(6))
  have inv2: "lru_inv bkt ?l2" using lru.add_ok[OF r(2) fresh] miss r(3) by simp
  have in2: "?b \<in> set (lru_abs ?l2)"
    using lru_add_room[OF r(2) fresh[unfolded nd], of ?b] miss r(3,7) assms(8,10)
    by (simp add: nd nd[unfolded r(7)] cached_def)
  have "length (lru_abs ?l2) \<le> Suc (length (lru_abs l))"
    using lru_add_grows(3)[OF r(2) fresh] miss r(3,7) assms(10) by simp
  with inv2 in2 have c: "caching bkt ?b (Suc (length (lru_abs l))) ?ep" by (simp add: caching_def)
  have "\<exists>ep3. make_snapshot bkt env2 w2 (ep2, v2') = Inr (ep3, v2')"
    if "length (lru_abs l) + length ws < LRU_NG__LRU_MAX_ENTRIES" "\<forall>(env1, w1) \<in> set ws. \<forall>s. fresh_node s (node_alloc env1 s)"
      "run_works bkt ws (?ep, ?v3) = Inr (ep2, v2')" "block_nr w2 = ?b" for ws ep2 v2' env2 w2
  proof -
    have "caching bkt ?b (Suc (length (lru_abs l)) + length ws) ep2"
      by (rule run_works_caching[OF c _ that(2,3)]) (use that(1) in simp)
    from make_snapshot_cached[OF this that(4)] show ?thesis by metis
  qed
  with ms sb k(1) show ?thesis by fastforce
qed

theorem failed_write_loses_block_witness:
  "\<exists>ep' v'. make_snapshot (\<lambda>_. 0) (sample_env \<lparr>wr_hdr = - ENOMEM, wr_ext = 0, wr_payld = 0\<rparr>)
      (sample_work 3 [1, 2]) (sample_epoch, empty_vfs) = Inr (ep', v') \<and>
    (\<exists>ep2 ep3. run_works (\<lambda>_. 0) [(sample_env \<lparr>wr_hdr = 40, wr_ext = 0, wr_payld = 2\<rparr>, sample_work 3 [7, 8])] (ep', v') = Inr (ep2, v') \<and>
      make_snapshot (\<lambda>_. 0) (sample_env \<lparr>wr_hdr = 40, wr_ext = 0, wr_payld = 2\<rparr>) (sample_work 3 [1, 2]) (ep2, v') = Inr (ep3, v'))"
proof -
  let ?w = "sample_work 3 [1, 2]" and ?env = "sample_env \<lparr>wr_hdr = - ENOMEM, wr_ext = 0, wr_payld = 0\<rparr>"
  let ?env1 = "sample_env \<lparr>wr_hdr = 40, wr_ext = 0, wr_payld = 2\<rparr>"
  let ?l = "snd (lru_ng_init 1 True)"
  have "block_nr ?w \<notin> fst ` set (epoch_records ''/dev/sda1'' (sample_epoch, empty_vfs))"
    by (simp add: sample_epoch_records)
  moreover have "block ?w \<noteq> []" "write_range (write_res ?env) (block ?w)"
    "\<not> full_write (write_res ?env) (block ?w)" "cached_blocks sample_epoch = Some ?l"
    "node_alloc ?env ?l \<noteq> None"
    by (simp_all add: full_write_def sample_env_def sample_work_def write_range_def sample_epoch_def
        fresh_node_def lru_ng_init_def)
  moreover have room: "length (lru_abs ?l) + n < LRU_NG__LRU_MAX_ENTRIES" if "n < 2" for n
    using that by (simp add: lru_abs_init LRU_NG__LRU_MAX_ENTRIES_def LRU_NG__HT_BUCKET_BITS_def)
  ultimately have pre: "block_nr ?w \<notin> fst ` set (epoch_records ''/dev/sda1'' (sample_epoch, empty_vfs))"
    "block ?w \<noteq> []" "write_range (write_res ?env) (block ?w)" "\<not> full_write (write_res ?env) (block ?w)"
    "cached_blocks sample_epoch = Some ?l" "node_alloc ?env ?l \<noteq> None"
    "length (lru_abs ?l) < LRU_NG__LRU_MAX_ENTRIES" using room[of 0] by simp_all
  have fresh: "\<forall>s. fresh_node s (node_alloc ?env1 s)" using sample_env_ok[of "\<lparr>wr_hdr = 40, wr_ext = 0, wr_payld = 2\<rparr>"] by (simp add: ms_env_ok_def)
  obtain ep' v' where ms: "make_snapshot (\<lambda>_. 0) ?env ?w (sample_epoch, empty_vfs) = Inr (ep', v')"
    and later: "\<And>ws ep2 v2 env2 w2. length (lru_abs ?l) + length ws < LRU_NG__LRU_MAX_ENTRIES \<Longrightarrow>
      \<forall>(env1, w1) \<in> set ws. \<forall>s. fresh_node s (node_alloc env1 s) \<Longrightarrow> run_works (\<lambda>_. 0) ws (ep', v') = Inr (ep2, v2) \<Longrightarrow>
      block_nr w2 = block_nr ?w \<Longrightarrow> \<exists>ep3. make_snapshot (\<lambda>_. 0) env2 w2 (ep2, v2) = Inr (ep3, v2)"
    using failed_write_loses_block[OF sample_epoch_ok sample_env_ok sample_work_for pre, of "\<lambda>_. 0"] by blast
  obtain ep2 where one: "run_works (\<lambda>_. 0) [(?env1, sample_work 3 [7, 8])] (ep', v') = Inr (ep2, v')"
    using later[of "[]" ep' v' "sample_work 3 [7, 8]" ?env1] room[of 0] by (auto simp: sample_work_def)
  have "\<exists>ep3. make_snapshot (\<lambda>_. 0) ?env1 ?w (ep2, v') = Inr (ep3, v')"
    by (rule later[OF _ _ one refl]) (use room[of 1] fresh in simp_all)
  with ms one show ?thesis by blast
qed

text \<open>if \<open>dentry_open\<close> fails on an existing snapblocks file, the worker goes on with the error
  pointer: the run performs an access through it.\<close>

theorem make_snapshot_open_error_faults:
  assumes "cached_blocks ep = Some l" "lru_inv bkt l" "block_nr w \<notin> set (lru_abs l)"
    "path_snapdir ep = Some d" "dentry_healthy v d" "dir_entry v d ''snapblocks'' = Some c"
    "d_kind v c = Some KReg" "dentry_open_err (sd_env env) \<noteq> 0"
  shows "make_snapshot bkt env w (ep, v) = Inl ErrPtrDeref"
  using assms lru_ng_lookup_miss[OF assms(2,3)]
  by (simp add: make_snapshot_def ensure_cached_blocks_lru_ok_def ensure_snapblocks_file_ok_def
      vfs_path_lookup_def dentry_open_def Let_def)

theorem make_snapshot_open_error_faults_witness:
  "make_snapshot (\<lambda>_. 0) ((sample_env \<lparr>wr_hdr = 40, wr_ext = 0, wr_payld = 2\<rparr>)\<lparr>sd_env := quiet_env\<lparr>dentry_open_err := - ENFILE\<rparr>\<rparr>) (sample_work 3 [1, 2])
     (sample_epoch\<lparr>path_snapdir := Some 0\<rparr>, file_vfs) = Inl ErrPtrDeref"
  by (rule make_snapshot_open_error_faults[of _ "snd (lru_ng_init 1 True)" _ _ 0 _ 1])
    (simp_all add: sample_epoch_def lru_inv_init lru_abs_init file_vfs_def empty_vfs_def dentry_healthy_def
      dir_entry_def d_kind_def)


end
