(* ===== verification/Devices.thy ===== *)
theory Devices
  imports Snapwork
begin

text \<open>
  The registered devices, \<open>src/kernel/devices.c\<close> with \<open>devices.h\<close> and \<open>mounts.h\<close>: the two
  hash tables (block devices by \<open>dev_t\<close>, loop devices by the path of the backing file), the
  \<open>struct object_data\<close> of each device with its ordered workqueue and current epoch, registration
  and deregistration, and the deferred destruction of a device's workqueue.

  The kernel heap is a set of maps from identifiers to objects; a freed object is absent. A
  critical section under \<open>general_lock\<close> or \<open>wq_destroy_lock\<close> is one atomic step. Workqueues are
  the lists of their pending items, in order. Results of path resolution, allocation and hash table
  insertion are arguments (\<open>dev_env\<close>).
\<close>

section \<open>State\<close>

record object_data =
  wq_is_destroyed :: bool
  od_wq :: "nat option"
  od_e :: "nat option"
  od_original_dev_name :: string

datatype work = SnapshotWork nat make_snapshot_work | CleanupEpochWork nat

record waddw_args =
  device_wq :: "nat option"
  last_epoch :: "nat option"

record kstate =
  allow_reging_operation :: bool
  blkdevs_ht :: "(u32 \<times> nat) list"
  loops_ht :: "(string \<times> nat) list"
  objs :: "nat \<rightharpoonup> object_data"
  wqs :: "nat \<rightharpoonup> work list"
  epochs :: "nat \<rightharpoonup> epoch"
  waddw_worklist :: "(nat \<times> waddw_args) list"
  system_wq :: "(nat \<times> waddw_args) list"
  kvfs :: vfs
  next_id :: nat

definition initial_kstate :: "vfs \<Rightarrow> kstate" where
  "initial_kstate v = \<lparr>allow_reging_operation = False, blkdevs_ht = [], loops_ht = [], objs = Map.empty,
     wqs = Map.empty, epochs = Map.empty, waddw_worklist = [], system_wq = [], kvfs = v, next_id = 0\<rparr>"

section \<open>Device identities\<close>

definition MAJOR :: "u32 \<Rightarrow> u32" where "MAJOR d = drop_bit 20 d"

definition LOOP_MAJOR :: u32 where "LOOP_MAJOR = 7"

definition MY_LO_NAME_SIZE :: nat where "MY_LO_NAME_SIZE = 64"

declare MAJOR_def [devno_defs] LOOP_MAJOR_def [devno_defs] drop_bit_eq_div [devno_defs]

text \<open>\<open>struct block_device\<close> as far as the module looks: the device number and, for a loop device,
  the \<open>lo_file_name\<close> of its private data (the macro \<open>get_loop_backing_file\<close>).\<close>

record block_device =
  bd_dev :: u32
  bd_lo_file_name :: string

definition get_loop_backing_file :: "block_device \<Rightarrow> string" where
  "get_loop_backing_file bdev = bd_lo_file_name bdev"

datatype mountinfo = BlockDevice u32 | LoopDevice string

definition from_block_device_to_mountinfo :: "block_device \<Rightarrow> mountinfo" where
  "from_block_device_to_mountinfo bdev =
     (if MAJOR (bd_dev bdev) = LOOP_MAJOR
      then LoopDevice (strscpy (get_loop_backing_file bdev) MY_LO_NAME_SIZE)
      else BlockDevice (bd_dev bdev))"

section \<open>The environment\<close>

datatype file_type = S_IFBLK | S_IFREG | S_IFOTHER

record vinode =
  v_type :: file_type
  v_rdev :: u32

record dev_env =
  kern_path :: "string \<Rightarrow> int + nat"
  igrab :: "nat \<Rightarrow> vinode option"
  d_path :: "nat \<Rightarrow> nat \<Rightarrow> int + string"
  open_loop_bdev :: "u32 \<Rightarrow> int + block_device"
  kzalloc_object_ok :: bool
  alloc_workqueue_ok :: bool
  ht_insert_err :: int
  kmalloc_full_path_ok :: bool
  ht_remove_err :: int
  kmalloc_wlistnode_ok :: bool
  kmalloc_wargs_ok :: bool

section \<open>Object data\<close>

definition init_object_data :: "dev_env \<Rightarrow> string \<Rightarrow> kstate \<Rightarrow> object_data \<times> kstate" where
  "init_object_data env original_dev_name k =
     (let data = \<lparr>wq_is_destroyed = False, od_wq = None, od_e = None,
                  od_original_dev_name = strscpy original_dev_name PATH_MAX\<rparr>
      in if alloc_workqueue_ok env
         then (data\<lparr>od_wq := Some (next_id k)\<rparr>,
               k\<lparr>wqs := (wqs k)(next_id k \<mapsto> []), next_id := next_id k + 1\<rparr>)
         else (data, k))"

text \<open>The handler of the work that ends an epoch (\<open>mounts.c\<close>).\<close>

definition cleanup_epoch_work :: "ms_env \<Rightarrow> nat \<Rightarrow> kstate \<Rightarrow> fault + kstate" where
  "cleanup_epoch_work menv ended_epoch k =
     (case epochs k ended_epoch of
        None \<Rightarrow> Inl UseAfterFree
      | Some ep \<Rightarrow>
          (case destroy_an_epoch (list_lru_size menv) (Some ep) (kvfs k) of
             Inl f \<Rightarrow> Inl f
           | Inr v' \<Rightarrow> Inr (k\<lparr>epochs := (epochs k)(ended_epoch := None), kvfs := v'\<rparr>)))"

text \<open>One pending item is run by the worker thread of its queue.\<close>

definition run_work :: "(u64 \<Rightarrow> nat) \<Rightarrow> ms_env \<Rightarrow> work \<Rightarrow> kstate \<Rightarrow> fault + kstate" where
  "run_work bkt menv w k =
     (case w of
        SnapshotWork eid msw \<Rightarrow>
          (case epochs k eid of
             None \<Rightarrow> Inl UseAfterFree
           | Some ep \<Rightarrow>
               (case make_snapshot bkt menv msw (ep, kvfs k) of
                  Inl f \<Rightarrow> Inl f
                | Inr (ep', v') \<Rightarrow> Inr (k\<lparr>epochs := (epochs k)(eid \<mapsto> ep'), kvfs := v'\<rparr>)))
      | CleanupEpochWork eid \<Rightarrow> cleanup_epoch_work menv eid k)"

lemmas run_work_unfold = run_work_def cleanup_epoch_work_def

definition run_wq_head :: "(u64 \<Rightarrow> nat) \<Rightarrow> ms_env \<Rightarrow> nat \<Rightarrow> kstate \<Rightarrow> fault + kstate" where
  "run_wq_head bkt menv w k =
     (case wqs k w of
        None \<Rightarrow> Inr k
      | Some [] \<Rightarrow> Inr k
      | Some (x # xs) \<Rightarrow> run_work bkt menv x (k\<lparr>wqs := (wqs k)(w \<mapsto> xs)\<rparr>))"

fun run_wq_n :: "(u64 \<Rightarrow> nat) \<Rightarrow> ms_env \<Rightarrow> nat \<Rightarrow> nat \<Rightarrow> kstate \<Rightarrow> fault + kstate" where
  "run_wq_n bkt menv w 0 k = Inr k"
| "run_wq_n bkt menv w (Suc n) k =
     (case run_wq_head bkt menv w k of Inl f \<Rightarrow> Inl f | Inr k' \<Rightarrow> run_wq_n bkt menv w n k')"

text \<open>\<open>flush_workqueue\<close> waits until every pending item has run.\<close>

definition flush_workqueue :: "(u64 \<Rightarrow> nat) \<Rightarrow> ms_env \<Rightarrow> nat \<Rightarrow> kstate \<Rightarrow> fault + kstate" where
  "flush_workqueue bkt menv w k =
     (case wqs k w of None \<Rightarrow> Inl UseAfterFree | Some q \<Rightarrow> run_wq_n bkt menv w (length q) k)"

definition destroy_epoch_id :: "ms_env \<Rightarrow> nat option \<Rightarrow> kstate \<Rightarrow> fault + kstate" where
  "destroy_epoch_id menv e k =
     (case e of
        None \<Rightarrow> Inr k
      | Some eid \<Rightarrow>
          (case epochs k eid of
             None \<Rightarrow> Inl UseAfterFree
           | Some ep \<Rightarrow>
               (case destroy_an_epoch (list_lru_size menv) (Some ep) (kvfs k) of
                  Inl f \<Rightarrow> Inl f
                | Inr v' \<Rightarrow> Inr (k\<lparr>epochs := (epochs k)(eid := None), kvfs := v'\<rparr>))))"

definition do_waddw :: "(u64 \<Rightarrow> nat) \<Rightarrow> ms_env \<Rightarrow> waddw_args \<Rightarrow> kstate \<Rightarrow> fault + kstate" where
  "do_waddw bkt menv wargs k =
     (case device_wq wargs of
        None \<Rightarrow> Inl NullDeref
      | Some w \<Rightarrow>
          (case flush_workqueue bkt menv w k of
             Inl f \<Rightarrow> Inl f
           | Inr k1 \<Rightarrow> destroy_epoch_id menv (last_epoch wargs) (k1\<lparr>wqs := (wqs k1)(w := None)\<rparr>)))"

text \<open>\<open>work_busy\<close>: the item is still pending on the system workqueue.\<close>

definition prune_worklist :: "kstate \<Rightarrow> kstate" where
  "prune_worklist k =
     k\<lparr>waddw_worklist := filter (\<lambda>n. fst n \<in> fst ` set (system_wq k)) (waddw_worklist k)\<rparr>"

definition cleanup_object_data :: "dev_env \<Rightarrow> nat \<Rightarrow> kstate \<Rightarrow> fault + kstate" where
  "cleanup_object_data env oid k =
     (case objs k oid of
        None \<Rightarrow> Inl UseAfterFree
      | Some data \<Rightarrow>
          let saved_last_epoch = od_e data;
              k1 = k\<lparr>objs := (objs k)(oid \<mapsto> data\<lparr>wq_is_destroyed := True, od_e := None\<rparr>)\<rparr>;
              do_my_work = kmalloc_wlistnode_ok env \<and> kmalloc_wargs_ok env;
              node = (next_id k1, \<lparr>device_wq = od_wq data, last_epoch = saved_last_epoch\<rparr>);
              k2 = (if do_my_work
                    then k1\<lparr>system_wq := system_wq k1 @ [node],
                            waddw_worklist := waddw_worklist k1 @ [node], next_id := next_id k1 + 1\<rparr>
                    else k1)
          in Inr (prune_worklist k2))"

definition cleanup_object_data_notvisible ::
  "(u64 \<Rightarrow> nat) \<Rightarrow> ms_env \<Rightarrow> object_data \<Rightarrow> kstate \<Rightarrow> fault + kstate" where
  "cleanup_object_data_notvisible bkt menv data k =
     do_waddw bkt menv \<lparr>device_wq = od_wq data, last_epoch = od_e data\<rparr> k"

text \<open>The two free functions of the tables: \<open>kfree_rcu\<close> releases the object.\<close>

definition blkdevs_ht_free_fn :: "dev_env \<Rightarrow> nat \<Rightarrow> kstate \<Rightarrow> fault + kstate" where
  "blkdevs_ht_free_fn env bdptr k =
     (case cleanup_object_data env bdptr k of
        Inl f \<Rightarrow> Inl f
      | Inr k1 \<Rightarrow> Inr (k1\<lparr>objs := (objs k1)(bdptr := None)\<rparr>))"

definition loops_ht_free_fn :: "dev_env \<Rightarrow> nat \<Rightarrow> kstate \<Rightarrow> fault + kstate" where
  "loops_ht_free_fn env loptr k =
     (case cleanup_object_data env loptr k of
        Inl f \<Rightarrow> Inl f
      | Inr k1 \<Rightarrow> Inr (k1\<lparr>objs := (objs k1)(loptr := None)\<rparr>))"

section \<open>Resolving names\<close>

definition get_full_path :: "dev_env \<Rightarrow> string \<Rightarrow> nat \<Rightarrow> int + string" where
  "get_full_path env path len =
     (case kern_path env path of
        Inl err \<Rightarrow> Inl err
      | Inr p \<Rightarrow> (case d_path env p len of Inl err \<Rightarrow> Inl err | Inr s \<Rightarrow> Inr s))"

text \<open>0 with the grabbed inode, which may be NULL, or a negative error number.\<close>

definition get_inode_from_cstr_path :: "dev_env \<Rightarrow> string \<Rightarrow> int + vinode option" where
  "get_inode_from_cstr_path env path =
     (case kern_path env path of Inl err \<Rightarrow> Inl err | Inr p \<Rightarrow> Inr (igrab env p))"

definition get_loop_device_backing_file :: "dev_env \<Rightarrow> u32 \<Rightarrow> int + string" where
  "get_loop_device_backing_file env bddevt =
     (case open_loop_bdev env bddevt of
        Inl err \<Rightarrow> Inl err
      | Inr bd \<Rightarrow> Inr (strscpy (get_loop_backing_file bd) MY_LO_NAME_SIZE))"

section \<open>Registration and deregistration\<close>

definition do_device_reging_operation ::
  "dev_env \<Rightarrow> string \<Rightarrow> (string \<Rightarrow> string \<Rightarrow> kstate \<Rightarrow> fault + int \<times> kstate) \<Rightarrow>
     (u32 \<Rightarrow> string \<Rightarrow> kstate \<Rightarrow> fault + int \<times> kstate) \<Rightarrow> kstate \<Rightarrow> fault + int \<times> kstate" where
  "do_device_reging_operation env path op_on_loopdev op_on_blkdev k =
     (if \<not> allow_reging_operation k then Inr (- EBUSY, k)
      else case get_inode_from_cstr_path env path of
        Inl err \<Rightarrow> Inr (err, k)
      | Inr None \<Rightarrow> Inr (- ENFILE, k)
      | Inr (Some ino) \<Rightarrow>
          (case v_type ino of
             S_IFBLK \<Rightarrow>
               if MAJOR (v_rdev ino) = LOOP_MAJOR then
                 (case get_loop_device_backing_file env (v_rdev ino) of
                    Inl err \<Rightarrow> Inr (err, k)
                  | Inr loop_backing_path \<Rightarrow> op_on_loopdev loop_backing_path path k)
               else op_on_blkdev (v_rdev ino) path k
           | S_IFREG \<Rightarrow> op_on_loopdev path path k
           | S_IFOTHER \<Rightarrow> Inr (- EINVAL, k)))"

text \<open>The error branch of the path reads the object it has just freed.\<close>

definition try_to_insert_loop_device ::
  "(u64 \<Rightarrow> nat) \<Rightarrow> ms_env \<Rightarrow> dev_env \<Rightarrow> string \<Rightarrow> string \<Rightarrow> kstate \<Rightarrow> fault + int \<times> kstate" where
  "try_to_insert_loop_device bkt menv env path original_dev_name k =
     (if \<not> kzalloc_object_ok env then Inr (- ENOMEM, k)
      else case get_full_path env path PATH_MAX of
        Inl err \<Rightarrow> Inl UseAfterFree
      | Inr key \<Rightarrow>
          let (data, k1) = init_object_data env original_dev_name k in
          if ht_insert_err env \<noteq> 0 then
            (case cleanup_object_data_notvisible bkt menv data k1 of
               Inl f \<Rightarrow> Inl f | Inr k2 \<Rightarrow> Inr (- EFAULT, k2))
          else (case map_of (loops_ht k1) key of
            Some old_obj \<Rightarrow>
              (case cleanup_object_data_notvisible bkt menv data k1 of
                 Inl f \<Rightarrow> Inl f | Inr k2 \<Rightarrow> Inr (- EEXIST, k2))
          | None \<Rightarrow>
              Inr (0, k1\<lparr>objs := (objs k1)(next_id k1 \<mapsto> data),
                         loops_ht := (key, next_id k1) # loops_ht k1, next_id := next_id k1 + 1\<rparr>)))"

definition try_to_insert_block_device ::
  "(u64 \<Rightarrow> nat) \<Rightarrow> ms_env \<Rightarrow> dev_env \<Rightarrow> u32 \<Rightarrow> string \<Rightarrow> kstate \<Rightarrow> fault + int \<times> kstate" where
  "try_to_insert_block_device bkt menv env bddevt original_dev_name k =
     (if \<not> kzalloc_object_ok env then Inr (- ENOMEM, k)
      else
        let (data, k1) = init_object_data env original_dev_name k in
        if ht_insert_err env \<noteq> 0 then
          (case cleanup_object_data_notvisible bkt menv data k1 of
             Inl f \<Rightarrow> Inl f | Inr k2 \<Rightarrow> Inr (- EFAULT, k2))
        else (case map_of (blkdevs_ht k1) bddevt of
          Some old_obj \<Rightarrow>
            (case cleanup_object_data_notvisible bkt menv data k1 of
               Inl f \<Rightarrow> Inl f | Inr k2 \<Rightarrow> Inr (- EEXIST, k2))
        | None \<Rightarrow>
            Inr (0, k1\<lparr>objs := (objs k1)(next_id k1 \<mapsto> data),
                       blkdevs_ht := (bddevt, next_id k1) # blkdevs_ht k1, next_id := next_id k1 + 1\<rparr>)))"

definition register_device ::
  "(u64 \<Rightarrow> nat) \<Rightarrow> ms_env \<Rightarrow> dev_env \<Rightarrow> string \<Rightarrow> kstate \<Rightarrow> fault + int \<times> kstate" where
  "register_device bkt menv env path k =
     do_device_reging_operation env path (try_to_insert_loop_device bkt menv env)
       (try_to_insert_block_device bkt menv env) k"

definition ht_remove :: "'a \<Rightarrow> ('a \<times> nat) list \<Rightarrow> ('a \<times> nat) list" where
  "ht_remove key t = filter (\<lambda>p. fst p \<noteq> key) t"

definition try_to_remove_loop_device ::
  "dev_env \<Rightarrow> string \<Rightarrow> string \<Rightarrow> kstate \<Rightarrow> fault + int \<times> kstate" where
  "try_to_remove_loop_device env path arg k =
     (if \<not> kmalloc_full_path_ok env then Inr (- ENOMEM, k)
      else case get_full_path env path PATH_MAX of
        Inl err \<Rightarrow> Inr (err, k)
      | Inr full_path \<Rightarrow>
          (case map_of (loops_ht k) full_path of
             None \<Rightarrow> Inr (- ENOKEY, k)
           | Some cur_obj \<Rightarrow>
               if ht_remove_err env = 0 then
                 (case loops_ht_free_fn env cur_obj (k\<lparr>loops_ht := ht_remove full_path (loops_ht k)\<rparr>) of
                    Inl f \<Rightarrow> Inl f | Inr k1 \<Rightarrow> Inr (0, k1))
               else Inr (- ENOKEY, k)))"

definition try_to_remove_block_device ::
  "dev_env \<Rightarrow> u32 \<Rightarrow> string \<Rightarrow> kstate \<Rightarrow> fault + int \<times> kstate" where
  "try_to_remove_block_device env bddevt arg k =
     (case map_of (blkdevs_ht k) bddevt of
        None \<Rightarrow> Inr (- ENOKEY, k)
      | Some cur_obj \<Rightarrow>
          if ht_remove_err env = 0 then
            (case blkdevs_ht_free_fn env cur_obj (k\<lparr>blkdevs_ht := ht_remove bddevt (blkdevs_ht k)\<rparr>) of
               Inl f \<Rightarrow> Inl f | Inr k1 \<Rightarrow> Inr (0, k1))
          else Inr (- ENOKEY, k))"

definition unregister_device :: "dev_env \<Rightarrow> string \<Rightarrow> kstate \<Rightarrow> fault + int \<times> kstate" where
  "unregister_device env path k =
     do_device_reging_operation env path (try_to_remove_loop_device env)
       (try_to_remove_block_device env) k"

section \<open>Lookup\<close>

definition get_device_data_always :: "mountinfo \<Rightarrow> kstate \<Rightarrow> nat option" where
  "get_device_data_always minfo k =
     (case minfo of
        BlockDevice bdevt \<Rightarrow> map_of (blkdevs_ht k) bdevt
      | LoopDevice lo_fname \<Rightarrow> map_of (loops_ht k) lo_fname)"

section \<open>Setup and destruction\<close>

text \<open>The two \<open>rhashtable_init\<close> results are arguments; a freshly initialised table is empty.\<close>

fun ht_free_all :: "(nat \<Rightarrow> kstate \<Rightarrow> fault + kstate) \<Rightarrow> nat list \<Rightarrow> kstate \<Rightarrow> fault + kstate" where
  "ht_free_all free_fn [] k = Inr k"
| "ht_free_all free_fn (oid # oids) k =
     (case free_fn oid k of Inl f \<Rightarrow> Inl f | Inr k1 \<Rightarrow> ht_free_all free_fn oids k1)"

definition setup_devices :: "int \<Rightarrow> int \<Rightarrow> kstate \<Rightarrow> int \<times> kstate" where
  "setup_devices blkdevs_init_err loops_init_err k =
     (if blkdevs_init_err \<noteq> 0 then (- EINVAL, k)
      else let k1 = k\<lparr>blkdevs_ht := []\<rparr> in
        if loops_init_err \<noteq> 0 then (- EINVAL, k1)
        else (0, k1\<lparr>loops_ht := [], allow_reging_operation := True\<rparr>))"

text \<open>\<open>flush_work\<close> waits for one item of the system workqueue: it runs now if it is pending.\<close>

definition run_system_work :: "(u64 \<Rightarrow> nat) \<Rightarrow> ms_env \<Rightarrow> nat \<Rightarrow> kstate \<Rightarrow> fault + kstate" where
  "run_system_work bkt menv wid k =
     (case map_of (system_wq k) wid of
        None \<Rightarrow> Inr k
      | Some wargs \<Rightarrow>
          do_waddw bkt menv wargs (k\<lparr>system_wq := filter (\<lambda>n. fst n \<noteq> wid) (system_wq k)\<rparr>))"

fun flush_worklist :: "(u64 \<Rightarrow> nat) \<Rightarrow> ms_env \<Rightarrow> (nat \<times> waddw_args) list \<Rightarrow> kstate \<Rightarrow> fault + kstate" where
  "flush_worklist bkt menv [] k = Inr k"
| "flush_worklist bkt menv (cur # rest) k =
     (case run_system_work bkt menv (fst cur) k of
        Inl f \<Rightarrow> Inl f
      | Inr k1 \<Rightarrow> flush_worklist bkt menv rest
                   (k1\<lparr>waddw_worklist := filter (\<lambda>n. fst n \<noteq> fst cur) (waddw_worklist k1)\<rparr>))"

definition destroy_devices :: "(u64 \<Rightarrow> nat) \<Rightarrow> ms_env \<Rightarrow> dev_env \<Rightarrow> kstate \<Rightarrow> fault + kstate" where
  "destroy_devices bkt menv env k =
     (let k1 = k\<lparr>allow_reging_operation := False\<rparr> in
      case ht_free_all (blkdevs_ht_free_fn env) (map snd (blkdevs_ht k1)) k1 of
        Inl f \<Rightarrow> Inl f
      | Inr k2 \<Rightarrow>
          (case ht_free_all (loops_ht_free_fn env) (map snd (loops_ht k2)) (k2\<lparr>blkdevs_ht := []\<rparr>) of
             Inl f \<Rightarrow> Inl f
           | Inr k3 \<Rightarrow> let k4 = k3\<lparr>loops_ht := []\<rparr> in flush_worklist bkt menv (waddw_worklist k4) k4))"

section \<open>Outcomes of the operations\<close>

text \<open>The effect of a successful insertion apart from the table, of a failed one, and of a
  removal apart from the table.\<close>

definition new_device :: "dev_env \<Rightarrow> string \<Rightarrow> kstate \<Rightarrow> kstate" where
  "new_device env name k =
     k\<lparr>wqs := (wqs k)(next_id k \<mapsto> []),
       objs := (objs k)(next_id k + 1 \<mapsto> \<lparr>wq_is_destroyed = False, od_wq = Some (next_id k), od_e = None,
                  od_original_dev_name = strscpy name PATH_MAX\<rparr>),
       next_id := next_id k + 2\<rparr>"

definition drop_device :: "kstate \<Rightarrow> kstate" where
  "drop_device k = k\<lparr>wqs := (wqs k)(next_id k := None), next_id := next_id k + 1\<rparr>"

definition defer_cleanup :: "object_data \<Rightarrow> kstate \<Rightarrow> kstate" where
  "defer_cleanup data k =
     (let node = (next_id k, \<lparr>device_wq = od_wq data, last_epoch = od_e data\<rparr>) in
      k\<lparr>system_wq := system_wq k @ [node], waddw_worklist := waddw_worklist k @ [node],
        next_id := next_id k + 1\<rparr>)"

definition retire :: "dev_env \<Rightarrow> nat \<Rightarrow> object_data \<Rightarrow> kstate \<Rightarrow> kstate" where
  "retire env oid data k =
     (prune_worklist (if kmalloc_wlistnode_ok env \<and> kmalloc_wargs_ok env then defer_cleanup data k else k))
       \<lparr>objs := (objs k)(oid := None)\<rparr>"

lemma init_object_data_ok:
  assumes "alloc_workqueue_ok env"
  shows "init_object_data env name k =
    (\<lparr>wq_is_destroyed = False, od_wq = Some (next_id k), od_e = None, od_original_dev_name = strscpy name PATH_MAX\<rparr>,
     k\<lparr>wqs := (wqs k)(next_id k \<mapsto> []), next_id := next_id k + 1\<rparr>)"
  using assms by (simp add: init_object_data_def Let_def)

lemma cleanup_notvisible_fresh:
  assumes "od_wq data = Some w" "od_e data = None" "wqs k w = Some []"
  shows "cleanup_object_data_notvisible bkt menv data k = Inr (k\<lparr>wqs := (wqs k)(w := None)\<rparr>)"
  using assms by (simp add: cleanup_object_data_notvisible_def do_waddw_def flush_workqueue_def destroy_epoch_id_def)

lemma ht_free_fn_live:
  assumes "objs k oid = Some data"
  shows "blkdevs_ht_free_fn env oid k = Inr (retire env oid data k)"
    and "loops_ht_free_fn env oid k = Inr (retire env oid data k)"
  using assms
  by (simp_all add: blkdevs_ht_free_fn_def loops_ht_free_fn_def cleanup_object_data_def Let_def retire_def defer_cleanup_def
      prune_worklist_def)

lemma insert_block_eq:
  assumes "kzalloc_object_ok env" "alloc_workqueue_ok env" "ht_insert_err env = 0"
  shows "try_to_insert_block_device bkt menv env d name k =
    (if d \<in> fst ` set (blkdevs_ht k) then Inr (- EEXIST, drop_device k)
     else Inr (0, (new_device env name k)\<lparr>blkdevs_ht := (d, next_id k + 1) # blkdevs_ht k\<rparr>))"
proof (cases "map_of (blkdevs_ht k) d")
  case None
  then have "d \<notin> fst ` set (blkdevs_ht k)" by (simp add: map_of_eq_None_iff)
  then show ?thesis using assms None
    by (simp add: try_to_insert_block_device_def init_object_data_ok Let_def new_device_def)
next
  case (Some old)
  then have "d \<in> fst ` set (blkdevs_ht k)" by (metis map_of_eq_None_iff option.distinct(1))
  then show ?thesis using assms Some
    by (simp add: try_to_insert_block_device_def init_object_data_ok Let_def cleanup_notvisible_fresh drop_device_def)
qed

lemma insert_loop_eq:
  assumes "kzalloc_object_ok env" "alloc_workqueue_ok env" "ht_insert_err env = 0"
    and "get_full_path env path PATH_MAX = Inr key"
  shows "try_to_insert_loop_device bkt menv env path name k =
    (if key \<in> fst ` set (loops_ht k) then Inr (- EEXIST, drop_device k)
     else Inr (0, (new_device env name k)\<lparr>loops_ht := (key, next_id k + 1) # loops_ht k\<rparr>))"
proof (cases "map_of (loops_ht k) key")
  case None
  then have "key \<notin> fst ` set (loops_ht k)" by (simp add: map_of_eq_None_iff)
  then show ?thesis using assms None
    by (simp add: try_to_insert_loop_device_def init_object_data_ok Let_def new_device_def)
next
  case (Some old)
  then have "key \<in> fst ` set (loops_ht k)" by (metis map_of_eq_None_iff option.distinct(1))
  then show ?thesis using assms Some
    by (simp add: try_to_insert_loop_device_def init_object_data_ok Let_def cleanup_notvisible_fresh drop_device_def)
qed

text \<open>The branches in which an allocation or the table fails.\<close>

lemma insert_block_fails:
  assumes "alloc_workqueue_ok env" "\<not> kzalloc_object_ok env \<or> ht_insert_err env \<noteq> 0"
  shows "try_to_insert_block_device bkt menv env d name k =
    (if \<not> kzalloc_object_ok env then Inr (- ENOMEM, k) else Inr (- EFAULT, drop_device k))"
  using assms
  by (simp add: try_to_insert_block_device_def init_object_data_ok Let_def cleanup_notvisible_fresh drop_device_def)

lemma insert_loop_fails:
  assumes "alloc_workqueue_ok env" "\<not> kzalloc_object_ok env \<or> ht_insert_err env \<noteq> 0"
    and "get_full_path env path PATH_MAX = Inr key"
  shows "try_to_insert_loop_device bkt menv env path name k =
    (if \<not> kzalloc_object_ok env then Inr (- ENOMEM, k) else Inr (- EFAULT, drop_device k))"
  using assms
  by (simp add: try_to_insert_loop_device_def init_object_data_ok Let_def cleanup_notvisible_fresh drop_device_def)

section \<open>The tables\<close>

text \<open>Keys and objects are unique, an object is in one table, and exactly the objects of the
  tables are allocated.\<close>

definition tables_ok :: "kstate \<Rightarrow> bool" where
  "tables_ok k \<longleftrightarrow>
     distinct (map fst (blkdevs_ht k)) \<and> distinct (map fst (loops_ht k)) \<and>
     distinct (map snd (blkdevs_ht k)) \<and> distinct (map snd (loops_ht k)) \<and>
     snd ` set (blkdevs_ht k) \<inter> snd ` set (loops_ht k) = {} \<and>
     dom (objs k) = snd ` set (blkdevs_ht k) \<union> snd ` set (loops_ht k) \<and>
     (\<forall>oid \<in> dom (objs k). oid < next_id k)"

lemma map_of_snd: "map_of t key = Some v \<Longrightarrow> v \<in> snd ` set t"
  by (metis image_eqI map_of_SomeD snd_conv)

lemma tables_ok_live:
  assumes "tables_ok k"
  shows "map_of (blkdevs_ht k) d = Some oid \<Longrightarrow> \<exists>data. objs k oid = Some data"
    and "map_of (loops_ht k) p = Some oid \<Longrightarrow> \<exists>data. objs k oid = Some data"
proof -
  have dom: "dom (objs k) = snd ` set (blkdevs_ht k) \<union> snd ` set (loops_ht k)"
    using assms by (simp add: tables_ok_def)
  show "map_of (blkdevs_ht k) d = Some oid \<Longrightarrow> \<exists>data. objs k oid = Some data"
    and "map_of (loops_ht k) p = Some oid \<Longrightarrow> \<exists>data. objs k oid = Some data"
    using dom by (metis UnI1 UnI2 domD map_of_snd)+
qed

lemma fst_ht_remove [simp]: "fst ` set (ht_remove key t) = fst ` set t - {key}"
  by (auto simp: ht_remove_def)

lemma snd_ht_remove:
  assumes "map_of t key = Some oid" "distinct (map fst t)" "distinct (map snd t)"
  shows "snd ` set (ht_remove key t) = snd ` set t - {oid}"
proof -
  have mem: "(key, oid) \<in> set t" by (rule map_of_SomeD[OF assms(1)])
  have "snd p = oid \<longleftrightarrow> fst p = key" if "p \<in> set t" for p
  proof
    assume "snd p = oid"
    with that mem assms(3) have "p = (key, oid)" by (metis distinct_map inj_onD snd_conv)
    then show "fst p = key" by simp
  next
    assume "fst p = key"
    with that mem assms(2) have "p = (key, oid)" by (metis distinct_map inj_onD fst_conv)
    then show "snd p = oid" by simp
  qed
  then show ?thesis by (auto simp: ht_remove_def image_iff)
qed

lemma distinct_ht_remove [simp]:
  "distinct (map f t) \<Longrightarrow> distinct (map f (ht_remove key t))"
  by (simp add: ht_remove_def distinct_map_filter)

lemma set_ht_remove_subset: "set (ht_remove key t) \<subseteq> set t"
  by (auto simp: ht_remove_def)

lemma tables_ok_drop [simp]: "tables_ok k \<Longrightarrow> tables_ok (drop_device k)"
  unfolding tables_ok_def drop_device_def by (simp add: less_Suc_eq)

lemma tables_ok_insert_block:
  assumes "tables_ok k" "d \<notin> fst ` set (blkdevs_ht k)"
  shows "tables_ok ((new_device env name k)\<lparr>blkdevs_ht := (d, Suc (next_id k)) # blkdevs_ht k\<rparr>)"
proof -
  note ok = assms(1)[unfolded tables_ok_def]
  from ok have new: "Suc (next_id k) \<notin> snd ` set (blkdevs_ht k) \<union> snd ` set (loops_ht k)"
    by (metis lessI order_less_asym)
  from ok have "\<forall>oid \<in> dom (objs k). oid < Suc (Suc (next_id k))" by (simp add: less_SucI)
  with ok new assms(2) show ?thesis unfolding tables_ok_def new_device_def by simp
qed

lemma tables_ok_insert_loop:
  assumes "tables_ok k" "d \<notin> fst ` set (loops_ht k)"
  shows "tables_ok ((new_device env name k)\<lparr>loops_ht := (d, Suc (next_id k)) # loops_ht k\<rparr>)"
proof -
  note ok = assms(1)[unfolded tables_ok_def]
  from ok have new: "Suc (next_id k) \<notin> snd ` set (blkdevs_ht k) \<union> snd ` set (loops_ht k)"
    by (metis lessI order_less_asym)
  from ok have "\<forall>oid \<in> dom (objs k). oid < Suc (Suc (next_id k))" by (simp add: less_SucI)
  with ok new assms(2) show ?thesis unfolding tables_ok_def new_device_def by simp
qed

lemma retire_simps [simp]:
  "objs (retire env oid data k) = (objs k)(oid := None)"
  "blkdevs_ht (retire env oid data k) = blkdevs_ht k"
  "loops_ht (retire env oid data k) = loops_ht k"
  "next_id k \<le> next_id (retire env oid data k)"
  "epochs (retire env oid data k) = epochs k"
  "wqs (retire env oid data k) = wqs k"
  "allow_reging_operation (retire env oid data k) = allow_reging_operation k"
  by (simp_all add: retire_def prune_worklist_def defer_cleanup_def Let_def)

text \<open>Taking an object out of one of two disjoint sets.\<close>

lemma split_remove:
  assumes "D = B \<union> L" "B \<inter> L = {}" "x \<in> B" "B' = B - {x}" "\<forall>y \<in> D. y < n" "n \<le> (m::nat)"
  shows "D - {x} = B' \<union> L \<and> B' \<inter> L = {} \<and> (\<forall>y \<in> D - {x}. y < m)"
proof -
  have "D - {x} = B' \<union> L \<and> B' \<inter> L = {}" using assms(1-4) by blast
  moreover have "y < m" if "y \<in> D" for y using assms(5,6) that by fastforce
  ultimately show ?thesis by blast
qed

lemma tables_ok_remove_block:
  assumes "tables_ok k" "map_of (blkdevs_ht k) d = Some oid"
  shows "tables_ok (retire env oid data (k\<lparr>blkdevs_ht := ht_remove d (blkdevs_ht k)\<rparr>))"
proof -
  note ok = assms(1)[unfolded tables_ok_def]
  have "dom (objs k) - {oid} = snd ` set (ht_remove d (blkdevs_ht k)) \<union> snd ` set (loops_ht k) \<and>
      snd ` set (ht_remove d (blkdevs_ht k)) \<inter> snd ` set (loops_ht k) = {} \<and>
      (\<forall>y \<in> dom (objs k) - {oid}. y < next_id (retire env oid data (k\<lparr>blkdevs_ht := ht_remove d (blkdevs_ht k)\<rparr>)))"
  proof (rule split_remove)
    show "dom (objs k) = snd ` set (blkdevs_ht k) \<union> snd ` set (loops_ht k)" using ok by (simp add: Un_commute)
    show "snd ` set (blkdevs_ht k) \<inter> snd ` set (loops_ht k) = {}" using ok by (simp add: Int_commute)
    show "oid \<in> snd ` set (blkdevs_ht k)" by (rule map_of_snd[OF assms(2)])
    show "snd ` set (ht_remove d (blkdevs_ht k)) = snd ` set (blkdevs_ht k) - {oid}"
      by (rule snd_ht_remove[OF assms(2)]) (use ok in simp_all)
    show "\<forall>y \<in> dom (objs k). y < next_id k" using ok by simp
    show "next_id k \<le> next_id (retire env oid data (k\<lparr>blkdevs_ht := ht_remove d (blkdevs_ht k)\<rparr>))"
      using retire_simps(4)[of "k\<lparr>blkdevs_ht := ht_remove d (blkdevs_ht k)\<rparr>"] by simp
  qed
  with ok show ?thesis unfolding tables_ok_def by (simp add: Un_commute Int_commute)
qed

lemma tables_ok_remove_loop:
  assumes "tables_ok k" "map_of (loops_ht k) d = Some oid"
  shows "tables_ok (retire env oid data (k\<lparr>loops_ht := ht_remove d (loops_ht k)\<rparr>))"
proof -
  note ok = assms(1)[unfolded tables_ok_def]
  have "dom (objs k) - {oid} = snd ` set (ht_remove d (loops_ht k)) \<union> snd ` set (blkdevs_ht k) \<and>
      snd ` set (ht_remove d (loops_ht k)) \<inter> snd ` set (blkdevs_ht k) = {} \<and>
      (\<forall>y \<in> dom (objs k) - {oid}. y < next_id (retire env oid data (k\<lparr>loops_ht := ht_remove d (loops_ht k)\<rparr>)))"
  proof (rule split_remove)
    show "dom (objs k) = snd ` set (loops_ht k) \<union> snd ` set (blkdevs_ht k)" using ok by (simp add: Un_commute)
    show "snd ` set (loops_ht k) \<inter> snd ` set (blkdevs_ht k) = {}" using ok by (simp add: Int_commute)
    show "oid \<in> snd ` set (loops_ht k)" by (rule map_of_snd[OF assms(2)])
    show "snd ` set (ht_remove d (loops_ht k)) = snd ` set (loops_ht k) - {oid}"
      by (rule snd_ht_remove[OF assms(2)]) (use ok in simp_all)
    show "\<forall>y \<in> dom (objs k). y < next_id k" using ok by simp
    show "next_id k \<le> next_id (retire env oid data (k\<lparr>loops_ht := ht_remove d (loops_ht k)\<rparr>))"
      using retire_simps(4)[of "k\<lparr>loops_ht := ht_remove d (loops_ht k)\<rparr>"] by simp
  qed
  with ok show ?thesis unfolding tables_ok_def by (simp add: Un_commute Int_commute)
qed

lemma remove_block_eq:
  assumes "tables_ok k"
  shows "try_to_remove_block_device env d arg k =
    (case map_of (blkdevs_ht k) d of
       None \<Rightarrow> Inr (- ENOKEY, k)
     | Some oid \<Rightarrow>
         if ht_remove_err env = 0
         then Inr (0, retire env oid (the (objs k oid)) (k\<lparr>blkdevs_ht := ht_remove d (blkdevs_ht k)\<rparr>))
         else Inr (- ENOKEY, k))"
  using tables_ok_live(1)[OF assms, of d]
  by (auto simp: try_to_remove_block_device_def ht_free_fn_live split: option.splits)

lemma remove_loop_eq:
  assumes "tables_ok k" "kmalloc_full_path_ok env" "get_full_path env path PATH_MAX = Inr key"
  shows "try_to_remove_loop_device env path arg k =
    (case map_of (loops_ht k) key of
       None \<Rightarrow> Inr (- ENOKEY, k)
     | Some oid \<Rightarrow>
         if ht_remove_err env = 0
         then Inr (0, retire env oid (the (objs k oid)) (k\<lparr>loops_ht := ht_remove key (loops_ht k)\<rparr>))
         else Inr (- ENOKEY, k))"
  using tables_ok_live(2)[OF assms(1), of key] assms(2-3)
  by (auto simp: try_to_remove_loop_device_def ht_free_fn_live split: option.splits)

section \<open>Registration as a set of devices\<close>

text \<open>The device a path stands for, when every call on the way succeeds: its number, or the full
  path of the image file. The keys are those of the mount probes.\<close>

definition reg_env_ok :: "dev_env \<Rightarrow> bool" where
  "reg_env_ok env \<longleftrightarrow> kzalloc_object_ok env \<and> alloc_workqueue_ok env \<and> ht_insert_err env = 0 \<and>
     kmalloc_full_path_ok env \<and> ht_remove_err env = 0"

definition full_path_key :: "dev_env \<Rightarrow> string \<Rightarrow> mountinfo option" where
  "full_path_key env path =
     (case get_full_path env path PATH_MAX of Inl err \<Rightarrow> None | Inr p \<Rightarrow> Some (LoopDevice p))"

definition device_key :: "dev_env \<times> string \<Rightarrow> mountinfo option" where
  "device_key n =
     (let (env, path) = n in
      if \<not> reg_env_ok env then None
      else case get_inode_from_cstr_path env path of
        Inl err \<Rightarrow> None
      | Inr None \<Rightarrow> None
      | Inr (Some ino) \<Rightarrow>
          (case v_type ino of
             S_IFBLK \<Rightarrow>
               if MAJOR (v_rdev ino) = LOOP_MAJOR then
                 (case get_loop_device_backing_file env (v_rdev ino) of
                    Inl err \<Rightarrow> None | Inr lo \<Rightarrow> full_path_key env lo)
               else Some (BlockDevice (v_rdev ino))
           | S_IFREG \<Rightarrow> full_path_key env path
           | S_IFOTHER \<Rightarrow> None))"

definition registered :: "kstate \<Rightarrow> mountinfo set" where
  "registered k = BlockDevice ` fst ` set (blkdevs_ht k) \<union> LoopDevice ` fst ` set (loops_ht k)"

lemma registered_iff: "minfo \<in> registered k \<longleftrightarrow> get_device_data_always minfo k \<noteq> None"
  by (cases minfo) (auto simp: registered_def get_device_data_always_def map_of_eq_None_iff)

datatype 'n reg_op = Reg 'n | Unreg 'n

fun run_reg_ops ::
  "('n \<Rightarrow> 's \<Rightarrow> fault + int \<times> 's) \<Rightarrow> ('n \<Rightarrow> 's \<Rightarrow> fault + int \<times> 's) \<Rightarrow> 'n reg_op list \<Rightarrow> 's \<Rightarrow>
     fault + int list \<times> 's" where
  "run_reg_ops ins rem [] s = Inr ([], s)"
| "run_reg_ops ins rem (op # ops) s =
     (case (case op of Reg n \<Rightarrow> ins n s | Unreg n \<Rightarrow> rem n s) of
        Inl f \<Rightarrow> Inl f
      | Inr (c, s1) \<Rightarrow>
          (case run_reg_ops ins rem ops s1 of Inl f \<Rightarrow> Inl f | Inr (cs, s2) \<Rightarrow> Inr (c # cs, s2)))"

fun set_op :: "('n \<Rightarrow> 'k option) \<Rightarrow> 'n reg_op \<Rightarrow> 'k set \<Rightarrow> int \<times> 'k set" where
  "set_op key (Reg n) K = (if the (key n) \<in> K then (- EEXIST, K) else (0, insert (the (key n)) K))"
| "set_op key (Unreg n) K = (if the (key n) \<in> K then (0, K - {the (key n)}) else (- ENOKEY, K))"

fun set_ops :: "('n \<Rightarrow> 'k option) \<Rightarrow> 'n reg_op list \<Rightarrow> 'k set \<Rightarrow> int list \<times> 'k set" where
  "set_ops key [] K = ([], K)"
| "set_ops key (op # ops) K =
     (let (c, K1) = set_op key op K; (cs, K2) = set_ops key ops K1 in (c # cs, K2))"

text \<open>The contract of the registry, and what its clients can conclude for any sequence of calls.\<close>

locale device_registry =
  fixes inv :: "'s \<Rightarrow> bool"
    and keys :: "'s \<Rightarrow> 'k set"
    and key_of :: "'n \<Rightarrow> 'k option"
    and ins :: "'n \<Rightarrow> 's \<Rightarrow> fault + int \<times> 's"
    and rem :: "'n \<Rightarrow> 's \<Rightarrow> fault + int \<times> 's"
  assumes ins_new: "inv s \<Longrightarrow> key_of n = Some d \<Longrightarrow> d \<notin> keys s \<Longrightarrow>
      \<exists>s'. ins n s = Inr (0, s') \<and> inv s' \<and> keys s' = insert d (keys s)"
    and ins_old: "inv s \<Longrightarrow> key_of n = Some d \<Longrightarrow> d \<in> keys s \<Longrightarrow>
      \<exists>s'. ins n s = Inr (- EEXIST, s') \<and> inv s' \<and> keys s' = keys s"
    and rem_old: "inv s \<Longrightarrow> key_of n = Some d \<Longrightarrow> d \<in> keys s \<Longrightarrow>
      \<exists>s'. rem n s = Inr (0, s') \<and> inv s' \<and> keys s' = keys s - {d}"
    and rem_new: "inv s \<Longrightarrow> key_of n = Some d \<Longrightarrow> d \<notin> keys s \<Longrightarrow>
      \<exists>s'. rem n s = Inr (- ENOKEY, s') \<and> inv s' \<and> keys s' = keys s"
begin

lemma step_refines:
  assumes "inv s" "key_of (case op of Reg n \<Rightarrow> n | Unreg n \<Rightarrow> n) \<noteq> None"
  shows "\<exists>c s'. (case op of Reg n \<Rightarrow> ins n s | Unreg n \<Rightarrow> rem n s) = Inr (c, s') \<and> inv s' \<and>
    set_op key_of op (keys s) = (c, keys s')"
proof (cases op)
  case (Reg n)
  with assms(2) obtain d where "key_of n = Some d" by auto
  then show ?thesis using ins_new[OF assms(1)] ins_old[OF assms(1)] Reg by (cases "d \<in> keys s") fastforce+
next
  case (Unreg n)
  with assms(2) obtain d where "key_of n = Some d" by auto
  then show ?thesis using rem_new[OF assms(1)] rem_old[OF assms(1)] Unreg by (cases "d \<in> keys s") fastforce+
qed

lemma ops_refine:
  assumes "inv s" "\<forall>op \<in> set ops. key_of (case op of Reg n \<Rightarrow> n | Unreg n \<Rightarrow> n) \<noteq> None"
  shows "\<exists>cs s'. run_reg_ops ins rem ops s = Inr (cs, s') \<and> inv s' \<and>
    set_ops key_of ops (keys s) = (cs, keys s')"
  using assms
proof (induction ops arbitrary: s)
  case Nil
  then show ?case by simp
next
  case (Cons op ops)
  obtain c s1 where 1: "(case op of Reg n \<Rightarrow> ins n s | Unreg n \<Rightarrow> rem n s) = Inr (c, s1)" "inv s1"
    "set_op key_of op (keys s) = (c, keys s1)"
    using step_refines[OF Cons.prems(1), of op] Cons.prems(2) by auto
  obtain cs s2 where "run_reg_ops ins rem ops s1 = Inr (cs, s2)" "inv s2"
    "set_ops key_of ops (keys s1) = (cs, keys s2)"
    using Cons.IH[OF 1(2)] Cons.prems(2) by auto
  with 1 show ?case by simp
qed

end

definition registry_ok :: "kstate \<Rightarrow> bool" where
  "registry_ok k \<longleftrightarrow> tables_ok k \<and> allow_reging_operation k"

definition reg_by :: "(u64 \<Rightarrow> nat) \<Rightarrow> ms_env \<Rightarrow> dev_env \<times> string \<Rightarrow> kstate \<Rightarrow> fault + int \<times> kstate" where
  "reg_by bkt menv n k = register_device bkt menv (fst n) (snd n) k"

definition unreg_by :: "dev_env \<times> string \<Rightarrow> kstate \<Rightarrow> fault + int \<times> kstate" where
  "unreg_by n k = unregister_device (fst n) (snd n) k"

lemma insert_simps [simp]:
  "allow_reging_operation (new_device env name k) = allow_reging_operation k"
  "allow_reging_operation (drop_device k) = allow_reging_operation k"
  "blkdevs_ht (new_device env name k) = blkdevs_ht k"
  "loops_ht (new_device env name k) = loops_ht k"
  "blkdevs_ht (drop_device k) = blkdevs_ht k"
  "loops_ht (drop_device k) = loops_ht k"
  by (simp_all add: new_device_def drop_device_def)

text \<open>A path with a key reaches one of the two insertions and one of the two removals.\<close>

lemma device_key_cases:
  assumes "device_key (env, path) = Some key" "allow_reging_operation k"
  obtains d where "key = BlockDevice d"
      "register_device bkt menv env path k = try_to_insert_block_device bkt menv env d path k"
      "unregister_device env path k = try_to_remove_block_device env d path k"
    | p lo where "key = LoopDevice p" "get_full_path env lo PATH_MAX = Inr p"
      "register_device bkt menv env path k = try_to_insert_loop_device bkt menv env lo path k"
      "unregister_device env path k = try_to_remove_loop_device env lo path k"
  using assms
  by (auto simp: device_key_def full_path_key_def register_device_def unregister_device_def
      do_device_reging_operation_def split: if_splits sum.splits option.splits file_type.splits)

lemma device_key_env: "device_key (env, path) = Some key \<Longrightarrow> reg_env_ok env"
  by (auto simp: device_key_def split: if_splits)

lemma in_registered [simp]:
  "BlockDevice d \<in> registered k \<longleftrightarrow> d \<in> fst ` set (blkdevs_ht k)"
  "LoopDevice p \<in> registered k \<longleftrightarrow> p \<in> fst ` set (loops_ht k)"
  by (auto simp: registered_def)

lemma registered_simps:
  "registered (drop_device k) = registered k"
  "registered ((new_device env name k)\<lparr>blkdevs_ht := (d, i) # blkdevs_ht k\<rparr>) = insert (BlockDevice d) (registered k)"
  "registered ((new_device env name k)\<lparr>loops_ht := (p, i) # loops_ht k\<rparr>) = insert (LoopDevice p) (registered k)"
  "registered (retire env oid data (k\<lparr>blkdevs_ht := ht_remove d (blkdevs_ht k)\<rparr>)) = registered k - {BlockDevice d}"
  "registered (retire env oid data (k\<lparr>loops_ht := ht_remove p (loops_ht k)\<rparr>)) = registered k - {LoopDevice p}"
  by (auto simp: registered_def)

lemma map_of_None_keys: "map_of t key = None \<Longrightarrow> key \<notin> fst ` set t"
  by (simp add: map_of_eq_None_iff)

lemma map_of_Some_keys: "map_of t key = Some v \<Longrightarrow> key \<in> fst ` set t"
  by (metis map_of_eq_None_iff option.distinct(1))

lemma register_keyed:
  assumes "registry_ok k" "device_key (env, path) = Some key"
  shows "\<exists>k'. register_device bkt menv env path k = Inr (if key \<in> registered k then - EEXIST else 0, k') \<and>
    registry_ok k' \<and> registered k' = insert key (registered k)"
proof (rule device_key_cases[OF assms(2), of k bkt menv])
  show "allow_reging_operation k" using assms(1) by (simp add: registry_ok_def)
next
  fix d assume d: "key = BlockDevice d"
    "register_device bkt menv env path k = try_to_insert_block_device bkt menv env d path k"
  show ?thesis
  proof (cases "d \<in> fst ` set (blkdevs_ht k)")
    case True
    then have "key \<in> registered k" by (simp add: d(1))
    with True show ?thesis using assms(1) device_key_env[OF assms(2)]
      by (simp only: d(2) insert_block_eq reg_env_ok_def) (simp add: registered_simps registry_ok_def insert_absorb)
  next
    case False
    then show ?thesis using assms(1) device_key_env[OF assms(2)]
      by (simp add: d insert_block_eq reg_env_ok_def registered_simps registry_ok_def tables_ok_insert_block)
  qed
next
  fix p lo assume d: "key = LoopDevice p" "get_full_path env lo PATH_MAX = Inr p"
    "register_device bkt menv env path k = try_to_insert_loop_device bkt menv env lo path k"
  show ?thesis
  proof (cases "p \<in> fst ` set (loops_ht k)")
    case True
    then have "key \<in> registered k" by (simp add: d(1))
    with True show ?thesis using assms(1) d(2) device_key_env[OF assms(2)]
      by (simp only: d(3) insert_loop_eq reg_env_ok_def) (simp add: registered_simps registry_ok_def insert_absorb)
  next
    case False
    then show ?thesis using assms(1) d(2) device_key_env[OF assms(2)]
      by (simp add: d(1,3) insert_loop_eq reg_env_ok_def registered_simps registry_ok_def tables_ok_insert_loop)
  qed
qed

lemma unregister_keyed:
  assumes "registry_ok k" "device_key (env, path) = Some key"
  shows "\<exists>k'. unregister_device env path k = Inr (if key \<in> registered k then 0 else - ENOKEY, k') \<and>
    registry_ok k' \<and> registered k' = registered k - {key}"
proof (rule device_key_cases[OF assms(2), of k])
  show "allow_reging_operation k" using assms(1) by (simp add: registry_ok_def)
next
  fix d assume d: "key = BlockDevice d"
    "unregister_device env path k = try_to_remove_block_device env d path k"
  show ?thesis
  proof (cases "map_of (blkdevs_ht k) d")
    case None
    then show ?thesis using assms(1) map_of_None_keys[OF None]
      by (simp add: d remove_block_eq registry_ok_def)
  next
    case (Some oid)
    then show ?thesis using assms(1) map_of_Some_keys[OF Some] device_key_env[OF assms(2)]
      by (simp add: d remove_block_eq registry_ok_def reg_env_ok_def registered_simps tables_ok_remove_block)
  qed
next
  fix p lo assume d: "key = LoopDevice p" "get_full_path env lo PATH_MAX = Inr p"
    "unregister_device env path k = try_to_remove_loop_device env lo path k"
  show ?thesis
  proof (cases "map_of (loops_ht k) p")
    case None
    then show ?thesis using assms(1) d(2) map_of_None_keys[OF None] device_key_env[OF assms(2)]
      by (simp add: d(1,3) remove_loop_eq registry_ok_def reg_env_ok_def)
  next
    case (Some oid)
    then show ?thesis using assms(1) d(2) map_of_Some_keys[OF Some] device_key_env[OF assms(2)]
      by (simp add: d(1,3) remove_loop_eq registry_ok_def reg_env_ok_def registered_simps tables_ok_remove_loop)
  qed
qed

interpretation registry: device_registry registry_ok registered device_key "reg_by bkt menv" unreg_by
  for bkt :: "u64 \<Rightarrow> nat" and menv :: ms_env
proof
  fix k and n :: "dev_env \<times> string" and key
  obtain env path where n: "n = (env, path)" by (cases n)
  assume a: "registry_ok k" "device_key n = Some key"
  note ra = register_keyed[OF a(1) a(2)[unfolded n], of bkt menv] and ua = unregister_keyed[OF a(1) a(2)[unfolded n]]
  show "\<exists>k'. reg_by bkt menv n k = Inr (0, k') \<and> registry_ok k' \<and> registered k' = insert key (registered k)"
    if "key \<notin> registered k" using ra that by (simp add: reg_by_def n)
  show "\<exists>k'. reg_by bkt menv n k = Inr (- EEXIST, k') \<and> registry_ok k' \<and> registered k' = registered k"
    if "key \<in> registered k" using ra that by (simp add: reg_by_def n insert_absorb)
  show "\<exists>k'. unreg_by n k = Inr (0, k') \<and> registry_ok k' \<and> registered k' = registered k - {key}"
    if "key \<in> registered k" using ua that by (simp add: unreg_by_def n)
  show "\<exists>k'. unreg_by n k = Inr (- ENOKEY, k') \<and> registry_ok k' \<and> registered k' = registered k"
    if "key \<notin> registered k" using ua that by (simp add: unreg_by_def n)
qed

section \<open>Properties\<close>

text \<open>C11: for every sequence of activation and deactivation requests whose paths stand for a device,
  the registry answers like a set of devices: 0 for a new device, \<open>-EEXIST\<close> for a registered one,
  \<open>-ENOKEY\<close> for the removal of an unknown one, and a device is found afterwards exactly if it is in
  the resulting set.\<close>

theorem registration_refines_set:
  assumes "registry_ok k"
    and "\<forall>op \<in> set ops. device_key (case op of Reg n \<Rightarrow> n | Unreg n \<Rightarrow> n) \<noteq> None"
  shows "\<exists>cs k'. run_reg_ops (reg_by bkt menv) unreg_by ops k = Inr (cs, k') \<and> registry_ok k' \<and>
    set_ops device_key ops (registered k) = (cs, {minfo. get_device_data_always minfo k' \<noteq> None})"
proof -
  have "{minfo. get_device_data_always minfo k' \<noteq> None} = registered k'" for k'
    using registered_iff by blast
  then show ?thesis using registry.ops_refine[OF assms, of bkt menv] by simp
qed

definition started :: "vfs \<Rightarrow> kstate" where
  "started v = snd (setup_devices 0 0 (initial_kstate v))"

definition sample_dev_env :: dev_env where
  "sample_dev_env = \<lparr>kern_path = (\<lambda>_. Inr 0), igrab = (\<lambda>_. Some \<lparr>v_type = S_IFBLK, v_rdev = 0x800001\<rparr>),
     d_path = (\<lambda>_ _. Inr ''/dev/sda1''), open_loop_bdev = (\<lambda>_. Inl (- ENOENT)), kzalloc_object_ok = True,
     alloc_workqueue_ok = True, ht_insert_err = 0, kmalloc_full_path_ok = True, ht_remove_err = 0,
     kmalloc_wlistnode_ok = True, kmalloc_wargs_ok = True\<rparr>"

lemma started_eq [start_defs]:
  "started v = (initial_kstate v)\<lparr>allow_reging_operation := True\<rparr>"
  by (simp add: started_def setup_devices_def initial_kstate_def)

declare initial_kstate_def [start_defs]

lemma started_ok: "registry_ok (started v)"
  by (simp add: started_eq registry_ok_def tables_ok_def initial_kstate_def)

lemma sample_key: "device_key (sample_dev_env, path) = Some (BlockDevice 0x800001)"
  by (simp add: device_key_def reg_env_ok_def sample_dev_env_def get_inode_from_cstr_path_def devno_defs)

theorem registration_refines_set_witness:
  "\<exists>k'. run_reg_ops (reg_by (\<lambda>_. 0) (sample_env \<lparr>wr_hdr = 40, wr_ext = 0, wr_payld = 2\<rparr>)) unreg_by
      [Reg (sample_dev_env, ''/dev/sda1''), Reg (sample_dev_env, ''/dev/sda1''),
       Unreg (sample_dev_env, ''/dev/sda1''), Unreg (sample_dev_env, ''/dev/sda1'')] (started empty_vfs) =
    Inr ([0, - EEXIST, 0, - ENOKEY], k')"
proof -
  let ?n = "(sample_dev_env, ''/dev/sda1'')"
  let ?ops = "[Reg ?n, Reg ?n, Unreg ?n, Unreg ?n]"
  have "registered (started empty_vfs) = {}"
    by (simp add: registered_def start_defs)
  then have spec: "fst (set_ops device_key ?ops (registered (started empty_vfs))) = [0, - EEXIST, 0, - ENOKEY]"
    by (simp add: sample_key)
  have "\<forall>op \<in> set ?ops. device_key (case op of Reg n \<Rightarrow> n | Unreg n \<Rightarrow> n) \<noteq> None"
    by (simp add: sample_key)
  from registration_refines_set[OF started_ok this, of "\<lambda>_. 0" "sample_env \<lparr>wr_hdr = 40, wr_ext = 0, wr_payld = 2\<rparr>"]
  show ?thesis using spec by (metis fst_conv)
qed

lemma cleanup_notvisible_NULL:
  "od_wq data = None \<Longrightarrow> cleanup_object_data_notvisible bkt menv data k = Inl NullDeref"
  by (simp add: cleanup_object_data_notvisible_def do_waddw_def)

lemma init_object_data_cases:
  obtains data where "od_wq data = None" "init_object_data env name k = (data, k)"
  | data where "od_wq data = Some (next_id k)" "od_e data = None"
      "init_object_data env name k = (data, k\<lparr>wqs := (wqs k)(next_id k \<mapsto> []), next_id := next_id k + 1\<rparr>)"
proof (cases "alloc_workqueue_ok env")
  case True
  show thesis by (rule that(2)[OF _ _ init_object_data_ok[OF True]]) simp_all
next
  case False
  then have "init_object_data env name k = (\<lparr>wq_is_destroyed = False, od_wq = None, od_e = None,
      od_original_dev_name = strscpy name PATH_MAX\<rparr>, k)"
    by (simp add: init_object_data_def Let_def)
  then show thesis by (rule that(1)[rotated]) simp
qed

lemma insert_error_state:
  assumes "try_to_insert_block_device bkt menv env d name k = Inr (c, k') \<or>
      try_to_insert_loop_device bkt menv env p name k = Inr (c, k')" "c \<noteq> 0"
  shows "k' = k \<or> k' = drop_device k"
  using assms
  by (cases rule: init_object_data_cases[of env name k])
    (auto simp: try_to_insert_block_device_def try_to_insert_loop_device_def cleanup_notvisible_NULL
      cleanup_notvisible_fresh drop_device_def split: if_splits sum.splits option.splits)

text \<open>C30: a failed activation leaves nothing behind: whatever error number is returned, the tables,
  objects, workqueues and epochs are those of before.\<close>

theorem register_error_rollback:
  assumes "next_id k \<notin> dom (wqs k)" "register_device bkt menv env path k = Inr (c, k')" "c \<noteq> 0"
  shows "blkdevs_ht k' = blkdevs_ht k \<and> loops_ht k' = loops_ht k \<and> objs k' = objs k \<and>
    wqs k' = wqs k \<and> epochs k' = epochs k \<and> kvfs k' = kvfs k"
proof -
  have "k' = k \<or> k' = drop_device k"
    using assms(2,3) by (auto simp: register_device_def do_device_reging_operation_def
        split: if_splits sum.splits option.splits file_type.splits dest: insert_error_state[OF disjI1] insert_error_state[OF disjI2])
  moreover have "(wqs k)(next_id k := None) = wqs k" using assms(1) by (auto simp: fun_upd_idem)
  ultimately show ?thesis by (auto simp: drop_device_def)
qed

theorem register_error_rollback_witness:
  "\<exists>k'. register_device (\<lambda>_. 0) (sample_env \<lparr>wr_hdr = 40, wr_ext = 0, wr_payld = 2\<rparr>)
      (sample_dev_env\<lparr>ht_insert_err := - ENOMEM\<rparr>) ''/dev/sda1'' (started empty_vfs) = Inr (- EFAULT, k') \<and>
    blkdevs_ht k' = [] \<and> wqs k' = Map.empty"
proof -
  let ?env = "sample_dev_env\<lparr>ht_insert_err := - ENOMEM\<rparr>"
  let ?menv = "sample_env \<lparr>wr_hdr = 40, wr_ext = 0, wr_payld = 2\<rparr>"
  have "register_device (\<lambda>_. 0) ?menv ?env ''/dev/sda1'' (started empty_vfs) =
      try_to_insert_block_device (\<lambda>_. 0) ?menv ?env 0x800001 ''/dev/sda1'' (started empty_vfs)"
    by (simp add: register_device_def do_device_reging_operation_def started_eq get_inode_from_cstr_path_def
        sample_dev_env_def devno_defs)
  also have "\<dots> = Inr (- EFAULT, drop_device (started empty_vfs))"
    by (subst insert_block_fails) (simp_all add: sample_dev_env_def)
  finally have r: "register_device (\<lambda>_. 0) ?menv ?env ''/dev/sda1'' (started empty_vfs) =
    Inr (- EFAULT, drop_device (started empty_vfs))" .
  with register_error_rollback[OF _ r] show ?thesis
    by (simp add: start_defs)
qed

text \<open>if the full path of an image file cannot be computed, \<open>try_to_insert_loop_device\<close> frees
  the new object and then returns \<open>PTR_ERR(new_obj->key)\<close>: the activation reads freed memory.\<close>

theorem register_path_error_uaf:
  assumes "allow_reging_operation k" "kzalloc_object_ok env"
    and "get_inode_from_cstr_path env path = Inr (Some ino)" "v_type ino = S_IFREG"
    and "get_full_path env path PATH_MAX = Inl err"
  shows "register_device bkt menv env path k = Inl UseAfterFree"
  using assms by (simp add: register_device_def do_device_reging_operation_def try_to_insert_loop_device_def)

theorem register_path_error_uaf_witness:
  "register_device (\<lambda>_. 0) (sample_env \<lparr>wr_hdr = 40, wr_ext = 0, wr_payld = 2\<rparr>)
     (sample_dev_env\<lparr>igrab := (\<lambda>_. Some \<lparr>v_type = S_IFREG, v_rdev = 0\<rparr>), d_path := (\<lambda>_ _. Inl (- 36))\<rparr>)
     ''img'' (started empty_vfs) = Inl UseAfterFree"
  by (rule register_path_error_uaf[of _ _ _ "\<lparr>v_type = S_IFREG, v_rdev = 0\<rparr>" "- 36"])
    (simp_all add: started_eq sample_dev_env_def get_inode_from_cstr_path_def get_full_path_def)

lemma distinct_snd_inj: "distinct (map snd t) \<Longrightarrow> (a, x) \<in> set t \<Longrightarrow> (b, x) \<in> set t \<Longrightarrow> a = b"
  by (metis distinct_map inj_onD prod.inject snd_conv)

text \<open>an image registered under a path of 64 characters or more is never found again: the key of
  the table is the full path, but the keys the probes build from the loop device are cut to 63
  characters, so no mount and no write of any block device reaches its object.\<close>

theorem long_image_never_found:
  assumes "tables_ok k" "map_of (loops_ht k) path = Some oid" "MY_LO_NAME_SIZE \<le> length path"
  shows "get_device_data_always (from_block_device_to_mountinfo bdev) k \<noteq> Some oid"
proof
  assume found: "get_device_data_always (from_block_device_to_mountinfo bdev) k = Some oid"
  note ok = assms(1)[unfolded tables_ok_def]
  have loop: "oid \<in> snd ` set (loops_ht k)" by (rule map_of_snd[OF assms(2)])
  show False
  proof (cases "MAJOR (bd_dev bdev) = LOOP_MAJOR")
    case False
    with found have "oid \<in> snd ` set (blkdevs_ht k)"
      by (simp add: get_device_data_always_def from_block_device_to_mountinfo_def map_of_snd)
    with ok loop show False by blast
  next
    case True
    let ?p = "strscpy (get_loop_backing_file bdev) MY_LO_NAME_SIZE"
    from True found have "(?p, oid) \<in> set (loops_ht k)"
      by (simp add: get_device_data_always_def from_block_device_to_mountinfo_def map_of_SomeD)
    moreover have "(path, oid) \<in> set (loops_ht k)" by (rule map_of_SomeD[OF assms(2)])
    moreover have "distinct (map snd (loops_ht k))" using ok by simp
    ultimately have "?p = path" by (rule distinct_snd_inj[rotated])
    moreover have "length ?p < MY_LO_NAME_SIZE" by (simp add: length_strscpy MY_LO_NAME_SIZE_def)
    ultimately show False using assms(3) by simp
  qed
qed

definition long_path :: string where "long_path = CHR ''/'' # replicate 70 (CHR ''a'')"

theorem long_image_never_found_witness:
  "get_device_data_always (from_block_device_to_mountinfo \<lparr>bd_dev = 0x700000, bd_lo_file_name = long_path\<rparr>)
     ((new_device sample_dev_env long_path (started empty_vfs))\<lparr>loops_ht := [(long_path, 1)]\<rparr>) \<noteq> Some 1"
proof (rule long_image_never_found[of _ long_path])
  have "tables_ok ((new_device sample_dev_env long_path (started empty_vfs))
      \<lparr>loops_ht := (long_path, Suc (next_id (started empty_vfs))) # loops_ht (started empty_vfs)\<rparr>)"
    by (rule tables_ok_insert_loop) (use started_ok in \<open>simp_all add: registry_ok_def start_defs\<close>)
  then show "tables_ok ((new_device sample_dev_env long_path (started empty_vfs))\<lparr>loops_ht := [(long_path, 1)]\<rparr>)"
    by (simp add: start_defs)
qed (simp_all add: long_path_def MY_LO_NAME_SIZE_def)

end
