(* ===== verification/Mounts.thy ===== *)
theory Mounts
  imports Devices
begin

text \<open>
  Mount detection and epoch counting, \<open>src/kernel/mounts.c\<close>: the entry handlers of the three
  kretprobes, which decide whether a call is a mount or an unmount of a block device, and the two
  callbacks that count the mounts of a registered device and open and close its epochs under
  \<open>general_lock\<close>. The probed function's arguments are the registers of \<open>pt_regs\<close>; a path is the
  chain of pointers the handlers follow together with the result of \<open>d_path\<close> on it.
\<close>

section \<open>Arguments of the probed functions\<close>

record super_block =
  s_bdev :: "block_device option"
  s_magic :: u64

record vfsmount =
  mnt_sb :: "super_block option"

record kpath =
  kp_mnt :: "vfsmount option"
  kp_d_path :: "int + string"

record pt_regs =
  regs_di :: "kpath option"
  regs_si :: "kpath option"
  regs_r10 :: u64
  regs_ax :: int

text \<open>\<open>struct tm\<close> as \<open>time64_to_tm\<close> fills it for the current time.\<close>

record tm =
  tm_year :: int
  tm_mon :: int
  tm_mday :: int
  tm_hour :: int
  tm_min :: int
  tm_sec :: int

section \<open>The date of an epoch\<close>

definition digit :: "nat \<Rightarrow> char" where
  "digit n = ''0123456789'' ! (n mod 10)"

function decimal :: "nat \<Rightarrow> string" where
  "decimal n = (if n < 10 then [digit n] else decimal (n div 10) @ [digit n])"
  by pat_completeness auto
termination
  by (relation "measure id") auto

declare decimal.simps [simp del]

text \<open>\<open>%0<w>d\<close>: zero padded to the width; negative numbers keep the sign in front.\<close>

definition fmt_0d :: "nat \<Rightarrow> int \<Rightarrow> string" where
  "fmt_0d w n =
     (let s = decimal (nat \<bar>n\<bar>) in
      if n < 0 then ''-'' @ replicate (w - 1 - length s) (CHR ''0'') @ s
      else replicate (w - length s) (CHR ''0'') @ s)"

definition fmt_mount_date :: "tm \<Rightarrow> string" where
  "fmt_mount_date t =
     ''-'' @ fmt_0d 4 (tm_year t + 1900) @ ''-'' @ fmt_0d 2 (tm_mon t + 1) @ ''-'' @ fmt_0d 2 (tm_mday t) @
     ''_'' @ fmt_0d 2 (tm_hour t) @ '':'' @ fmt_0d 2 (tm_min t) @ '':'' @ fmt_0d 2 (tm_sec t)"

text \<open>\<open>snprintf(first_mount_date, MNT_FMT_DATE_LEN, ...)\<close>.\<close>

definition mount_date :: "tm \<Rightarrow> string" where
  "mount_date t = take (MNT_FMT_DATE_LEN - 1) (fmt_mount_date t)"

section \<open>Counting mounts\<close>

definition new_epoch :: epoch where
  "new_epoch = \<lparr>n_currently_mounted = 0, first_mount_date = [], path_snapdir = None, cached_blocks = None\<rparr>"

text \<open>The callbacks run under \<open>general_lock\<close> on the object \<open>oid\<close>. \<open>ok\<close> is the result of their
  allocation. Reading a freed epoch is a fault.\<close>

definition epoch_event_cb_count_mount :: "bool \<Rightarrow> tm \<Rightarrow> nat \<Rightarrow> object_data \<Rightarrow> kstate \<Rightarrow> fault + kstate" where
  "epoch_event_cb_count_mount ok t oid data k =
     (case (case od_e data of
              Some eid \<Rightarrow> Some (eid, k)
            | None \<Rightarrow>
                if \<not> ok then None
                else let eid = next_id k in
                  Some (eid, k\<lparr>epochs := (epochs k)(eid \<mapsto> new_epoch), next_id := next_id k + 1,
                               objs := (objs k)(oid \<mapsto> data\<lparr>od_e := Some eid\<rparr>)\<rparr>)) of
        None \<Rightarrow> Inr k
      | Some (eid, k1) \<Rightarrow>
          (case epochs k1 eid of
             None \<Rightarrow> Inl UseAfterFree
           | Some ep \<Rightarrow>
               let ep1 = ep\<lparr>n_currently_mounted := n_currently_mounted ep + 1\<rparr>;
                   ep2 = (if n_currently_mounted ep1 = 1 then ep1\<lparr>first_mount_date := mount_date t\<rparr> else ep1)
               in Inr (k1\<lparr>epochs := (epochs k1)(eid \<mapsto> ep2)\<rparr>)))"

definition epoch_event_cb_count_umount :: "bool \<Rightarrow> nat \<Rightarrow> object_data \<Rightarrow> kstate \<Rightarrow> fault + kstate" where
  "epoch_event_cb_count_umount ok oid data k =
     (case od_e data of
        None \<Rightarrow> Inr k
      | Some eid \<Rightarrow>
          (case epochs k eid of
             None \<Rightarrow> Inl UseAfterFree
           | Some ep \<Rightarrow>
               let n = n_currently_mounted ep - 1;
                   k1 = k\<lparr>epochs := (epochs k)(eid \<mapsto> ep\<lparr>n_currently_mounted := n\<rparr>)\<rparr>
               in if sint n < 0 then Inr (k\<lparr>epochs := (epochs k)(eid \<mapsto> ep\<lparr>n_currently_mounted := 0\<rparr>)\<rparr>)
                  else if n = 0 \<and> \<not> wq_is_destroyed data then
                    let k2 = k1\<lparr>objs := (objs k1)(oid \<mapsto> data\<lparr>od_e := None\<rparr>)\<rparr> in
                    if \<not> ok then Inr k2
                    else (case od_wq data of
                        None \<Rightarrow> Inl NullDeref
                      | Some w \<Rightarrow>
                          (case wqs k2 w of
                             None \<Rightarrow> Inl UseAfterFree
                           | Some q \<Rightarrow> Inr (k2\<lparr>wqs := (wqs k2)(w \<mapsto> q @ [CleanupEpochWork eid])\<rparr>)))
                  else Inr k1))"

definition do_epoch_event_count ::
  "mountinfo \<Rightarrow> (nat \<Rightarrow> object_data \<Rightarrow> kstate \<Rightarrow> fault + kstate) \<Rightarrow> kstate \<Rightarrow> fault + kstate" where
  "do_epoch_event_count minfo cb k =
     (case get_device_data_always minfo k of
        None \<Rightarrow> Inr k
      | Some oid \<Rightarrow> (case objs k oid of None \<Rightarrow> Inl UseAfterFree | Some data \<Rightarrow> cb oid data k))"

definition epoch_count_mount :: "bool \<Rightarrow> tm \<Rightarrow> mountinfo \<Rightarrow> kstate \<Rightarrow> fault + kstate" where
  "epoch_count_mount ok t minfo k = do_epoch_event_count minfo (epoch_event_cb_count_mount ok t) k"

definition epoch_count_umount :: "bool \<Rightarrow> mountinfo \<Rightarrow> kstate \<Rightarrow> fault + kstate" where
  "epoch_count_umount ok minfo k = do_epoch_event_count minfo (epoch_event_cb_count_umount ok) k"

section \<open>The probe handlers\<close>

definition get_bdev_from_path :: "kpath \<Rightarrow> block_device option" where
  "get_bdev_from_path path =
     (case kp_mnt path of
        None \<Rightarrow> None
      | Some mnt \<Rightarrow> (case mnt_sb mnt of None \<Rightarrow> None | Some sb \<Rightarrow> s_bdev sb))"

definition is_root :: "bool \<Rightarrow> kpath \<Rightarrow> bool" where
  "is_root buf_ok path =
     (if \<not> buf_ok then False
      else case kp_d_path path of Inl err \<Rightarrow> False | Inr p \<Rightarrow> p = ''/'')"

text \<open>An entry handler returns 1 to skip the call, or 0 with the \<open>mountinfo\<close> of the instance.\<close>

definition new_mount_entry_handler :: "bool \<Rightarrow> pt_regs \<Rightarrow> int \<times> mountinfo option" where
  "new_mount_entry_handler buf_ok regs =
     (case regs_di regs of
        None \<Rightarrow> (1, None)
      | Some old_path \<Rightarrow>
          (case get_bdev_from_path old_path of
             None \<Rightarrow> (1, None)
           | Some bdev \<Rightarrow>
               if \<not> is_root buf_ok old_path then (1, None)
               else (0, Some (from_block_device_to_mountinfo bdev))))"

definition MS_REMOUNT :: u64 where "MS_REMOUNT = 32"
definition MS_BIND :: u64 where "MS_BIND = 4096"
definition MS_MOVE :: u64 where "MS_MOVE = 8192"
definition MS_UNBINDABLE :: u64 where "MS_UNBINDABLE = 0x20000"
definition MS_PRIVATE :: u64 where "MS_PRIVATE = 0x40000"
definition MS_SLAVE :: u64 where "MS_SLAVE = 0x80000"
definition MS_SHARED :: u64 where "MS_SHARED = 0x100000"

definition is_new_mount :: "u64 \<Rightarrow> bool" where
  "is_new_mount flags \<longleftrightarrow>
     \<not> (flags AND (MS_REMOUNT OR MS_BIND) = (MS_REMOUNT OR MS_BIND)) \<and>
     flags AND MS_REMOUNT = 0 \<and>
     flags AND MS_BIND = 0 \<and>
     flags AND (MS_SHARED OR MS_PRIVATE OR MS_SLAVE OR MS_UNBINDABLE) = 0 \<and>
     flags AND MS_MOVE = 0"

definition old_mount_entry_handler :: "pt_regs \<Rightarrow> int \<times> mountinfo option" where
  "old_mount_entry_handler regs =
     (let flags = regs_r10 regs in
      if \<not> is_new_mount flags then (1, None)
      else case regs_si regs of
        None \<Rightarrow> (1, None)
      | Some path \<Rightarrow>
          (case get_bdev_from_path path of
             None \<Rightarrow> (1, None)
           | Some bdev \<Rightarrow> (0, Some (from_block_device_to_mountinfo bdev))))"

definition mount_handler :: "bool \<Rightarrow> tm \<Rightarrow> mountinfo \<Rightarrow> pt_regs \<Rightarrow> kstate \<Rightarrow> fault + kstate" where
  "mount_handler ok t minfo regs k =
     (if regs_ax regs \<noteq> 0 then Inr k else epoch_count_mount ok t minfo k)"

text \<open>\<open>strncmp\<close> is called on the result of \<open>d_path\<close> without an \<open>IS_ERR\<close> test.\<close>

definition path_starts_with :: "bool \<Rightarrow> string \<Rightarrow> kpath \<Rightarrow> fault + bool" where
  "path_starts_with buf_ok s path =
     (if \<not> buf_ok then Inr False
      else case kp_d_path path of
        Inl err \<Rightarrow> Inl ErrPtrDeref
      | Inr p \<Rightarrow>
          let n = length s in
          Inr (take n p = s \<and> (if n < length p then p ! n = CHR ''/'' else True)))"

definition umount_entry_handler :: "bool \<Rightarrow> pt_regs \<Rightarrow> fault + int \<times> mountinfo option" where
  "umount_entry_handler buf_ok regs =
     (case regs_di regs of
        None \<Rightarrow> Inr (1, None)
      | Some path \<Rightarrow>
          (case path_starts_with buf_ok ''/run/systemd'' path of
             Inl f \<Rightarrow> Inl f
           | Inr True \<Rightarrow> Inr (1, None)
           | Inr False \<Rightarrow>
               (case get_bdev_from_path path of
                  None \<Rightarrow> Inr (1, None)
                | Some bdev \<Rightarrow> Inr (0, Some (from_block_device_to_mountinfo bdev)))))"

definition umount_handler :: "bool \<Rightarrow> mountinfo \<Rightarrow> pt_regs \<Rightarrow> kstate \<Rightarrow> fault + kstate" where
  "umount_handler ok minfo regs k =
     (if regs_ax regs \<noteq> 0 then Inr k else epoch_count_umount ok minfo k)"

text \<open>The kretprobes: an entry handler fills the data of the instance and returns 0, or makes the kernel skip
  the return handler. A mount goes through one of two functions of the kernel, depending on the caller.\<close>

definition kretprobe ::
  "(pt_regs \<Rightarrow> fault + int \<times> mountinfo option) \<Rightarrow> (mountinfo \<Rightarrow> pt_regs \<Rightarrow> kstate \<Rightarrow> fault + kstate) \<Rightarrow>
     pt_regs \<Rightarrow> kstate \<Rightarrow> fault + kstate" where
  "kretprobe entry_handler handler regs k =
     (case entry_handler regs of
        Inl f \<Rightarrow> Inl f
      | Inr (rv, None) \<Rightarrow> Inr k
      | Inr (rv, Some minfo) \<Rightarrow> if rv = 0 then handler minfo regs k else Inr k)"

definition krp_new_mount :: "bool \<Rightarrow> bool \<Rightarrow> tm \<Rightarrow> pt_regs \<Rightarrow> kstate \<Rightarrow> fault + kstate" where
  "krp_new_mount buf_ok ok t = kretprobe (\<lambda>regs. Inr (new_mount_entry_handler buf_ok regs)) (mount_handler ok t)"

definition krp_old_mount :: "bool \<Rightarrow> tm \<Rightarrow> pt_regs \<Rightarrow> kstate \<Rightarrow> fault + kstate" where
  "krp_old_mount ok t = kretprobe (\<lambda>regs. Inr (old_mount_entry_handler regs)) (mount_handler ok t)"

definition krp_umount :: "bool \<Rightarrow> bool \<Rightarrow> pt_regs \<Rightarrow> kstate \<Rightarrow> fault + kstate" where
  "krp_umount buf_ok ok = kretprobe (umount_entry_handler buf_ok) (umount_handler ok)"

datatype mount_call = NewMount pt_regs | OldMount pt_regs

definition krps_mount :: "bool \<Rightarrow> bool \<Rightarrow> tm \<Rightarrow> mount_call \<Rightarrow> kstate \<Rightarrow> fault + kstate" where
  "krps_mount buf_ok ok t call =
     (case call of NewMount regs \<Rightarrow> krp_new_mount buf_ok ok t regs | OldMount regs \<Rightarrow> krp_old_mount ok t regs)"

text \<open>Calls that mount or unmount \<open>bdev\<close> with success.\<close>

definition mounts_bdev :: "block_device \<Rightarrow> mount_call \<Rightarrow> bool" where
  "mounts_bdev bdev call =
     (case call of
        NewMount regs \<Rightarrow> regs_ax regs = 0 \<and> new_mount_entry_handler True regs = (0, Some (from_block_device_to_mountinfo bdev))
      | OldMount regs \<Rightarrow> regs_ax regs = 0 \<and> old_mount_entry_handler regs = (0, Some (from_block_device_to_mountinfo bdev)))"

definition umounts_bdev :: "block_device \<Rightarrow> pt_regs \<Rightarrow> bool" where
  "umounts_bdev bdev regs \<longleftrightarrow> regs_ax regs = 0 \<and>
     umount_entry_handler True regs = Inr (0, Some (from_block_device_to_mountinfo bdev))"

lemma krps_mount_bdev:
  assumes "mounts_bdev bdev call"
  shows "\<exists>regs. regs_ax regs = 0 \<and> krps_mount True ok t call k = mount_handler ok t (from_block_device_to_mountinfo bdev) regs k"
  using assms
  by (auto simp: mounts_bdev_def krps_mount_def krp_new_mount_def krp_old_mount_def kretprobe_def split: mount_call.splits)

lemma krp_umount_bdev:
  "umounts_bdev bdev regs \<Longrightarrow> regs_ax regs = 0 \<and>
     krp_umount True ok regs k = umount_handler ok (from_block_device_to_mountinfo bdev) regs k"
  by (simp add: umounts_bdev_def krp_umount_def kretprobe_def)

lemmas mount_defs = mount_handler_def epoch_count_mount_def do_epoch_event_count_def epoch_event_cb_count_mount_def

lemmas umount_defs = umount_handler_def epoch_count_umount_def do_epoch_event_count_def epoch_event_cb_count_umount_def

section \<open>Dates\<close>

definition digit_val :: "char \<Rightarrow> nat" where "digit_val c = of_char c - 48"

definition dec_val :: "string \<Rightarrow> nat" where
  "dec_val s = foldl (\<lambda>acc c. 10 * acc + digit_val c) 0 s"

lemma digit_val_digit: "digit_val (digit n) = n mod 10"
proof -
  have "\<forall>m \<in> set [0..<10]. digit_val (''0123456789'' ! m) = m"
    by code_simp
  then show ?thesis by (simp add: digit_def)
qed

lemma dec_val_snoc: "dec_val (s @ [c]) = 10 * dec_val s + digit_val c"
  by (simp add: dec_val_def)

lemma dec_val_decimal: "dec_val (decimal n) = n"
proof (induction n rule: decimal.induct)
  case (1 n)
  show ?case
  proof (cases "n < 10")
    case True
    then show ?thesis by (simp add: decimal.simps[of n] digit_val_digit dec_val_def)
  next
    case False
    then show ?thesis using 1 by (simp add: decimal.simps[of n] dec_val_snoc digit_val_digit)
  qed
qed

lemma dec_val_zeros: "dec_val (replicate k (CHR ''0'') @ s) = dec_val s"
  by (induction k) (simp_all add: dec_val_def digit_val_def)

lemma length_decimal: "n < 10 ^ Suc w \<Longrightarrow> length (decimal n) \<le> Suc w"
proof (induction w arbitrary: n)
  case 0
  then show ?case by (simp add: decimal.simps[of n])
next
  case (Suc w)
  show ?case
  proof (cases "n < 10")
    case True
    then show ?thesis by (simp add: decimal.simps[of n])
  next
    case False
    have "n div 10 < 10 ^ Suc w" using Suc.prems by (simp add: less_mult_imp_div_less mult.commute)
    from Suc.IH[OF this] False show ?thesis by (simp add: decimal.simps[of n])
  qed
qed

lemma fmt_0d_fits:
  assumes "0 \<le> n" "n < 10 ^ w" "0 < w"
  shows "length (fmt_0d w n) = w" and "dec_val (fmt_0d w n) = nat n"
proof -
  obtain v where w: "w = Suc v" using assms(3) by (cases w) auto
  have "nat n < 10 ^ Suc v" using assms(1,2) by (simp add: w nat_less_iff)
  from length_decimal[OF this] assms(1) show "length (fmt_0d w n) = w"
    by (simp add: fmt_0d_def Let_def w)
  show "dec_val (fmt_0d w n) = nat n"
    using assms(1) by (simp add: fmt_0d_def Let_def dec_val_zeros dec_val_decimal)
qed

lemma fmt_0d_inj:
  assumes "fmt_0d w m @ r = fmt_0d w n @ s" "0 \<le> m" "m < 10 ^ w" "0 \<le> n" "n < 10 ^ w" "0 < w"
  shows "m = n \<and> r = s"
proof -
  have "fmt_0d w m = fmt_0d w n \<and> r = s"
    using assms fmt_0d_fits(1)[of m w] fmt_0d_fits(1)[of n w] by (simp add: append_eq_append_conv)
  then show ?thesis using assms fmt_0d_fits(2)[of m w] fmt_0d_fits(2)[of n w] by (metis eq_nat_nat_iff)
qed

text \<open>The fields of a broken-down time with a four digit year.\<close>

definition tm_ok :: "tm \<Rightarrow> bool" where
  "tm_ok t \<longleftrightarrow> 0 \<le> tm_year t + 1900 \<and> tm_year t + 1900 \<le> 9999 \<and> 0 \<le> tm_mon t \<and> tm_mon t \<le> 11 \<and>
     1 \<le> tm_mday t \<and> tm_mday t \<le> 31 \<and> 0 \<le> tm_hour t \<and> tm_hour t \<le> 23 \<and>
     0 \<le> tm_min t \<and> tm_min t \<le> 59 \<and> 0 \<le> tm_sec t \<and> tm_sec t \<le> 60"

lemma length_fmt_mount_date: "tm_ok t \<Longrightarrow> length (fmt_mount_date t) = 20"
  by (simp add: fmt_mount_date_def tm_ok_def fmt_0d_fits(1))

lemma mount_date_facts:
  assumes "tm_ok t" "tm_ok t'"
  shows "mount_date t = fmt_mount_date t \<and> length (mount_date t) = 20 \<and> (mount_date t = mount_date t' \<longleftrightarrow> t = t')"
proof -
  have eq: "mount_date u = fmt_mount_date u" if "tm_ok u" for u
    using length_fmt_mount_date[OF that] by (simp add: mount_date_def MNT_FMT_DATE_LEN_def)
  have "t = t'" if "fmt_mount_date t = fmt_mount_date t'"
  proof -
    from that assms have "tm_year t + 1900 = tm_year t' + 1900 \<and> tm_mon t + 1 = tm_mon t' + 1 \<and>
        tm_mday t = tm_mday t' \<and> tm_hour t = tm_hour t' \<and> tm_min t = tm_min t' \<and> tm_sec t = tm_sec t'"
      unfolding fmt_mount_date_def tm_ok_def
      by (auto dest!: fmt_0d_inj fmt_0d_inj[of _ _ "[]" _ "[]", simplified])
    then show ?thesis by (cases t, cases t') simp
  qed
  then show ?thesis using eq assms length_fmt_mount_date by auto
qed

definition sample_tm :: tm where
  "sample_tm = \<lparr>tm_year = 125, tm_mon = 0, tm_mday = 1, tm_hour = 0, tm_min = 0, tm_sec = 0\<rparr>"

text \<open>the name suffix of an epoch's directory is exact: for a four digit year the date always
  fits the buffer of \<open>MNT_FMT_DATE_LEN\<close> characters, has 20 of them, and two epochs have the same
  suffix only if they were opened in the same second.\<close>

theorem mount_date_exact:
  assumes "tm_ok t" "tm_ok t'"
  shows "mount_date t = fmt_mount_date t \<and> length (mount_date t) = 20 \<and> (mount_date t = mount_date t' \<longleftrightarrow> t = t')"
  using assms by (rule mount_date_facts)

theorem mount_date_exact_witness:
  "mount_date sample_tm = ''-2025-01-01_00:00:00'' \<and>
   mount_date (sample_tm\<lparr>tm_sec := 1\<rparr>) \<noteq> mount_date sample_tm"
proof -
  have "fmt_mount_date sample_tm = ''-2025-01-01_00:00:00''"
    by (simp add: fmt_mount_date_def fmt_0d_def sample_tm_def decimal.simps digit_def)
  then show ?thesis using mount_date_exact[of sample_tm "sample_tm\<lparr>tm_sec := 1\<rparr>"]
    by (auto simp: tm_ok_def sample_tm_def)
qed

section \<open>Which calls are counted\<close>

text \<open>the five tests on the flags of \<open>path_mount\<close> amount to one mask: a call counts as a new
  mount exactly if none of the flags for remounts, binds, moves and propagation changes is set.\<close>

theorem is_new_mount_mask: "is_new_mount flags \<longleftrightarrow> flags AND 0x1E3020 = 0"
proof -
  have mask: "(0x1E3020 :: u64) = MS_REMOUNT OR MS_BIND OR (MS_SHARED OR MS_PRIVATE OR MS_SLAVE OR MS_UNBINDABLE) OR MS_MOVE"
    by (simp add: MS_REMOUNT_def MS_BIND_def MS_SHARED_def MS_PRIVATE_def MS_SLAVE_def MS_UNBINDABLE_def MS_MOVE_def)
  have "flags AND (MS_REMOUNT OR MS_BIND) \<noteq> MS_REMOUNT OR MS_BIND"
    if "flags AND MS_REMOUNT = 0" "flags AND MS_BIND = 0"
    using that by (simp add: bit.conj_disj_distrib) (simp add: MS_REMOUNT_def MS_BIND_def)
  then show ?thesis unfolding is_new_mount_def mask by (auto simp: bit.conj_disj_distrib or_eq_0_iff)
qed

text \<open>the prefix test of the unmount probe is a test on path components: it is true for the
  directory itself and for every path below it, and an error of \<open>d_path\<close> is dereferenced.\<close>

theorem path_starts_with_spec:
  "(kp_d_path path = Inr p \<longrightarrow>
      path_starts_with True s path = Inr (p = s \<or> (\<exists>r. p = s @ ''/'' @ r))) \<and>
   (kp_d_path path = Inl err \<longrightarrow> path_starts_with True s path = Inl ErrPtrDeref) \<and>
   path_starts_with False s path = Inr False"
proof -
  have "(take (length s) p = s \<and> (if length s < length p then p ! length s = CHR ''/'' else True)) \<longleftrightarrow>
      (p = s \<or> (\<exists>r. p = s @ ''/'' @ r))"
  proof
    assume a: "take (length s) p = s \<and> (if length s < length p then p ! length s = CHR ''/'' else True)"
    show "p = s \<or> (\<exists>r. p = s @ ''/'' @ r)"
    proof (cases "length s < length p")
      case True
      then have "p = take (length s) p @ p ! length s # drop (Suc (length s)) p" by (simp add: id_take_nth_drop)
      with a True show ?thesis by (metis append_Cons append_Nil)
    qed (use a in simp)
  qed auto
  then show ?thesis by (simp add: path_starts_with_def Let_def)
qed

theorem path_starts_with_spec_witness:
  "path_starts_with True ''/run'' \<lparr>kp_mnt = None, kp_d_path = Inr ''/run/x''\<rparr> = Inr True \<and>
   path_starts_with True ''/run'' \<lparr>kp_mnt = None, kp_d_path = Inr ''/runner''\<rparr> = Inr False"
  using path_starts_with_spec[of "\<lparr>kp_mnt = None, kp_d_path = Inr ''/run/x''\<rparr>" "''/run/x''" "''/run''"]
    path_starts_with_spec[of "\<lparr>kp_mnt = None, kp_d_path = Inr ''/runner''\<rparr>" "''/runner''" "''/run''"]
  by simp

section \<open>The life of an epoch\<close>

text \<open>The calls the probes see on one device, with the return value of the probed function; every
  allocation succeeds.\<close>

datatype mevent = MountCall tm int | UmountCall int

abbreviation (input) ret_regs :: "int \<Rightarrow> pt_regs" where
  "ret_regs ax \<equiv> \<lparr>regs_di = None, regs_si = None, regs_r10 = 0, regs_ax = ax\<rparr>"

fun run_mevents :: "mountinfo \<Rightarrow> mevent list \<Rightarrow> kstate \<Rightarrow> fault + kstate" where
  "run_mevents minfo [] k = Inr k"
| "run_mevents minfo (ev # evs) k =
     (case (case ev of MountCall t ax \<Rightarrow> mount_handler True t minfo (ret_regs ax) k
                     | UmountCall ax \<Rightarrow> umount_handler True minfo (ret_regs ax) k) of
        Inl f \<Rightarrow> Inl f | Inr k1 \<Rightarrow> run_mevents minfo evs k1)"

text \<open>The specification: the number of mounts and the date of the first one, if the device is
  mounted, and the number of epochs that were closed.\<close>

fun count_mevent :: "mevent \<Rightarrow> (int \<times> string) option \<times> nat \<Rightarrow> (int \<times> string) option \<times> nat" where
  "count_mevent (MountCall t ax) (v, c) =
     (if ax \<noteq> 0 then (v, c)
      else (case v of None \<Rightarrow> (Some (1, mount_date t), c) | Some (n, d) \<Rightarrow> (Some (n + 1, d), c)))"
| "count_mevent (UmountCall ax) (v, c) =
     (if ax \<noteq> 0 then (v, c)
      else (case v of None \<Rightarrow> (None, c)
                    | Some (n, d) \<Rightarrow> if n = 1 then (None, c + 1) else (Some (n - 1, d), c)))"

definition epoch_view :: "nat \<Rightarrow> kstate \<Rightarrow> (int \<times> string) option" where
  "epoch_view oid k =
     (case objs k oid of
        None \<Rightarrow> None
      | Some data \<Rightarrow>
          (case od_e data of
             None \<Rightarrow> None
           | Some eid \<Rightarrow> map_option (\<lambda>ep. (sint (n_currently_mounted ep), first_mount_date ep)) (epochs k eid)))"

fun is_cleanup :: "work \<Rightarrow> bool" where
  "is_cleanup (CleanupEpochWork e) = True"
| "is_cleanup (SnapshotWork e w) = False"

definition n_closed :: "nat \<Rightarrow> kstate \<Rightarrow> nat" where
  "n_closed w k = (case wqs k w of None \<Rightarrow> 0 | Some q \<Rightarrow> length (filter is_cleanup q))"

text \<open>A registered device with its queue; an open epoch is allocated and counts at least one mount.\<close>

definition dev_live :: "mountinfo \<Rightarrow> nat \<Rightarrow> nat \<Rightarrow> kstate \<Rightarrow> bool" where
  "dev_live minfo oid w k \<longleftrightarrow>
     get_device_data_always minfo k = Some oid \<and> wqs k w \<noteq> None \<and>
     (\<forall>e \<in> dom (epochs k). e < next_id k) \<and>
     (\<exists>data. objs k oid = Some data \<and> od_wq data = Some w \<and> \<not> wq_is_destroyed data \<and>
       (case od_e data of None \<Rightarrow> True
        | Some eid \<Rightarrow> (\<exists>ep. epochs k eid = Some ep \<and> 0 < sint (n_currently_mounted ep))))"

lemma dev_live_update:
  "get_device_data_always minfo (k\<lparr>epochs := ep, next_id := n, objs := ob\<rparr>) = get_device_data_always minfo k"
  "get_device_data_always minfo (k\<lparr>epochs := ep, objs := ob, wqs := wq\<rparr>) = get_device_data_always minfo k"
  "get_device_data_always minfo (k\<lparr>epochs := ep\<rparr>) = get_device_data_always minfo k"
  by (simp_all add: get_device_data_always_def split: mountinfo.splits)

text \<open>Below the bound of \<open>int\<close> the count is the number of mounts.\<close>

definition mount_count :: "(int \<times> string) option \<Rightarrow> int" where
  "mount_count v = (case v of None \<Rightarrow> 0 | Some (n, d) \<Rightarrow> n)"

lemma mount_result:
  assumes "dev_live minfo oid w k"
  obtains k' where "mount_handler True t minfo (ret_regs 0) k = Inr k'" "n_closed w k' = n_closed w k"
    "epoch_view oid k' = Some (case epoch_view oid k of None \<Rightarrow> (1, mount_date t) | Some (n, d) \<Rightarrow> (c_int (n + 1), d))"
    "mount_count (epoch_view oid k) + 1 < 2 ^ 31 \<Longrightarrow> dev_live minfo oid w k'"
proof -
  obtain data where d: "objs k oid = Some data" "od_wq data = Some w" "\<not> wq_is_destroyed data"
      "get_device_data_always minfo k = Some oid" "wqs k w \<noteq> None" "\<forall>e \<in> dom (epochs k). e < next_id k"
      "case od_e data of None \<Rightarrow> True | Some eid \<Rightarrow> \<exists>ep. epochs k eid = Some ep \<and> 0 < sint (n_currently_mounted ep)"
    using assms by (auto simp: dev_live_def)
  show thesis
  proof (cases "od_e data")
    case None
    let ?ep = "new_epoch\<lparr>n_currently_mounted := 1, first_mount_date := mount_date t\<rparr>"
    let ?k = "k\<lparr>epochs := (epochs k)(next_id k \<mapsto> ?ep), next_id := next_id k + 1,
                objs := (objs k)(oid \<mapsto> data\<lparr>od_e := Some (next_id k)\<rparr>)\<rparr>"
    have "mount_handler True t minfo (ret_regs 0) k = Inr ?k"
      using d None by (simp add: mount_defs Let_def new_epoch_def)
    moreover have "dev_live minfo oid w ?k"
      using d None by (auto simp: dev_live_def dev_live_update less_Suc_eq)
    ultimately show thesis
      by (intro that[of ?k]) (use d None in \<open>simp_all add: epoch_view_def n_closed_def\<close>)
  next
    case (Some eid)
    with d(7) obtain ep where ep: "epochs k eid = Some ep" "0 < sint (n_currently_mounted ep)" by auto
    let ?k = "k\<lparr>epochs := (epochs k)(eid \<mapsto> ep\<lparr>n_currently_mounted := n_currently_mounted ep + 1\<rparr>)\<rparr>"
    have "n_currently_mounted ep + 1 \<noteq> 1" using ep(2) by auto
    then have "mount_handler True t minfo (ret_regs 0) k = Inr ?k"
      using d Some ep by (simp add: mount_defs Let_def)
    moreover have view: "epoch_view oid k = Some (sint (n_currently_mounted ep), first_mount_date ep)"
      using d Some ep by (simp add: epoch_view_def)
    moreover have "dev_live minfo oid w ?k" if "sint (n_currently_mounted ep) + 1 < 2 ^ 31"
      using d Some ep that c_int_id[of "sint (n_currently_mounted ep) + 1"]
      by (auto simp: dev_live_def dev_live_update sint_s32_inc)
    ultimately show thesis
      by (intro that[of ?k]) (use d Some ep in \<open>simp_all add: epoch_view_def n_closed_def sint_s32_inc mount_count_def\<close>)
  qed
qed

lemma epoch_view_pos:
  assumes "dev_live minfo oid w k" "epoch_view oid k = Some (n, d)"
  shows "0 < n"
  using assms by (auto simp: dev_live_def epoch_view_def split: option.splits)

lemma mount_count_nonneg: "dev_live minfo oid w k \<Longrightarrow> 0 \<le> mount_count (epoch_view oid k)"
  using epoch_view_pos by (fastforce simp: mount_count_def split: option.splits)

lemma mount_step:
  assumes "dev_live minfo oid w k" "mount_count (epoch_view oid k) + 1 < 2 ^ 31"
  obtains k' where "mount_handler True t minfo (ret_regs 0) k = Inr k'" "dev_live minfo oid w k'"
    "(epoch_view oid k', n_closed w k') = count_mevent (MountCall t 0) (epoch_view oid k, n_closed w k)"
proof -
  note pos = epoch_view_pos[OF assms(1)]
  obtain k' where k': "mount_handler True t minfo (ret_regs 0) k = Inr k'" "n_closed w k' = n_closed w k"
    "epoch_view oid k' = Some (case epoch_view oid k of None \<Rightarrow> (1, mount_date t) | Some (n, d) \<Rightarrow> (c_int (n + 1), d))"
    "dev_live minfo oid w k'"
    by (rule mount_result[OF assms(1), of t]) (use assms(2) in blast)
  have "(epoch_view oid k', n_closed w k') = count_mevent (MountCall t 0) (epoch_view oid k, n_closed w k)"
    using k'(2,3) assms(2) c_int_id pos by (fastforce simp: mount_count_def split: option.splits)
  with k'(1,4) show thesis by (intro that)
qed

lemma umount_step:
  assumes "dev_live minfo oid w k"
  obtains k' where "umount_handler True minfo (ret_regs 0) k = Inr k'" "dev_live minfo oid w k'"
    "(epoch_view oid k', n_closed w k') = count_mevent (UmountCall 0) (epoch_view oid k, n_closed w k)"
proof -
  obtain data q where d: "objs k oid = Some data" "od_wq data = Some w" "\<not> wq_is_destroyed data"
      "get_device_data_always minfo k = Some oid" "wqs k w = Some q" "\<forall>e \<in> dom (epochs k). e < next_id k"
      "case od_e data of None \<Rightarrow> True | Some eid \<Rightarrow> \<exists>ep. epochs k eid = Some ep \<and> 0 < sint (n_currently_mounted ep)"
    using assms by (auto simp: dev_live_def)
  show thesis
  proof (cases "od_e data")
    case None
    have "umount_handler True minfo (ret_regs 0) k = Inr k"
      using d None by (simp add: umount_defs)
    then show thesis
      by (rule that) (use assms d None in \<open>simp_all add: epoch_view_def\<close>)
  next
    case (Some eid)
    with d(7) obtain ep where ep: "epochs k eid = Some ep" "0 < sint (n_currently_mounted ep)" by auto
    show thesis
    proof (cases "n_currently_mounted ep = 1")
      case True
      let ?k = "k\<lparr>epochs := (epochs k)(eid \<mapsto> ep\<lparr>n_currently_mounted := 0\<rparr>),
                  objs := (objs k)(oid \<mapsto> data\<lparr>od_e := None\<rparr>), wqs := (wqs k)(w \<mapsto> q @ [CleanupEpochWork eid])\<rparr>"
      have "umount_handler True minfo (ret_regs 0) k = Inr ?k"
        using d Some ep True by (simp add: umount_defs Let_def)
      moreover have "dev_live minfo oid w ?k"
        using d Some ep by (auto simp: dev_live_def dev_live_update)
      moreover have "(epoch_view oid ?k, n_closed w ?k) = count_mevent (UmountCall 0) (epoch_view oid k, n_closed w k)"
        using d Some ep True by (simp add: epoch_view_def n_closed_def)
      ultimately show thesis by (rule that)
    next
      case False
      let ?k = "k\<lparr>epochs := (epochs k)(eid \<mapsto> ep\<lparr>n_currently_mounted := n_currently_mounted ep - 1\<rparr>)\<rparr>"
      note dec = sint_s32_dec[OF ep(2)]
      have one: "sint (n_currently_mounted ep) \<noteq> 1" using False by simp
      then have more: "0 < sint (n_currently_mounted ep - 1)" using ep(2) unfolding dec by linarith
      then have "\<not> sint (n_currently_mounted ep - 1) < 0" "n_currently_mounted ep - 1 \<noteq> 0" by auto
      then have "umount_handler True minfo (ret_regs 0) k = Inr ?k"
        using d Some ep by (simp add: umount_defs Let_def)
      moreover have "dev_live minfo oid w ?k"
        using d Some ep more by (auto simp: dev_live_def dev_live_update)
      moreover have "(epoch_view oid ?k, n_closed w ?k) = count_mevent (UmountCall 0) (epoch_view oid k, n_closed w k)"
        using d Some ep False one by (simp add: epoch_view_def n_closed_def dec)
      ultimately show thesis by (rule that)
    qed
  qed
qed

lemma mevent_step:
  assumes "dev_live minfo oid w k" "mount_count (epoch_view oid k) + 1 < 2 ^ 31"
  obtains k' where "(case ev of MountCall t ax \<Rightarrow> mount_handler True t minfo (ret_regs ax) k
                     | UmountCall ax \<Rightarrow> umount_handler True minfo (ret_regs ax) k) = Inr k'"
    "dev_live minfo oid w k'" "(epoch_view oid k', n_closed w k') = count_mevent ev (epoch_view oid k, n_closed w k)"
proof (cases ev)
  case (MountCall t ax)
  show thesis
  proof (cases "ax = 0")
    case True
    from mount_step[OF assms, of t] that show thesis by (auto simp: MountCall True)
  next
    case False
    then show thesis using that[of k] assms by (simp add: MountCall mount_handler_def)
  qed
next
  case (UmountCall ax)
  show thesis
  proof (cases "ax = 0")
    case True
    from umount_step[OF assms(1)] that show thesis by (auto simp: UmountCall True)
  next
    case False
    then show thesis using that[of k] assms by (simp add: UmountCall umount_handler_def)
  qed
qed

lemma count_mevent_step: "0 \<le> mount_count v \<Longrightarrow> mount_count (fst (count_mevent ev (v, c))) \<le> mount_count v + 1"
  by (cases ev) (auto simp: mount_count_def split: option.splits)

text \<open>C12: for every sequence of fewer than 2 to the 31 mounts and unmounts of a registered device, counting those
  that are in place, the callbacks keep exactly the count of the specification in their \<open>int\<close>: an epoch is open exactly
  while the counted mounts outnumber the unmounts, it carries the date of the mount that opened it, failed calls
  count nothing, and one cleanup is queued behind the pending works for each epoch that ends.\<close>

theorem epoch_counting_refines:
  assumes "dev_live minfo oid w k" "mount_count (epoch_view oid k) + int (length evs) < 2 ^ 31"
  shows "\<exists>k'. run_mevents minfo evs k = Inr k' \<and> dev_live minfo oid w k' \<and>
    (epoch_view oid k', n_closed w k') = fold count_mevent evs (epoch_view oid k, n_closed w k)"
  using assms
proof (induction evs arbitrary: k)
  case Nil
  then show ?case by simp
next
  case (Cons ev evs)
  have "mount_count (epoch_view oid k) + 1 < 2 ^ 31" using Cons.prems(2) by simp
  then obtain k1 where k1: "(case ev of MountCall t ax \<Rightarrow> mount_handler True t minfo (ret_regs ax) k
                     | UmountCall ax \<Rightarrow> umount_handler True minfo (ret_regs ax) k) = Inr k1"
    "dev_live minfo oid w k1" "(epoch_view oid k1, n_closed w k1) = count_mevent ev (epoch_view oid k, n_closed w k)"
    by (rule mevent_step[OF Cons.prems(1), of ev])
  from count_mevent_step[OF mount_count_nonneg[OF Cons.prems(1)], of ev "n_closed w k"] have "mount_count (epoch_view oid k1) \<le> mount_count (epoch_view oid k) + 1"
    using arg_cong[OF k1(3), of fst] by simp
  then have "mount_count (epoch_view oid k1) + int (length evs) < 2 ^ 31" using Cons.prems(2) by simp
  from Cons.IH[OF k1(2) this] obtain k' where "run_mevents minfo evs k1 = Inr k'" "dev_live minfo oid w k'"
    "(epoch_view oid k', n_closed w k') = fold count_mevent evs (epoch_view oid k1, n_closed w k1)" by blast
  then show ?case by (intro exI[of _ k']) (simp only: run_mevents.simps k1(1) sum.case fold.simps comp_apply k1(3)[symmetric])
qed

definition one_device :: kstate where
  "one_device = (new_device sample_dev_env ''/dev/sda1'' (started empty_vfs))\<lparr>blkdevs_ht := [(0x800001, 1)]\<rparr>"

theorem epoch_counting_refines_witness:
  "\<exists>k'. run_mevents (BlockDevice 0x800001)
      [MountCall sample_tm 0, MountCall sample_tm 0, UmountCall 0, UmountCall (- EBUSY), UmountCall 0] one_device = Inr k' \<and>
    epoch_view 1 k' = None \<and> n_closed 0 k' = 1"
proof -
  have "dev_live (BlockDevice 0x800001) 1 0 one_device"
    by (simp add: dev_live_def one_device_def new_device_def start_defs get_device_data_always_def)
  moreover have "epoch_view 1 one_device = None" "n_closed 0 one_device = 0"
    by (simp_all add: epoch_view_def n_closed_def one_device_def new_device_def start_defs)
  ultimately show ?thesis
    using epoch_counting_refines[of "BlockDevice 0x800001" 1 0 one_device
        "[MountCall sample_tm 0, MountCall sample_tm 0, UmountCall 0, UmountCall (- EBUSY), UmountCall 0]"] by (auto simp: mount_count_def)
qed

text \<open>if the allocation of the cleanup work fails at the last unmount, the epoch is lost: the
  device no longer refers to it, no queue does, and it stays allocated.\<close>

theorem umount_alloc_failure_leaks_epoch:
  assumes "get_device_data_always minfo k = Some oid" "objs k oid = Some data" "od_e data = Some eid"
    and "epochs k eid = Some ep" "n_currently_mounted ep = 1" "\<not> wq_is_destroyed data" "regs_ax regs = 0"
  shows "\<exists>k'. umount_handler False minfo regs k = Inr k' \<and> objs k' oid = Some (data\<lparr>od_e := None\<rparr>) \<and>
    wqs k' = wqs k \<and> epochs k' eid \<noteq> None"
  using assms by (simp add: umount_defs Let_def)

theorem umount_alloc_failure_leaks_epoch_witness:
  "\<exists>k'. umount_handler False (BlockDevice 0x800001) (ret_regs 0)
      (one_device\<lparr>objs := [1 \<mapsto> \<lparr>wq_is_destroyed = False, od_wq = Some 0, od_e = Some 7, od_original_dev_name = []\<rparr>],
        epochs := [7 \<mapsto> sample_epoch]\<rparr>) = Inr k' \<and> epochs k' 7 \<noteq> None"
  using umount_alloc_failure_leaks_epoch[of "BlockDevice 0x800001"
      "one_device\<lparr>objs := [1 \<mapsto> \<lparr>wq_is_destroyed = False, od_wq = Some 0, od_e = Some 7, od_original_dev_name = []\<rparr>],
        epochs := [7 \<mapsto> sample_epoch]\<rparr>" 1
      "\<lparr>wq_is_destroyed = False, od_wq = Some 0, od_e = Some 7, od_original_dev_name = []\<rparr>" 7 sample_epoch "ret_regs 0"]
  by (auto simp: one_device_def get_device_data_always_def sample_epoch_def)

text \<open>C36: the probe of the old mount call looks at the wrong device. \<open>path_mount\<close> gets the path of the mount point,
  and the probe takes the device of the file system the mount point is on; it reads the flags, the fourth
  argument of a C function, from the register of the fourth argument of a system call. So a successful
  mount onto a directory of a registered device that is in use opens an epoch for, or is counted in the
  epoch of, that device, or is not counted at all, depending on the contents of \<open>r10\<close>; a registered
  device that is being mounted gets no epoch, and none of its blocks will be saved.\<close>

theorem old_mount_counts_mountpoint:
  assumes "regs_si regs = Some mnt_point" "get_bdev_from_path mnt_point = Some parent" "regs_ax regs = 0"
    and "dev_live (from_block_device_to_mountinfo parent) oid w k"
    and "objs k mounted = Some data" "od_e data = None" "mounted \<noteq> oid"
  shows "\<exists>k'. krp_old_mount True t regs k = Inr k' \<and> objs k' mounted = Some data \<and> epoch_view mounted k' = None \<and>
    epoch_view oid k' =
      (if is_new_mount (regs_r10 regs)
       then Some (case epoch_view oid k of None \<Rightarrow> (1, mount_date t) | Some (n, d) \<Rightarrow> (c_int (n + 1), d))
       else epoch_view oid k)"
proof (cases "is_new_mount (regs_r10 regs)")
  case False
  then show ?thesis using assms(5,6) by (simp add: krp_old_mount_def kretprobe_def old_mount_entry_handler_def epoch_view_def)
next
  case True
  let ?minfo = "from_block_device_to_mountinfo parent"
  have "krp_old_mount True t regs k = mount_handler True t ?minfo (ret_regs 0) k"
    using True assms(1-3) by (simp add: krp_old_mount_def kretprobe_def old_mount_entry_handler_def mount_handler_def)
  moreover obtain k' where k': "mount_handler True t ?minfo (ret_regs 0) k = Inr k'"
    "epoch_view oid k' = Some (case epoch_view oid k of None \<Rightarrow> (1, mount_date t) | Some (n, d) \<Rightarrow> (c_int (n + 1), d))"
    by (rule mount_result[OF assms(4), of t])
  moreover have "objs k' mounted = objs k mounted"
    using k'(1) assms(4,7) by (auto simp: mount_defs Let_def dev_live_def split: option.splits if_splits)
  ultimately show ?thesis using True assms(5,6) by (simp add: epoch_view_def)
qed

text \<open>\<open>/dev/sdb1\<close> is mounted on a directory of \<open>/dev/sda1\<close>; both are registered.\<close>

theorem old_mount_counts_mountpoint_witness:
  "\<exists>k'. krp_old_mount True sample_tm
      \<lparr>regs_di = None, regs_si = Some \<lparr>kp_mnt = Some \<lparr>mnt_sb = Some \<lparr>s_bdev = Some \<lparr>bd_dev = 0x800001, bd_lo_file_name = []\<rparr>,
         s_magic = 0\<rparr>\<rparr>, kp_d_path = Inr ''/mnt''\<rparr>, regs_r10 = 0, regs_ax = 0\<rparr>
      (one_device\<lparr>objs := (objs one_device)(3 \<mapsto> \<lparr>wq_is_destroyed = False, od_wq = Some 2, od_e = None, od_original_dev_name = ''/dev/sdb1''\<rparr>),
         blkdevs_ht := [(0x800011, 3), (0x800001, 1)]\<rparr>) = Inr k' \<and>
    epoch_view 3 k' = None \<and> epoch_view 1 k' = Some (1, mount_date sample_tm)"
proof -
  let ?parent = "\<lparr>bd_dev = 0x800001, bd_lo_file_name = []\<rparr> :: block_device"
  let ?p = "\<lparr>kp_mnt = Some \<lparr>mnt_sb = Some \<lparr>s_bdev = Some ?parent, s_magic = 0\<rparr>\<rparr>, kp_d_path = Inr ''/mnt''\<rparr> :: kpath"
  let ?d = "\<lparr>wq_is_destroyed = False, od_wq = Some 2, od_e = None, od_original_dev_name = ''/dev/sdb1''\<rparr> :: object_data"
  let ?k = "one_device\<lparr>objs := (objs one_device)(3 \<mapsto> ?d), blkdevs_ht := [(0x800011, 3), (0x800001, 1)]\<rparr>"
  have l: "dev_live (from_block_device_to_mountinfo ?parent) 1 0 ?k"
    by (simp add: dev_live_def one_device_def new_device_def start_defs get_device_data_always_def from_block_device_to_mountinfo_def devno_defs)
  have v: "epoch_view 1 ?k = None" by (simp add: epoch_view_def one_device_def new_device_def start_defs)
  have b: "get_bdev_from_path ?p = Some ?parent" by (simp add: get_bdev_from_path_def)
  have n: "is_new_mount 0" by (simp add: is_new_mount_mask)
  show ?thesis
    using old_mount_counts_mountpoint[OF _ b _ l, of "\<lparr>regs_di = None, regs_si = Some ?p, regs_r10 = 0, regs_ax = 0\<rparr>" 3 ?d sample_tm] v n
    by auto
qed

end
