(* ===== verification/Bdsnap.thy ===== *)
theory Bdsnap
  imports Mounts
begin

text \<open>
  The interface of the module to the file system probes, the end of \<open>src/kernel/snapshot.c\<close> and
  \<open>bdsnap/bdsnap.h\<close>: looking up the registered device behind a \<open>struct block_device\<close> and queueing
  the deferred work that saves a block. Both run inside one RCU section; here each call is one
  atomic step (\<open>Race\<close> looks at the accesses inside). A handle is the address of the \<open>object_data\<close>.
\<close>

section \<open>Operations\<close>

definition bdsnap_search_device :: "block_device \<Rightarrow> kstate \<Rightarrow> fault + nat option" where
  "bdsnap_search_device bdev k =
     (case get_device_data_always (from_block_device_to_mountinfo bdev) k of
        None \<Rightarrow> Inr None
      | Some oid \<Rightarrow>
          (case objs k oid of
             None \<Rightarrow> Inl UseAfterFree
           | Some data \<Rightarrow> if od_e data = None \<or> wq_is_destroyed data then Inr None else Inr (Some oid)))"

definition bdsnap_test_device :: "block_device \<Rightarrow> kstate \<Rightarrow> fault + bool" where
  "bdsnap_test_device bdev k =
     (case bdsnap_search_device bdev k of Inl f \<Rightarrow> Inl f | Inr handle \<Rightarrow> Inr (handle \<noteq> None))"

record bd_env =
  kmalloc_msw_ok :: bool
  kmalloc_block_ok :: bool

text \<open>\<open>memcpy\<close> reads \<open>blksize\<close> bytes behind \<open>blk\<close>.\<close>

definition queue_snapshot_work ::
  "bd_env \<Rightarrow> object_data \<Rightarrow> bytes \<Rightarrow> u64 \<Rightarrow> u32 \<Rightarrow> kstate \<Rightarrow> fault + bool \<times> kstate" where
  "queue_snapshot_work env obj blk sector blksize k =
     (case od_e obj of
        None \<Rightarrow> Inr (False, k)
      | Some eid \<Rightarrow>
          if \<not> kmalloc_msw_ok env \<or> \<not> kmalloc_block_ok env then Inr (False, k)
          else (case epochs k eid of
            None \<Rightarrow> Inl UseAfterFree
          | Some ep \<Rightarrow>
              if length blk < unat blksize then Inl OutOfBounds
              else
                let msw = \<lparr>block_nr = sector, blocksize = unat blksize, block = take (unat blksize) blk,
                           msw_original_dev_name = strscpy (od_original_dev_name obj) PATH_MAX,
                           msw_first_mount_date = first_mount_date ep\<rparr>
                in (case od_wq obj of
                     None \<Rightarrow> Inl NullDeref
                   | Some w \<Rightarrow>
                       (case wqs k w of
                          None \<Rightarrow> Inl UseAfterFree
                        | Some q \<Rightarrow> Inr (True, k\<lparr>wqs := (wqs k)(w \<mapsto> q @ [SnapshotWork eid msw])\<rparr>)))))"

text \<open>The block size is a \<open>u64\<close> here and an \<open>unsigned\<close> in \<open>queue_snapshot_work\<close>.\<close>

definition bdsnap_make_snapshot ::
  "bd_env \<Rightarrow> nat option \<Rightarrow> bytes \<Rightarrow> u64 \<Rightarrow> u64 \<Rightarrow> kstate \<Rightarrow> fault + bool \<times> kstate" where
  "bdsnap_make_snapshot env handle buf blocknr blksize k =
     (case handle of
        None \<Rightarrow> Inr (False, k)
      | Some oid \<Rightarrow>
          (case objs k oid of
             None \<Rightarrow> Inl UseAfterFree
           | Some data \<Rightarrow>
               if od_e data \<noteq> None \<and> \<not> wq_is_destroyed data
               then queue_snapshot_work env data buf blocknr (ucast blksize) k
               else Inr (False, k)))"

text \<open>What a file system probe does with a block: look up the device, then queue the block.\<close>

definition capture_block ::
  "bd_env \<Rightarrow> block_device \<Rightarrow> bytes \<Rightarrow> u64 \<Rightarrow> u64 \<Rightarrow> kstate \<Rightarrow> fault + bool \<times> kstate" where
  "capture_block env bdev buf blocknr blksize k =
     (case bdsnap_search_device bdev k of
        Inl f \<Rightarrow> Inl f
      | Inr handle \<Rightarrow> bdsnap_make_snapshot env handle buf blocknr blksize k)"

section \<open>Properties\<close>

lemma queue_snapshot_work_open:
  assumes "od_e obj = Some eid" "epochs k eid = Some ep" "od_wq obj = Some w" "wqs k w = Some q"
    and "kmalloc_msw_ok env" "kmalloc_block_ok env" "unat blksize \<le> length blk"
  shows "queue_snapshot_work env obj blk sector blksize k =
    Inr (True, k\<lparr>wqs := (wqs k)(w \<mapsto> q @ [SnapshotWork eid
      \<lparr>block_nr = sector, blocksize = unat blksize, block = take (unat blksize) blk,
       msw_original_dev_name = strscpy (od_original_dev_name obj) PATH_MAX,
       msw_first_mount_date = first_mount_date ep\<rparr>])\<rparr>)"
  using assms by (simp add: queue_snapshot_work_def Let_def)


definition mounted_device :: kstate where
  "mounted_device = one_device\<lparr>objs := [1 \<mapsto> \<lparr>wq_is_destroyed = False, od_wq = Some 0, od_e = Some 2,
     od_original_dev_name = ''/dev/sda1''\<rparr>], epochs := [2 \<mapsto> sample_epoch], next_id := 3\<rparr>"

lemma mounted_device_live: "dev_live (BlockDevice 0x800001) 1 0 mounted_device"
  by (simp add: dev_live_def mounted_device_def one_device_def new_device_def start_defs
      get_device_data_always_def sample_epoch_def)


end
