(* ===== verification/System.thy ===== *)
theory System
  imports Bdsnap
begin

text \<open>
  The module as one transition system: activations and deactivations, the mount and unmount
  probes, the file system probes, the workers of the device workqueues and of the system workqueue,
  changes of the file system by others, and module exit, in any order. Its invariant says who owns
  each epoch and each workqueue; from it follows that no worker, probe or request uses freed memory,
  and that module exit frees everything. The deferred works and the owners are in the lists of
  \<open>src/kernel/devices.c\<close>, \<open>mounts.c\<close> and \<open>snapshot.c\<close>.
\<close>

section \<open>The work of one queue\<close>

text \<open>What a queue refers to, and which epochs it or its owner is going to free: those of the queued
  cleanups and the final epoch that goes with the queue.\<close>

fun work_epoch :: "work \<Rightarrow> nat" where
  "work_epoch (SnapshotWork e w) = e"
| "work_epoch (CleanupEpochWork e) = e"

definition refs :: "work list \<Rightarrow> nat option \<Rightarrow> nat set" where
  "refs q f = work_epoch ` set q \<union> set_option f"

definition owned_epochs :: "work list \<Rightarrow> nat option \<Rightarrow> nat set" where
  "owned_epochs q f = work_epoch ` set (filter is_cleanup q) \<union> set_option f"

text \<open>Running the queue from the front and freeing the final epoch behind it touches allocated epochs
  only: nothing follows the cleanup of an epoch.\<close>

fun line_ok :: "nat set \<Rightarrow> work list \<Rightarrow> nat option \<Rightarrow> bool" where
  "line_ok E [] f \<longleftrightarrow> set_option f \<subseteq> E"
| "line_ok E (SnapshotWork e w # q) f \<longleftrightarrow> e \<in> E \<and> line_ok E q f"
| "line_ok E (CleanupEpochWork e # q) f \<longleftrightarrow> e \<in> E \<and> line_ok (E - {e}) q f"

lemma owned_refs: "owned_epochs q f \<subseteq> refs q f"
  by (auto simp: owned_epochs_def refs_def)

lemma refs_simps [simp]:
  "refs [] f = set_option f"
  "refs (x # q) f = insert (work_epoch x) (refs q f)"
  "refs (q @ [x]) f = insert (work_epoch x) (refs q f)"
  by (auto simp: refs_def)

lemma owned_simps [simp]:
  "owned_epochs [] f = set_option f"
  "owned_epochs (SnapshotWork e w # q) f = owned_epochs q f"
  "owned_epochs (CleanupEpochWork e # q) f = insert e (owned_epochs q f)"
  "owned_epochs (q @ [SnapshotWork e w]) f = owned_epochs q f"
  "owned_epochs (q @ [CleanupEpochWork e]) f = insert e (owned_epochs q f)"
  by (auto simp: owned_epochs_def)

lemma line_ok_refs: "line_ok E q f \<Longrightarrow> refs q f \<subseteq> E"
  by (induction E q f rule: line_ok.induct) auto

lemma line_ok_mono: "line_ok E q f \<Longrightarrow> E \<subseteq> E' \<Longrightarrow> line_ok E' q f"
proof (induction E q f arbitrary: E' rule: line_ok.induct)
  case (3 E e q f)
  then have "line_ok (E' - {e}) q f" by (metis Diff_mono line_ok.simps(3) order_refl)
  with 3 show ?case by auto
qed auto

lemma line_ok_remove: "line_ok E q f \<Longrightarrow> X \<inter> refs q f = {} \<Longrightarrow> line_ok (E - X) q f"
proof (induction E q f rule: line_ok.induct)
  case (3 E e q f)
  then have "line_ok (E - {e} - X) q f" by simp
  moreover have "E - {e} - X = E - X - {e}" by blast
  ultimately show ?case using 3 by auto
qed auto

lemma line_ok_close: "line_ok E q (Some e) \<Longrightarrow> line_ok E (q @ [CleanupEpochWork e]) None"
  by (induction E q "Some e" rule: line_ok.induct) auto

lemma line_ok_forget: "line_ok E q f \<Longrightarrow> line_ok E q None"
  by (induction E q f rule: line_ok.induct) auto

lemma line_ok_open: "line_ok E q None \<Longrightarrow> e \<notin> E \<Longrightarrow> line_ok (insert e E) q (Some e)"
proof (induction E q "None :: nat option" rule: line_ok.induct)
  case (3 E e' q)
  then have "line_ok (insert e (E - {e'})) q (Some e)" "e \<noteq> e'" by auto
  then show ?case using 3 by (simp add: insert_Diff_if)
qed auto

lemma line_ok_snapshot: "line_ok E q (Some e) \<Longrightarrow> line_ok E (q @ [SnapshotWork e w]) (Some e)"
  by (induction E q "Some e" rule: line_ok.induct) auto

section \<open>All queues\<close>

text \<open>\<open>fin\<close> gives the epoch that is freed when the queue is destroyed. With \<open>T\<close> no epoch is lost.\<close>

definition queues_ok :: "bool \<Rightarrow> (nat \<rightharpoonup> work list) \<Rightarrow> nat set \<Rightarrow> (nat \<Rightarrow> nat option) \<Rightarrow> bool" where
  "queues_ok T W E fin \<longleftrightarrow>
     (\<forall>w q. W w = Some q \<longrightarrow> line_ok E q (fin w)) \<and>
     (\<forall>w w' q q'. W w = Some q \<longrightarrow> W w' = Some q' \<longrightarrow> w \<noteq> w' \<longrightarrow> refs q (fin w) \<inter> owned_epochs q' (fin w') = {}) \<and>
     (T \<longrightarrow> (\<forall>e \<in> E. \<exists>w q. W w = Some q \<and> e \<in> owned_epochs q (fin w)))"

lemma queues_okI:
  assumes "\<And>w q. W w = Some q \<Longrightarrow> line_ok E q (fin w)"
    and "\<And>w w' q q'. W w = Some q \<Longrightarrow> W w' = Some q' \<Longrightarrow> w \<noteq> w' \<Longrightarrow>
      refs q (fin w) \<inter> owned_epochs q' (fin w') = {}"
    and "\<And>e. T \<Longrightarrow> e \<in> E \<Longrightarrow> \<exists>w q. W w = Some q \<and> e \<in> owned_epochs q (fin w)"
  shows "queues_ok T W E fin"
  using assms unfolding queues_ok_def by blast

lemma queues_okD:
  assumes "queues_ok T W E fin"
  shows "W w = Some q \<Longrightarrow> line_ok E q (fin w)"
    and "W w = Some q \<Longrightarrow> W w' = Some q' \<Longrightarrow> w \<noteq> w' \<Longrightarrow> refs q (fin w) \<inter> owned_epochs q' (fin w') = {}"
    and "T \<Longrightarrow> e \<in> E \<Longrightarrow> \<exists>w q. W w = Some q \<and> e \<in> owned_epochs q (fin w)"
  using assms unfolding queues_ok_def by blast+

lemma queues_ok_new:
  assumes "queues_ok T W E fin" "W w = None"
  shows "queues_ok T (W(w \<mapsto> [])) E (fin(w := None))"
proof (rule queues_okI)
  fix v q assume "(W(w \<mapsto> [])) v = Some q"
  then show "line_ok E q ((fin(w := None)) v)" using queues_okD(1)[OF assms(1)] by (auto split: if_splits)
next
  fix v v' q q' assume "(W(w \<mapsto> [])) v = Some q" "(W(w \<mapsto> [])) v' = Some q'" "v \<noteq> v'"
  then show "refs q ((fin(w := None)) v) \<inter> owned_epochs q' ((fin(w := None)) v') = {}"
    using queues_okD(2)[OF assms(1)] by (auto split: if_splits)
next
  fix e assume "T" "e \<in> E"
  then obtain v q where "W v = Some q" "e \<in> owned_epochs q (fin v)" using queues_okD(3)[OF assms(1)] by blast
  moreover from this assms(2) have "v \<noteq> w" by auto
  ultimately show "\<exists>v q. (W(w \<mapsto> [])) v = Some q \<and> e \<in> owned_epochs q ((fin(w := None)) v)" by auto
qed

text \<open>Replacing the line of one queue by one that refers to no more, and owns what it owned except
  for epochs that are gone.\<close>

lemma queues_ok_replace:
  assumes Q: "queues_ok T W E fin" and w: "W w = Some q"
    and line: "line_ok E' q' f'" and refs: "refs q' f' \<subseteq> refs q (fin w) \<union> N" and own: "owned_epochs q' f' \<subseteq> owned_epochs q (fin w) \<union> N"
    and N: "N \<inter> E = {}" and E: "E \<subseteq> E' \<union> owned_epochs q (fin w)" "E' \<subseteq> E \<union> N"
    and tight: "T \<longrightarrow> E' \<inter> (owned_epochs q (fin w) \<union> N) \<subseteq> owned_epochs q' f'"
  shows "queues_ok T (W(w \<mapsto> q')) E' (fin(w := f'))"
proof (rule queues_okI)
  have other: "line_ok E' p (fin v)" if "W v = Some p" "v \<noteq> w" for v p
  proof -
    have "refs p (fin v) \<inter> owned_epochs q (fin w) = {}" using queues_okD(2)[OF Q that(1) w that(2)] .
    moreover have "refs p (fin v) \<subseteq> E" by (rule line_ok_refs[OF queues_okD(1)[OF Q that(1)]])
    moreover have "finite (refs p (fin v))" by (simp add: refs_def)
    ultimately have sub: "refs p (fin v) \<inter> (E - E') = {}" using E(1) by blast
    from line_ok_remove[OF queues_okD(1)[OF Q that(1)], of "E - E'"] sub have "line_ok (E - (E - E')) p (fin v)" by blast
    then show ?thesis by (rule line_ok_mono) blast
  qed
  show "line_ok E' p ((fin(w := f')) v)" if "(W(w \<mapsto> q')) v = Some p" for v p
    using that other line by (auto split: if_splits)
  show "refs p ((fin(w := f')) v) \<inter> owned_epochs p' ((fin(w := f')) v') = {}"
    if "(W(w \<mapsto> q')) v = Some p" "(W(w \<mapsto> q')) v' = Some p'" "v \<noteq> v'" for v v' p p'
  proof -
    have inE: "refs r (fin u) \<subseteq> E" if "W u = Some r" for u r by (rule line_ok_refs[OF queues_okD(1)[OF Q that]])
    consider "v = w" | "v' = w" | "v \<noteq> w" "v' \<noteq> w" by blast
    then show ?thesis
    proof cases
      case 1
      with that have p: "p = q'" "W v' = Some p'" "v' \<noteq> w" by auto
      have "refs q (fin w) \<inter> owned_epochs p' (fin v') = {}" by (rule queues_okD(2)[OF Q w p(2)]) (use p in auto)
      moreover have "owned_epochs p' (fin v') \<subseteq> E" using inE[OF p(2)] owned_refs by blast
      ultimately show ?thesis using refs N p 1 by auto
    next
      case 2
      with that have p: "p' = q'" "W v = Some p" "v \<noteq> w" by auto
      have "refs p (fin v) \<inter> owned_epochs q (fin w) = {}" by (rule queues_okD(2)[OF Q p(2) w p(3)])
      moreover have "refs p (fin v) \<subseteq> E" by (rule inE[OF p(2)])
      ultimately show ?thesis using own N p 2 by auto
    next
      case 3
      with that queues_okD(2)[OF Q] show ?thesis by simp
    qed
  qed
  show "\<exists>v p. (W(w \<mapsto> q')) v = Some p \<and> e \<in> owned_epochs p ((fin(w := f')) v)" if T: "T" and e: "e \<in> E'" for e
  proof (cases "e \<in> owned_epochs q (fin w) \<union> N")
    case True
    then have "e \<in> owned_epochs q' f'" using tight T e by blast
    then show ?thesis by (intro exI[of _ w] exI[of _ q']) simp
  next
    case False
    with e E(2) have "e \<in> E" by blast
    then obtain v p where v: "W v = Some p" "e \<in> owned_epochs p (fin v)" using queues_okD(3)[OF Q T] by blast
    with False w have "v \<noteq> w" by auto
    with v show ?thesis by (intro exI[of _ v] exI[of _ p]) simp
  qed
qed

lemma queues_ok_unset:
  assumes "queues_ok T W E fin" "W w = Some []"
  shows "queues_ok T (W(w := None)) (E - set_option (fin w)) fin"
proof (rule queues_okI)
  fix v q assume "(W(w := None)) v = Some q"
  then have v: "W v = Some q" "v \<noteq> w" by (auto split: if_splits)
  have "refs q (fin v) \<inter> set_option (fin w) = {}" using queues_okD(2)[OF assms(1) v(1) assms(2) v(2)] by simp
  then show "line_ok (E - set_option (fin w)) q (fin v)"
    using queues_okD(1)[OF assms(1) v(1)] by (intro line_ok_remove) auto
next
  fix v v' q q' assume "(W(w := None)) v = Some q" "(W(w := None)) v' = Some q'" "v \<noteq> v'"
  then show "refs q (fin v) \<inter> owned_epochs q' (fin v') = {}"
    using queues_okD(2)[OF assms(1)] by (auto split: if_splits)
next
  fix e assume "T" "e \<in> E - set_option (fin w)"
  then obtain v q where "W v = Some q" "e \<in> owned_epochs q (fin v)" "e \<notin> set_option (fin w)"
    using queues_okD(3)[OF assms(1)] by blast
  moreover from this assms(2) have "v \<noteq> w" by auto
  ultimately show "\<exists>v q. (W(w := None)) v = Some q \<and> e \<in> owned_epochs q (fin v)" by auto
qed

text \<open>The changes of one queue that the operations make.\<close>

lemma queues_ok_open:
  assumes "queues_ok T W E fin" "W w = Some q" "fin w = None" "e \<notin> E"
  shows "queues_ok T W (insert e E) (fin(w := Some e))"
proof -
  have "queues_ok T (W(w \<mapsto> q)) (insert e E) (fin(w := Some e))"
    by (rule queues_ok_replace[OF assms(1,2), where N = "{e}"])
      (use assms queues_okD(1)[OF assms(1,2)] in \<open>auto simp: refs_def owned_epochs_def intro: line_ok_open\<close>)
  then show ?thesis using assms(2) by (simp add: fun_upd_idem)
qed

lemma queues_ok_close:
  assumes "queues_ok T W E fin" "W w = Some q" "fin w = Some e"
  shows "queues_ok T (W(w \<mapsto> q @ [CleanupEpochWork e])) E (fin(w := None))"
  by (rule queues_ok_replace[OF assms(1,2), where N = "{}"])
    (use assms queues_okD(1)[OF assms(1,2)] in \<open>auto simp: refs_def owned_epochs_def intro: line_ok_close\<close>)

lemma queues_ok_forget:
  assumes "queues_ok T W E fin" "W w = Some q" "\<not> T"
  shows "queues_ok T W E (fin(w := None))"
proof -
  have "queues_ok T (W(w \<mapsto> q)) E (fin(w := None))"
    by (rule queues_ok_replace[OF assms(1,2), where N = "{}"])
      (use assms queues_okD(1)[OF assms(1,2)] in \<open>auto simp: refs_def owned_epochs_def intro: line_ok_forget\<close>)
  then show ?thesis using assms(2) by (simp add: fun_upd_idem)
qed

lemma queues_ok_snapshot:
  assumes "queues_ok T W E fin" "W w = Some q" "fin w = Some e"
  shows "queues_ok T (W(w \<mapsto> q @ [SnapshotWork e m])) E fin"
proof -
  have "queues_ok T (W(w \<mapsto> q @ [SnapshotWork e m])) E (fin(w := Some e))"
    by (rule queues_ok_replace[OF assms(1,2), where N = "{}"])
      (use assms queues_okD(1)[OF assms(1,2)] in \<open>auto simp: refs_def owned_epochs_def intro: line_ok_snapshot\<close>)
  then show ?thesis using assms(3) by (metis fun_upd_triv)
qed

lemma queues_ok_pop_snapshot:
  assumes "queues_ok T W E fin" "W w = Some (SnapshotWork e m # q)"
  shows "e \<in> E" and "queues_ok T (W(w \<mapsto> q)) E fin"
proof -
  show "e \<in> E" using queues_okD(1)[OF assms] by simp
  have "queues_ok T (W(w \<mapsto> q)) E (fin(w := fin w))"
    by (rule queues_ok_replace[OF assms, where N = "{}"]) (use queues_okD(1)[OF assms] in auto)
  then show "queues_ok T (W(w \<mapsto> q)) E fin" by simp
qed

lemma line_ok_not_owned: "line_ok (E - {e}) q f \<Longrightarrow> e \<notin> refs q f"
  using line_ok_refs by blast

lemma queues_ok_pop_cleanup:
  assumes "queues_ok T W E fin" "W w = Some (CleanupEpochWork e # q)"
  shows "e \<in> E" and "queues_ok T (W(w \<mapsto> q)) (E - {e}) fin"
proof -
  from queues_okD(1)[OF assms] have l: "e \<in> E" "line_ok (E - {e}) q (fin w)" by simp_all
  show "e \<in> E" by (rule l)
  have "queues_ok T (W(w \<mapsto> q)) (E - {e}) (fin(w := fin w))"
    by (rule queues_ok_replace[OF assms, where N = "{}"]) (use l in auto)
  then show "queues_ok T (W(w \<mapsto> q)) (E - {e}) fin" by simp
qed

section \<open>Handles\<close>

text \<open>Every object of the tables and every pending destruction holds its own, allocated workqueue,
  and \<open>fin\<close> is the epoch it holds. With \<open>T\<close> every workqueue is held.\<close>

definition handles_ok ::
  "bool \<Rightarrow> (nat \<rightharpoonup> object_data) \<Rightarrow> (nat \<times> waddw_args) list \<Rightarrow> nat set \<Rightarrow> (nat \<Rightarrow> nat option) \<Rightarrow> bool" where
  "handles_ok T ob S D fin \<longleftrightarrow>
     (\<forall>oid d. ob oid = Some d \<longrightarrow> \<not> wq_is_destroyed d \<and> (\<exists>w \<in> D. od_wq d = Some w \<and> fin w = od_e d)) \<and>
     (\<forall>oid oid' d d'. ob oid = Some d \<longrightarrow> ob oid' = Some d' \<longrightarrow> od_wq d = od_wq d' \<longrightarrow> oid = oid') \<and>
     (\<forall>n \<in> set S. \<exists>w \<in> D. device_wq (snd n) = Some w \<and> fin w = last_epoch (snd n)) \<and>
     distinct (map fst S) \<and> distinct (map (device_wq \<circ> snd) S) \<and>
     (\<forall>oid d n. ob oid = Some d \<longrightarrow> n \<in> set S \<longrightarrow> od_wq d \<noteq> device_wq (snd n)) \<and>
     (T \<longrightarrow> (\<forall>w \<in> D. (\<exists>oid d. ob oid = Some d \<and> od_wq d = Some w) \<or> (\<exists>n \<in> set S. device_wq (snd n) = Some w)))"

lemma handles_okD:
  assumes "handles_ok T ob S D fin"
  shows "ob oid = Some d \<Longrightarrow> \<not> wq_is_destroyed d \<and> (\<exists>w \<in> D. od_wq d = Some w \<and> fin w = od_e d)"
    and "ob oid = Some d \<Longrightarrow> ob oid' = Some d' \<Longrightarrow> od_wq d = od_wq d' \<Longrightarrow> oid = oid'"
    and "n \<in> set S \<Longrightarrow> \<exists>w \<in> D. device_wq (snd n) = Some w \<and> fin w = last_epoch (snd n)"
    and "distinct (map fst S)" and "distinct (map (device_wq \<circ> snd) S)"
    and "ob oid = Some d \<Longrightarrow> n \<in> set S \<Longrightarrow> od_wq d \<noteq> device_wq (snd n)"
    and "T \<Longrightarrow> w \<in> D \<Longrightarrow> (\<exists>oid d. ob oid = Some d \<and> od_wq d = Some w) \<or> (\<exists>n \<in> set S. device_wq (snd n) = Some w)"
proof -
  note H = assms[unfolded handles_ok_def]
  show "ob oid = Some d \<Longrightarrow> \<not> wq_is_destroyed d \<and> (\<exists>w \<in> D. od_wq d = Some w \<and> fin w = od_e d)"
    using H[THEN conjunct1] by blast
  show "ob oid = Some d \<Longrightarrow> ob oid' = Some d' \<Longrightarrow> od_wq d = od_wq d' \<Longrightarrow> oid = oid'"
    using H[THEN conjunct2, THEN conjunct1] by blast
  show "n \<in> set S \<Longrightarrow> \<exists>w \<in> D. device_wq (snd n) = Some w \<and> fin w = last_epoch (snd n)"
    using H[THEN conjunct2, THEN conjunct2, THEN conjunct1] by blast
  show "distinct (map fst S)" by (rule H[THEN conjunct2, THEN conjunct2, THEN conjunct2, THEN conjunct1])
  show "distinct (map (device_wq \<circ> snd) S)" by (rule H[THEN conjunct2, THEN conjunct2, THEN conjunct2, THEN conjunct2, THEN conjunct1])
  show "ob oid = Some d \<Longrightarrow> n \<in> set S \<Longrightarrow> od_wq d \<noteq> device_wq (snd n)"
    using H[THEN conjunct2, THEN conjunct2, THEN conjunct2, THEN conjunct2, THEN conjunct2, THEN conjunct1] by blast
  show "T \<Longrightarrow> w \<in> D \<Longrightarrow> (\<exists>oid d. ob oid = Some d \<and> od_wq d = Some w) \<or> (\<exists>n \<in> set S. device_wq (snd n) = Some w)"
    using H[THEN conjunct2, THEN conjunct2, THEN conjunct2, THEN conjunct2, THEN conjunct2, THEN conjunct2] by blast
qed

lemma handles_okI:
  assumes "\<And>oid d. ob oid = Some d \<Longrightarrow> \<not> wq_is_destroyed d \<and> (\<exists>w \<in> D. od_wq d = Some w \<and> fin w = od_e d)"
    and "\<And>oid oid' d d'. ob oid = Some d \<Longrightarrow> ob oid' = Some d' \<Longrightarrow> od_wq d = od_wq d' \<Longrightarrow> oid = oid'"
    and "\<And>n. n \<in> set S \<Longrightarrow> \<exists>w \<in> D. device_wq (snd n) = Some w \<and> fin w = last_epoch (snd n)"
    and "distinct (map fst S)" and "distinct (map (device_wq \<circ> snd) S)"
    and "\<And>oid d n. ob oid = Some d \<Longrightarrow> n \<in> set S \<Longrightarrow> od_wq d \<noteq> device_wq (snd n)"
    and "\<And>w. T \<Longrightarrow> w \<in> D \<Longrightarrow> (\<exists>oid d. ob oid = Some d \<and> od_wq d = Some w) \<or> (\<exists>n \<in> set S. device_wq (snd n) = Some w)"
  shows "handles_ok T ob S D fin"
proof -
  have 1: "\<forall>oid d. ob oid = Some d \<longrightarrow> \<not> wq_is_destroyed d \<and> (\<exists>w \<in> D. od_wq d = Some w \<and> fin w = od_e d)"
    using assms(1) by blast
  have 2: "\<forall>oid oid' d d'. ob oid = Some d \<longrightarrow> ob oid' = Some d' \<longrightarrow> od_wq d = od_wq d' \<longrightarrow> oid = oid'"
    using assms(2) by blast
  have 3: "\<forall>n \<in> set S. \<exists>w \<in> D. device_wq (snd n) = Some w \<and> fin w = last_epoch (snd n)"
    using assms(3) by blast
  have 6: "\<forall>oid d n. ob oid = Some d \<longrightarrow> n \<in> set S \<longrightarrow> od_wq d \<noteq> device_wq (snd n)"
    using assms(6) by blast
  have 7: "T \<longrightarrow> (\<forall>w \<in> D. (\<exists>oid d. ob oid = Some d \<and> od_wq d = Some w) \<or> (\<exists>n \<in> set S. device_wq (snd n) = Some w))"
    using assms(7) by blast
  show ?thesis unfolding handles_ok_def using 1 2 3 assms(4,5) 6 7 by (intro conjI)
qed

lemma handles_ok_new:
  assumes H: "handles_ok T ob S D fin" and "w \<notin> D" "oid \<notin> dom ob"
    and d: "od_wq d = Some w" "od_e d = None" "\<not> wq_is_destroyed d"
  shows "handles_ok T (ob(oid \<mapsto> d)) S (insert w D) (fin(w := None))"
proof (rule handles_okI)
  show "\<not> wq_is_destroyed d' \<and> (\<exists>v \<in> insert w D. od_wq d' = Some v \<and> (fin(w := None)) v = od_e d')"
    if "(ob(oid \<mapsto> d)) oid' = Some d'" for oid' d'
    using that d handles_okD(1)[OF H, of oid' d'] assms(2) by (auto split: if_splits)
  have fresh: "od_wq d' \<noteq> Some w" if "ob oid' = Some d'" for oid' d'
    using handles_okD(1)[OF H that] assms(2) by auto
  show "oid1 = oid2" if "(ob(oid \<mapsto> d)) oid1 = Some d1" "(ob(oid \<mapsto> d)) oid2 = Some d2" "od_wq d1 = od_wq d2" for oid1 oid2 d1 d2
    using that fresh d handles_okD(2)[OF H] by (auto split: if_splits)
  show "\<exists>v \<in> insert w D. device_wq (snd n) = Some v \<and> (fin(w := None)) v = last_epoch (snd n)" if "n \<in> set S" for n
    using handles_okD(3)[OF H that] assms(2) by auto
  show "distinct (map fst S)" "distinct (map (device_wq \<circ> snd) S)" using handles_okD(4,5)[OF H] by auto
  show "od_wq d' \<noteq> device_wq (snd n)" if "(ob(oid \<mapsto> d)) oid' = Some d'" "n \<in> set S" for oid' d' n
    using that handles_okD(6)[OF H, of oid' d' n] handles_okD(3)[OF H that(2)] d assms(2) by (auto split: if_splits)
  show "(\<exists>oid' d'. (ob(oid \<mapsto> d)) oid' = Some d' \<and> od_wq d' = Some v) \<or> (\<exists>n \<in> set S. device_wq (snd n) = Some v)"
    if "T" "v \<in> insert w D" for v
  proof (cases "v = w")
    case True
    then have "(ob(oid \<mapsto> d)) oid = Some d \<and> od_wq d = Some v" using d by simp
    then show ?thesis by blast
  next
    case False
    with that handles_okD(7)[OF H that(1), of v] assms(3) show ?thesis by (auto simp: domIff fun_upd_apply) (metis option.distinct(1))
  qed
qed

text \<open>The object of a device with queue \<open>w\<close> gets another epoch.\<close>

lemma handles_ok_set_epoch:
  assumes H: "handles_ok T ob S D fin" and d: "ob oid = Some d" "od_wq d = Some w"
  shows "handles_ok T (ob(oid \<mapsto> d\<lparr>od_e := e\<rparr>)) S D (fin(w := e))"
proof (rule handles_okI)
  have only: "od_wq d' \<noteq> Some w" if "ob oid' = Some d'" "oid' \<noteq> oid" for oid' d'
    using handles_okD(2)[OF H that(1) d(1)] d(2) that(2) by auto
  have notS: "device_wq (snd n) \<noteq> Some w" if "n \<in> set S" for n using handles_okD(6)[OF H d(1) that] d(2) by auto
  show "\<not> wq_is_destroyed d' \<and> (\<exists>v \<in> D. od_wq d' = Some v \<and> (fin(w := e)) v = od_e d')"
    if "(ob(oid \<mapsto> d\<lparr>od_e := e\<rparr>)) oid' = Some d'" for oid' d'
    using that handles_okD(1)[OF H d(1)] handles_okD(1)[OF H, of oid' d'] only[of oid' d'] d(2) by (auto split: if_splits)
  show "oid1 = oid2" if "(ob(oid \<mapsto> d\<lparr>od_e := e\<rparr>)) oid1 = Some d1" "(ob(oid \<mapsto> d\<lparr>od_e := e\<rparr>)) oid2 = Some d2"
    "od_wq d1 = od_wq d2" for oid1 oid2 d1 d2
    using that handles_okD(2)[OF H] d only by (auto split: if_splits)
  show "\<exists>v \<in> D. device_wq (snd n) = Some v \<and> (fin(w := e)) v = last_epoch (snd n)" if "n \<in> set S" for n
    using handles_okD(3)[OF H that] notS[OF that] by auto
  show "distinct (map fst S)" "distinct (map (device_wq \<circ> snd) S)" using handles_okD(4,5)[OF H] by auto
  show "od_wq d' \<noteq> device_wq (snd n)" if "(ob(oid \<mapsto> d\<lparr>od_e := e\<rparr>)) oid' = Some d'" "n \<in> set S" for oid' d' n
    using that handles_okD(6)[OF H, of oid' d' n] handles_okD(6)[OF H d(1), of n] by (auto split: if_splits)
  show "(\<exists>oid' d'. (ob(oid \<mapsto> d\<lparr>od_e := e\<rparr>)) oid' = Some d' \<and> od_wq d' = Some v) \<or> (\<exists>n \<in> set S. device_wq (snd n) = Some v)"
    if "T" "v \<in> D" for v
  proof (cases "\<exists>n \<in> set S. device_wq (snd n) = Some v")
    case False
    with handles_okD(7)[OF H that] obtain oid' d' where "ob oid' = Some d'" "od_wq d' = Some v" by blast
    then have "(ob(oid \<mapsto> d\<lparr>od_e := e\<rparr>)) oid' = Some (if oid' = oid then d\<lparr>od_e := e\<rparr> else d')"
      "od_wq (if oid' = oid then d\<lparr>od_e := e\<rparr> else d') = Some v" using d by auto
    then show ?thesis by blast
  qed simp
qed

text \<open>A device is retired: its handle moves to a pending destruction, or is lost.\<close>

lemma handles_ok_retire:
  assumes H: "handles_ok T ob S D fin" and d: "ob oid = Some d"
    and S': "S' = S @ [(i, \<lparr>device_wq = od_wq d, last_epoch = od_e d\<rparr>)] \<and> i \<notin> fst ` set S \<or> S' = S \<and> \<not> T"
  shows "handles_ok T (ob(oid := None)) S' D fin"
proof (rule handles_okI)
  have new: "n \<in> set S \<or> n = (i, \<lparr>device_wq = od_wq d, last_epoch = od_e d\<rparr>)" if "n \<in> set S'" for n
    using S' that by auto
  show "\<not> wq_is_destroyed d' \<and> (\<exists>v \<in> D. od_wq d' = Some v \<and> fin v = od_e d')"
    if "(ob(oid := None)) oid' = Some d'" for oid' d'
    using that handles_okD(1)[OF H, of oid' d'] by (auto split: if_splits)
  show "oid1 = oid2" if "(ob(oid := None)) oid1 = Some d1" "(ob(oid := None)) oid2 = Some d2" "od_wq d1 = od_wq d2" for oid1 oid2 d1 d2
    using that handles_okD(2)[OF H] by (auto split: if_splits)
  show "\<exists>v \<in> D. device_wq (snd n) = Some v \<and> fin v = last_epoch (snd n)" if "n \<in> set S'" for n
    using new[OF that] handles_okD(3)[OF H] handles_okD(1)[OF H d] by fastforce
  show "distinct (map fst S')" using S' handles_okD(4)[OF H] by auto
  have "od_wq d \<notin> (device_wq \<circ> snd) ` set S" using handles_okD(6)[OF H d] by auto
  then show "distinct (map (device_wq \<circ> snd) S')" using S' handles_okD(5)[OF H] by auto
  show "od_wq d' \<noteq> device_wq (snd n)" if "(ob(oid := None)) oid' = Some d'" "n \<in> set S'" for oid' d' n
    using that new[OF that(2)] handles_okD(6)[OF H, of oid' d' n] handles_okD(2)[OF H, of oid' d' oid d] d by (auto split: if_splits)
  show "(\<exists>oid' d'. (ob(oid := None)) oid' = Some d' \<and> od_wq d' = Some v) \<or> (\<exists>n \<in> set S'. device_wq (snd n) = Some v)"
    if "T" "v \<in> D" for v
  proof (cases "\<exists>n \<in> set S'. device_wq (snd n) = Some v")
    case False
    with S' that(1) have "\<not> (\<exists>n \<in> set S. device_wq (snd n) = Some v)" "od_wq d \<noteq> Some v" by auto
    with handles_okD(7)[OF H that] obtain oid' d' where o: "ob oid' = Some d'" "od_wq d' = Some v" by blast
    with \<open>od_wq d \<noteq> Some v\<close> d have "oid' \<noteq> oid" by auto
    with o have "(ob(oid := None)) oid' = Some d'" by simp
    with o show ?thesis by blast
  qed simp
qed

text \<open>A pending destruction is done: the node and its workqueue go.\<close>

lemma handles_ok_done:
  assumes H: "handles_ok T ob S D fin" and n: "(i, a) \<in> set S" "device_wq a = Some w"
  shows "handles_ok T ob (filter (\<lambda>n. fst n \<noteq> i) S) (D - {w}) fin"
proof (rule handles_okI)
  have only: "device_wq (snd n') \<noteq> Some w" if "n' \<in> set S" "fst n' \<noteq> i" for n'
  proof
    assume "device_wq (snd n') = Some w"
    then have "(device_wq \<circ> snd) n' = (device_wq \<circ> snd) (i, a)" using n(2) by simp
    then have "n' = (i, a)" using handles_okD(5)[OF H] that(1) n(1) unfolding distinct_map by (metis inj_onD)
    with that(2) show False by simp
  qed
  have node: "fst n' = i \<Longrightarrow> n' = (i, a)" if "n' \<in> set S" for n'
    using handles_okD(4)[OF H] that n(1) unfolding distinct_map by (metis fst_conv inj_onD)
  have obj: "od_wq d \<noteq> Some w" if "ob oid = Some d" for oid d using handles_okD(6)[OF H that n(1)] n(2) by simp
  show "\<not> wq_is_destroyed d \<and> (\<exists>v \<in> D - {w}. od_wq d = Some v \<and> fin v = od_e d)" if "ob oid = Some d" for oid d
    using handles_okD(1)[OF H that] obj[OF that] by auto
  show "oid = oid'" if "ob oid = Some d" "ob oid' = Some d'" "od_wq d = od_wq d'" for oid oid' d d'
    using handles_okD(2)[OF H that] .
  show "\<exists>v \<in> D - {w}. device_wq (snd n') = Some v \<and> fin v = last_epoch (snd n')"
    if "n' \<in> set (filter (\<lambda>n. fst n \<noteq> i) S)" for n'
    using that handles_okD(3)[OF H, of n'] only[of n'] by auto
  show "distinct (map fst (filter (\<lambda>n. fst n \<noteq> i) S))" using handles_okD(4)[OF H] by (simp add: distinct_map_filter)
  show "distinct (map (device_wq \<circ> snd) (filter (\<lambda>n. fst n \<noteq> i) S))"
    using handles_okD(5)[OF H] by (rule distinct_map_filter)
  show "od_wq d \<noteq> device_wq (snd n')" if "ob oid = Some d" "n' \<in> set (filter (\<lambda>n. fst n \<noteq> i) S)" for oid d n'
    using handles_okD(6)[OF H that(1)] that(2) by auto
  show "(\<exists>oid d. ob oid = Some d \<and> od_wq d = Some v) \<or> (\<exists>n' \<in> set (filter (\<lambda>n. fst n \<noteq> i) S). device_wq (snd n') = Some v)"
    if "T" "v \<in> D - {w}" for v
  proof (cases "\<exists>oid d. ob oid = Some d \<and> od_wq d = Some v")
    case False
    with handles_okD(7)[OF H that(1)] that(2) obtain n' where "n' \<in> set S" "device_wq (snd n') = Some v" by blast
    moreover from this that(2) n(2) node[of n'] have "fst n' \<noteq> i" by (metis DiffD2 option.inject singletonI snd_conv)
    ultimately show ?thesis by (intro disjI2 bexI[of _ n']) auto
  qed simp
qed

section \<open>The invariant of the module\<close>

definition fresh_ok :: "kstate \<Rightarrow> bool" where
  "fresh_ok k \<longleftrightarrow> (\<forall>x \<in> dom (wqs k) \<union> dom (epochs k) \<union> fst ` set (system_wq k). x < next_id k)"

definition owners_ok :: "bool \<Rightarrow> kstate \<Rightarrow> (nat \<Rightarrow> nat option) \<Rightarrow> bool" where
  "owners_ok T k fin \<longleftrightarrow> handles_ok T (objs k) (system_wq k) (dom (wqs k)) fin \<and>
     queues_ok T (wqs k) (dom (epochs k)) fin \<and> fresh_ok k \<and>
     set (system_wq k) \<subseteq> set (waddw_worklist k)"

definition kinv :: "bool \<Rightarrow> kstate \<Rightarrow> bool" where
  "kinv T k \<longleftrightarrow> tables_ok k \<and> (\<exists>fin. owners_ok T k fin)"

lemma kinvI: "tables_ok k \<Longrightarrow> owners_ok T k fin \<Longrightarrow> kinv T k"
  by (auto simp: kinv_def)

text \<open>A step is safe if it does not use freed memory and keeps the invariant.\<close>

definition safe :: "bool \<Rightarrow> fault + kstate \<Rightarrow> bool" where
  "safe T r \<longleftrightarrow> (case r of Inl f \<Rightarrow> f \<noteq> UseAfterFree | Inr k \<Rightarrow> kinv T k)"

lemma owners_okI:
  assumes "handles_ok T (objs k) (system_wq k) (dom (wqs k)) fin" "queues_ok T (wqs k) (dom (epochs k)) fin"
    "fresh_ok k" "set (system_wq k) \<subseteq> set (waddw_worklist k)"
  shows "owners_ok T k fin"
  using assms by (simp add: owners_ok_def)

lemma owners_okD:
  assumes "owners_ok T k fin"
  shows "handles_ok T (objs k) (system_wq k) (dom (wqs k)) fin" "queues_ok T (wqs k) (dom (epochs k)) fin"
    "fresh_ok k" "set (system_wq k) \<subseteq> set (waddw_worklist k)"
  using assms by (simp_all add: owners_ok_def)

subsection \<open>Requests\<close>

lemma owners_ok_drop: "owners_ok T k fin \<Longrightarrow> owners_ok T (drop_device k) fin"
proof -
  assume O: "owners_ok T k fin"
  have "next_id k \<notin> dom (wqs k)" using owners_okD(3)[OF O] by (auto simp: fresh_ok_def)
  then have "(wqs k)(next_id k := None) = wqs k" by (auto simp: fun_upd_idem)
  then show ?thesis using owners_okD[OF O]
    by (auto simp: owners_ok_def drop_device_def fresh_ok_def less_SucI)
qed

lemma owners_ok_new:
  assumes "owners_ok T k fin" and o: "next_id k + 1 \<notin> dom (objs k)"
  shows "owners_ok T (new_device env name k) (fin(next_id k := None))"
proof -
  note O = owners_okD[OF assms(1)]
  have w: "next_id k \<notin> dom (wqs k)" using O(3) by (auto simp: fresh_ok_def)
  show ?thesis
  proof (rule owners_okI)
    show "handles_ok T (objs (new_device env name k)) (system_wq (new_device env name k))
        (dom (wqs (new_device env name k))) (fin(next_id k := None))"
      using handles_ok_new[OF O(1) w o] by (simp add: new_device_def)
    show "queues_ok T (wqs (new_device env name k)) (dom (epochs (new_device env name k))) (fin(next_id k := None))"
      using queues_ok_new[OF O(2)] w by (simp add: new_device_def domIff)
    show "fresh_ok (new_device env name k)" using O(3) by (auto simp: new_device_def fresh_ok_def less_Suc_eq)
    show "set (system_wq (new_device env name k)) \<subseteq> set (waddw_worklist (new_device env name k))"
      using O(4) by (simp add: new_device_def)
  qed
qed

lemma tables_ok_new_id: "tables_ok k \<Longrightarrow> next_id k + 1 \<notin> dom (objs k)"
  unfolding tables_ok_def by (metis less_add_one order_less_asym)

lemma owners_ok_tables [simp]:
  "owners_ok T (k\<lparr>blkdevs_ht := t\<rparr>) fin = owners_ok T k fin"
  "owners_ok T (k\<lparr>loops_ht := l\<rparr>) fin = owners_ok T k fin"
  "owners_ok T (k\<lparr>allow_reging_operation := b\<rparr>) fin = owners_ok T k fin"
  "owners_ok T (k\<lparr>kvfs := v\<rparr>) fin = owners_ok T k fin"
  by (simp_all add: owners_ok_def fresh_ok_def)

lemma owners_ok_retire:
  assumes "owners_ok T k fin" "objs k oid = Some data"
    and T: "T \<longrightarrow> kmalloc_wlistnode_ok env \<and> kmalloc_wargs_ok env"
  shows "owners_ok T (retire env oid data k) fin"
proof -
  note O = owners_okD[OF assms(1)]
  let ?k = "retire env oid data k"
  let ?ok = "kmalloc_wlistnode_ok env \<and> kmalloc_wargs_ok env"
  let ?node = "(next_id k, \<lparr>device_wq = od_wq data, last_epoch = od_e data\<rparr>)"
  have S: "system_wq ?k = (if ?ok then system_wq k @ [?node] else system_wq k)"
    by (simp add: retire_def prune_worklist_def defer_cleanup_def Let_def)
  have fr: "next_id k \<notin> fst ` set (system_wq k)" using O(3) by (auto simp: fresh_ok_def)
  show ?thesis
  proof (rule owners_okI)
    have "system_wq ?k = system_wq k @ [?node] \<and> next_id k \<notin> fst ` set (system_wq k) \<or> system_wq ?k = system_wq k \<and> \<not> T"
      using S fr T by auto
    from handles_ok_retire[OF O(1) assms(2) this]
    show "handles_ok T (objs ?k) (system_wq ?k) (dom (wqs ?k)) fin" by simp
    show "queues_ok T (wqs ?k) (dom (epochs ?k)) fin" using O(2) by simp
    show "fresh_ok ?k" using O(3)
      by (auto simp: retire_def prune_worklist_def defer_cleanup_def Let_def fresh_ok_def less_Suc_eq)
    show "set (system_wq ?k) \<subseteq> set (waddw_worklist ?k)" using O(4)
      by (auto simp: retire_def prune_worklist_def defer_cleanup_def Let_def image_iff)
  qed
qed

text \<open>The path operations before the tables succeed, so that the two faulty branches of
  \<open>try_to_insert_loop_device\<close> and of a missing workqueue are not taken.\<close>

definition paths_resolve :: "dev_env \<Rightarrow> string \<Rightarrow> bool" where
  "paths_resolve env path \<longleftrightarrow>
     (case get_inode_from_cstr_path env path of
        Inl err \<Rightarrow> True
      | Inr None \<Rightarrow> True
      | Inr (Some ino) \<Rightarrow>
          (case v_type ino of
             S_IFBLK \<Rightarrow> MAJOR (v_rdev ino) = LOOP_MAJOR \<longrightarrow>
               (case get_loop_device_backing_file env (v_rdev ino) of
                  Inl err \<Rightarrow> True | Inr lo \<Rightarrow> get_full_path env lo PATH_MAX \<in> range Inr)
           | S_IFREG \<Rightarrow> get_full_path env path PATH_MAX \<in> range Inr
           | S_IFOTHER \<Rightarrow> True))"

abbreviation state_of :: "fault + 'a \<times> kstate \<Rightarrow> fault + kstate" where
  "state_of \<equiv> map_sum id snd"

lemma safe_insert_block:
  assumes "kinv T k" "alloc_workqueue_ok env"
  shows "safe T (state_of (try_to_insert_block_device bkt menv env d name k))"
proof -
  obtain fin where t: "tables_ok k" and O: "owners_ok T k fin" using assms(1) by (auto simp: kinv_def)
  have drop: "kinv T (drop_device k)" using t owners_ok_drop[OF O] by (auto simp: kinv_def)
  show ?thesis
  proof (cases "\<not> kzalloc_object_ok env \<or> ht_insert_err env \<noteq> 0")
    case True
    then show ?thesis using assms(1) drop by (simp add: insert_block_fails[OF assms(2) True] safe_def)
  next
    case False
    have "kinv T ((new_device env name k)\<lparr>blkdevs_ht := (d, Suc (next_id k)) # blkdevs_ht k\<rparr>)"
      if "d \<notin> fst ` set (blkdevs_ht k)"
      by (rule kinvI[OF tables_ok_insert_block[OF t that]]) (simp, rule owners_ok_new[OF O tables_ok_new_id[OF t]])
    then show ?thesis using False drop assms(2) by (simp add: insert_block_eq safe_def)
  qed
qed

lemma safe_insert_loop:
  assumes "kinv T k" "alloc_workqueue_ok env" "get_full_path env path PATH_MAX = Inr p"
  shows "safe T (state_of (try_to_insert_loop_device bkt menv env path name k))"
proof -
  obtain fin where t: "tables_ok k" and O: "owners_ok T k fin" using assms(1) by (auto simp: kinv_def)
  have drop: "kinv T (drop_device k)" using t owners_ok_drop[OF O] by (auto simp: kinv_def)
  show ?thesis
  proof (cases "\<not> kzalloc_object_ok env \<or> ht_insert_err env \<noteq> 0")
    case True
    then show ?thesis using assms(1) drop by (simp add: insert_loop_fails[OF assms(2) True assms(3)] safe_def)
  next
    case False
    have "kinv T ((new_device env name k)\<lparr>loops_ht := (p, Suc (next_id k)) # loops_ht k\<rparr>)"
      if "p \<notin> fst ` set (loops_ht k)"
      by (rule kinvI[OF tables_ok_insert_loop[OF t that]]) (simp, rule owners_ok_new[OF O tables_ok_new_id[OF t]])
    then show ?thesis using False drop assms(2,3) by (simp add: insert_loop_eq safe_def)
  qed
qed

lemma safe_register:
  assumes "kinv T k" "alloc_workqueue_ok env" "paths_resolve env path"
  shows "safe T (state_of (register_device bkt menv env path k))"
proof -
  have same: "safe T (state_of (Inr (c, k)))" for c :: int using assms(1) by (simp add: safe_def)
  note loop = safe_insert_loop[OF assms(1,2)] and block = safe_insert_block[OF assms(1,2)]
  show ?thesis
    using assms(3) same
    by (auto simp: register_device_def do_device_reging_operation_def paths_resolve_def
        split: if_splits sum.splits option.splits file_type.splits intro: loop block)
qed

text \<open>Otherwise the activation either returns without having touched anything or reads the object it has freed.\<close>

lemma register_unresolved:
  assumes "\<not> paths_resolve env path"
  shows "register_device bkt menv env path k = Inl UseAfterFree \<or> (\<exists>c. register_device bkt menv env path k = Inr (c, k))"
  using assms
  by (auto simp: register_device_def do_device_reging_operation_def paths_resolve_def try_to_insert_loop_device_def
      split: if_splits sum.splits option.splits file_type.splits)

lemma safe_register_any:
  assumes "kinv T k" "alloc_workqueue_ok env"
  shows "safe T (state_of (register_device bkt menv env path k)) \<or>
    state_of (register_device bkt menv env path k) = Inl UseAfterFree \<and> \<not> paths_resolve env path"
proof (cases "paths_resolve env path")
  case True
  then show ?thesis using safe_register[OF assms] by blast
next
  case False
  then show ?thesis using register_unresolved[OF False, of bkt menv k] assms(1) by (elim disjE exE) (simp_all add: safe_def)
qed

lemma safe_remove_block:
  assumes "kinv T k" "T \<longrightarrow> kmalloc_wlistnode_ok env \<and> kmalloc_wargs_ok env"
  shows "safe T (state_of (try_to_remove_block_device env d arg k))"
proof -
  obtain fin where t: "tables_ok k" and O: "owners_ok T k fin" using assms(1) by (auto simp: kinv_def)
  show ?thesis
  proof (cases "map_of (blkdevs_ht k) d")
    case None
    then show ?thesis using assms(1) by (simp add: remove_block_eq[OF t] safe_def)
  next
    case (Some oid)
    then obtain data where data: "objs k oid = Some data" using tables_ok_live(1)[OF t] by blast
    have "owners_ok T (retire env oid data (k\<lparr>blkdevs_ht := ht_remove d (blkdevs_ht k)\<rparr>)) fin"
      by (rule owners_ok_retire) (use O data assms(2) in simp_all)
    then have "kinv T (retire env oid data (k\<lparr>blkdevs_ht := ht_remove d (blkdevs_ht k)\<rparr>))"
      using tables_ok_remove_block[OF t Some] by (auto simp: kinv_def)
    then show ?thesis using assms(1) Some data by (simp add: remove_block_eq[OF t] safe_def)
  qed
qed

lemma safe_remove_loop:
  assumes "kinv T k" "T \<longrightarrow> kmalloc_wlistnode_ok env \<and> kmalloc_wargs_ok env"
  shows "safe T (state_of (try_to_remove_loop_device env path arg k))"
proof -
  obtain fin where t: "tables_ok k" and O: "owners_ok T k fin" using assms(1) by (auto simp: kinv_def)
  show ?thesis
  proof (cases "\<exists>d. kmalloc_full_path_ok env \<and> get_full_path env path PATH_MAX = Inr d")
    case False
    then have "\<exists>c. try_to_remove_loop_device env path arg k = Inr (c, k)"
      by (auto simp: try_to_remove_loop_device_def split: sum.splits)
    then show ?thesis using assms(1) by (auto simp: safe_def)
  next
    case True
    then obtain d where d: "kmalloc_full_path_ok env" "get_full_path env path PATH_MAX = Inr d" by blast
    show ?thesis
    proof (cases "map_of (loops_ht k) d")
      case None
      then show ?thesis using assms(1) by (simp add: remove_loop_eq[OF t d] safe_def)
    next
      case (Some oid)
      then obtain data where data: "objs k oid = Some data" using tables_ok_live(2)[OF t] by blast
      have "owners_ok T (retire env oid data (k\<lparr>loops_ht := ht_remove d (loops_ht k)\<rparr>)) fin"
        by (rule owners_ok_retire) (use O data assms(2) in simp_all)
      then have "kinv T (retire env oid data (k\<lparr>loops_ht := ht_remove d (loops_ht k)\<rparr>))"
        using tables_ok_remove_loop[OF t Some] by (auto simp: kinv_def)
      then show ?thesis using assms(1) Some data by (simp add: remove_loop_eq[OF t d] safe_def)
    qed
  qed
qed

lemma safe_unregister:
  assumes "kinv T k" "T \<longrightarrow> kmalloc_wlistnode_ok env \<and> kmalloc_wargs_ok env"
  shows "safe T (state_of (unregister_device env path k))"
proof -
  have same: "safe T (state_of (Inr (c, k)))" for c :: int using assms(1) by (simp add: safe_def)
  show ?thesis
    using same
    by (auto simp: unregister_device_def do_device_reging_operation_def
        split: if_splits sum.splits option.splits file_type.splits
        intro: safe_remove_loop[OF assms] safe_remove_block[OF assms])
qed

subsection \<open>Probes\<close>

lemma live_object:
  assumes "tables_ok k" "get_device_data_always minfo k = Some oid"
  shows "\<exists>data. objs k oid = Some data"
  using assms tables_ok_live by (auto simp: get_device_data_always_def split: mountinfo.splits)

lemma owners_ok_epochs_live:
  assumes "owners_ok T k fin" "objs k oid = Some data"
  obtains w q where "od_wq data = Some w" "wqs k w = Some q" "fin w = od_e data" "\<not> wq_is_destroyed data"
    "line_ok (dom (epochs k)) q (od_e data)" "set_option (od_e data) \<subseteq> dom (epochs k)"
proof -
  note O = owners_okD[OF assms(1)]
  obtain w where w: "w \<in> dom (wqs k)" "od_wq data = Some w" "fin w = od_e data" "\<not> wq_is_destroyed data"
    using handles_okD(1)[OF O(1) assms(2)] by blast
  then obtain q where q: "wqs k w = Some q" by blast
  then have l: "line_ok (dom (epochs k)) q (od_e data)" using queues_okD(1)[OF O(2) q] w(3) by simp
  have "set_option (od_e data) \<subseteq> dom (epochs k)" using line_ok_refs[OF l] by (simp add: refs_def)
  with w q l show thesis by (intro that)
qed

text \<open>Changing the contents of an allocated epoch without closing it.\<close>

lemma owners_ok_epoch_update:
  assumes "owners_ok T k fin" "epochs k e = Some ep"
  shows "owners_ok T (k\<lparr>epochs := (epochs k)(e \<mapsto> ep')\<rparr>) fin"
proof -
  note O = owners_okD[OF assms(1)]
  have "dom ((epochs k)(e \<mapsto> ep')) = dom (epochs k)" using assms(2) by auto
  then show ?thesis using O assms(2)
    by (intro owners_okI) (auto simp: fresh_ok_def)
qed

lemma tables_ok_objs:
  assumes "tables_ok k" "blkdevs_ht k' = blkdevs_ht k" "loops_ht k' = loops_ht k"
    "dom (objs k') = dom (objs k)" "next_id k \<le> next_id k'"
  shows "tables_ok k'"
proof -
  have "\<forall>oid \<in> dom (objs k). oid < next_id k" using assms(1) unfolding tables_ok_def by blast
  then have "\<forall>oid \<in> dom (objs k). oid < next_id k'" using assms(5) by (metis order_less_le_trans)
  with assms show ?thesis unfolding tables_ok_def by presburger
qed

lemma kinv_epoch_update:
  assumes "kinv T k" "epochs k e = Some ep"
  shows "kinv T (k\<lparr>epochs := (epochs k)(e \<mapsto> ep')\<rparr>)"
proof -
  obtain fin where t: "tables_ok k" and O: "owners_ok T k fin" using assms(1) by (auto simp: kinv_def)
  show ?thesis by (rule kinvI[OF _ owners_ok_epoch_update[OF O assms(2)]]) (use t in \<open>simp add: tables_ok_def\<close>)
qed

text \<open>A device without an epoch gets a fresh one.\<close>

lemma owners_ok_open_epoch:
  assumes O: "owners_ok T k fin" and data: "objs k oid = Some data" "od_e data = None"
  shows "\<exists>fin'. owners_ok T (k\<lparr>next_id := next_id k + 1, objs := (objs k)(oid \<mapsto> data\<lparr>od_e := Some (next_id k)\<rparr>),
    epochs := (epochs k)(next_id k \<mapsto> ep)\<rparr>) fin'" (is "\<exists>fin'. owners_ok T ?k fin'")
proof -
  let ?e = "next_id k"
  note O' = owners_okD[OF O]
  obtain w q where w: "od_wq data = Some w" "wqs k w = Some q" "fin w = od_e data"
    by (rule owners_ok_epochs_live[OF O data(1)])
  have new: "?e \<notin> dom (epochs k)" using O'(3) by (auto simp: fresh_ok_def)
  have "owners_ok T ?k (fin(w := Some ?e))"
  proof (rule owners_okI)
    show "handles_ok T (objs ?k) (system_wq ?k) (dom (wqs ?k)) (fin(w := Some ?e))"
      using handles_ok_set_epoch[OF O'(1) data(1) w(1)] by simp
    show "queues_ok T (wqs ?k) (dom (epochs ?k)) (fin(w := Some ?e))"
      using queues_ok_open[OF O'(2) w(2) _ new] w(3) data(2) by simp
    show "fresh_ok ?k" using O'(3) by (auto simp: fresh_ok_def less_Suc_eq)
    show "set (system_wq ?k) \<subseteq> set (waddw_worklist ?k)" using O'(4) by simp
  qed
  then show ?thesis by blast
qed

lemma kinv_open_epoch:
  assumes "kinv T k" "objs k oid = Some data" "od_e data = None"
  shows "kinv T (k\<lparr>next_id := next_id k + 1, objs := (objs k)(oid \<mapsto> data\<lparr>od_e := Some (next_id k)\<rparr>),
    epochs := (epochs k)(next_id k \<mapsto> ep)\<rparr>)" (is "kinv T ?k")
proof -
  obtain fin where t: "tables_ok k" and O: "owners_ok T k fin" using assms(1) by (auto simp: kinv_def)
  have "tables_ok ?k" by (rule tables_ok_objs[OF t]) (use assms(2) in auto)
  with owners_ok_open_epoch[OF O assms(2,3)] show ?thesis by (auto intro: kinvI)
qed

text \<open>A device gives up its epoch: its cleanup is the last item of the queue, or it is forgotten.\<close>

lemma owners_ok_close_epoch:
  assumes O: "owners_ok T k fin" and "objs k oid = Some data" "od_wq data = Some w" "wqs k w = Some q" "od_e data = Some e"
    and "epochs k e = Some ep" "q' = q @ [CleanupEpochWork e] \<or> \<not> T \<and> q' = q"
  shows "\<exists>fin'. owners_ok T (k\<lparr>epochs := (epochs k)(e \<mapsto> ep'), objs := (objs k)(oid \<mapsto> data\<lparr>od_e := None\<rparr>), wqs := (wqs k)(w \<mapsto> q')\<rparr>) fin'"
    (is "\<exists>fin'. owners_ok T ?k fin'")
proof -
  note O' = owners_okD[OF O]
  have fin: "fin w = Some e" using owners_ok_epochs_live[OF O assms(2)] assms(3,5) by fastforce
  have dom: "dom ((wqs k)(w \<mapsto> q')) = dom (wqs k)" "dom ((epochs k)(e \<mapsto> ep')) = dom (epochs k)"
    using assms(4,6) by auto
  have Q: "queues_ok T ((wqs k)(w \<mapsto> q')) (dom (epochs k)) (fin(w := None))"
    using assms(7) queues_ok_close[OF O'(2) assms(4) fin] queues_ok_forget[OF O'(2) assms(4)] assms(4)
    by (auto simp: fun_upd_idem)
  have others: "od_e d \<noteq> Some e" if d: "objs k oid' = Some d" "oid' \<noteq> oid" for oid' d
  proof
    assume e': "od_e d = Some e"
    obtain w' q1 where w': "od_wq d = Some w'" "wqs k w' = Some q1" "fin w' = od_e d"
      by (rule owners_ok_epochs_live[OF O d(1)])
    have "w' \<noteq> w" using handles_okD(2)[OF O'(1) d(1) assms(2)] assms(3) w'(1) d(2) by auto
    from queues_okD(2)[OF O'(2) w'(2) assms(4) this] w' e' fin show False
      by (simp add: refs_def owned_epochs_def)
  qed
  have "owners_ok T ?k (fin(w := None))"
  proof (rule owners_okI)
    show "handles_ok T (objs ?k) (system_wq ?k) (dom (wqs ?k)) (fin(w := None))"
      using handles_ok_set_epoch[OF O'(1) assms(2,3)] dom by simp
    show "queues_ok T (wqs ?k) (dom (epochs ?k)) (fin(w := None))" using Q dom(2) by simp
    show "fresh_ok ?k" using O'(3) dom by (simp add: fresh_ok_def)
    show "set (system_wq ?k) \<subseteq> set (waddw_worklist ?k)" using O'(4) by simp
  qed
  then show ?thesis by blast
qed

lemma kinv_close_epoch:
  assumes "kinv T k" "objs k oid = Some data" "od_wq data = Some w" "wqs k w = Some q" "od_e data = Some e"
    and "epochs k e = Some ep" "q' = q @ [CleanupEpochWork e] \<or> \<not> T \<and> q' = q"
  shows "kinv T (k\<lparr>epochs := (epochs k)(e \<mapsto> ep'), objs := (objs k)(oid \<mapsto> data\<lparr>od_e := None\<rparr>), wqs := (wqs k)(w \<mapsto> q')\<rparr>)"
    (is "kinv T ?k")
proof -
  obtain fin where t: "tables_ok k" and O: "owners_ok T k fin" using assms(1) by (auto simp: kinv_def)
  have "tables_ok ?k" by (rule tables_ok_objs[OF t]) (use assms(2) in auto)
  with owners_ok_close_epoch[OF O assms(2-7)] show ?thesis by (auto intro: kinvI)
qed

text \<open>A snapshot work is queued for the current epoch of a device.\<close>

lemma owners_ok_snapshot:
  assumes O: "owners_ok T k fin" and "objs k oid = Some data" "od_wq data = Some w" "wqs k w = Some q" "od_e data = Some e"
  shows "owners_ok T (k\<lparr>wqs := (wqs k)(w \<mapsto> q @ [SnapshotWork e m])\<rparr>) fin" (is "owners_ok T ?k fin")
proof -
  note O' = owners_okD[OF O]
  have dom: "dom ((wqs k)(w \<mapsto> q @ [SnapshotWork e m])) = dom (wqs k)" using assms(4) by auto
  have fin: "fin w = Some e" using owners_ok_epochs_live[OF O assms(2)] assms(3,5) by fastforce
  show ?thesis
  proof (rule owners_okI)
    show "queues_ok T (wqs ?k) (dom (epochs ?k)) fin" using queues_ok_snapshot[OF O'(2) assms(4) fin] by simp
  qed (use O' dom in \<open>simp_all add: fresh_ok_def\<close>)
qed

text \<open>A callback that is safe on every live device is safe behind the lookup.\<close>

lemma safe_event:
  assumes "kinv T k" "\<And>oid data. objs k oid = Some data \<Longrightarrow> safe T (cb oid data k)"
  shows "safe T (do_epoch_event_count minfo cb k)"
proof (cases "get_device_data_always minfo k")
  case None
  then show ?thesis using assms(1) by (simp add: safe_def do_epoch_event_count_def)
next
  case (Some oid)
  have "tables_ok k" using assms(1) by (simp add: kinv_def)
  from live_object[OF this Some] assms(2) show ?thesis by (auto simp: do_epoch_event_count_def Some)
qed

lemma live_epoch:
  assumes "kinv T k" "objs k oid = Some data" "od_e data = Some e"
  obtains ep w q where "epochs k e = Some ep" "od_wq data = Some w" "wqs k w = Some q"
    "\<not> wq_is_destroyed data"
proof -
  obtain fin where O: "owners_ok T k fin" using assms(1) by (auto simp: kinv_def)
  obtain w q where w: "od_wq data = Some w" "wqs k w = Some q" "\<not> wq_is_destroyed data"
    "set_option (od_e data) \<subseteq> dom (epochs k)" by (rule owners_ok_epochs_live[OF O assms(2)])
  with assms(3) obtain ep where "epochs k e = Some ep" by auto
  with w that show thesis by auto
qed

lemma safe_mount:
  assumes "kinv T k"
  shows "safe T (mount_handler ok t minfo regs k)"
proof -
  have "safe T (epoch_event_cb_count_mount ok t oid data k)" if data: "objs k oid = Some data" for oid data
  proof (cases "od_e data")
    case None
    then show ?thesis using assms kinv_open_epoch[OF assms data None]
      by (auto simp: safe_def epoch_event_cb_count_mount_def Let_def new_epoch_def)
  next
    case (Some e)
    obtain ep where "epochs k e = Some ep" by (rule live_epoch[OF assms data Some])
    then show ?thesis using Some kinv_epoch_update[OF assms, of e ep]
      by (simp add: safe_def epoch_event_cb_count_mount_def Let_def)
  qed
  then show ?thesis using assms safe_event[OF assms, of "epoch_event_cb_count_mount ok t"]
    by (auto simp: mount_handler_def epoch_count_mount_def safe_def)
qed

lemma safe_umount:
  assumes "kinv T k" "T \<longrightarrow> ok"
  shows "safe T (umount_handler ok minfo regs k)"
proof -
  have "safe T (epoch_event_cb_count_umount ok oid data k)" if data: "objs k oid = Some data" for oid data
  proof (cases "od_e data")
    case None
    then show ?thesis using assms(1) by (simp add: safe_def epoch_event_cb_count_umount_def)
  next
    case (Some e)
    obtain ep w q where ep: "epochs k e = Some ep"
      and w: "od_wq data = Some w" "wqs k w = Some q" "\<not> wq_is_destroyed data" by (rule live_epoch[OF assms(1) data Some])
    let ?ep = "ep\<lparr>n_currently_mounted := n_currently_mounted ep - 1\<rparr>"
    have more: "kinv T (k\<lparr>epochs := (epochs k)(e \<mapsto> ep')\<rparr>)" for ep' by (rule kinv_epoch_update[OF assms(1) ep])
    have last: "kinv T (k\<lparr>epochs := (epochs k)(e \<mapsto> ?ep), objs := (objs k)(oid \<mapsto> data\<lparr>od_e := None\<rparr>),
        wqs := (wqs k)(w \<mapsto> if ok then q @ [CleanupEpochWork e] else q)\<rparr>)"
      by (rule kinv_close_epoch[OF assms(1) data w(1,2) Some ep]) (use assms(2) in auto)
    have "(wqs k)(w \<mapsto> q) = wqs k" using w(2) by (simp add: fun_upd_idem)
    then show ?thesis using Some ep w more last
      by (cases ok) (auto simp: safe_def epoch_event_cb_count_umount_def Let_def)
  qed
  then show ?thesis using assms(1) safe_event[OF assms(1), of "epoch_event_cb_count_umount ok"]
    by (auto simp: umount_handler_def epoch_count_umount_def safe_def)
qed

lemma safe_capture:
  assumes "kinv T k"
  shows "safe T (state_of (capture_block env bdev buf nr blksize k))"
proof -
  obtain fin where t: "tables_ok k" and O: "owners_ok T k fin" using assms by (auto simp: kinv_def)
  note O' = owners_okD[OF O]
  have same: "safe T (state_of (Inr (c, k)))" for c :: bool using assms by (simp add: safe_def)
  show ?thesis
  proof (cases "get_device_data_always (from_block_device_to_mountinfo bdev) k")
    case None
    then show ?thesis using same by (simp add: capture_block_def bdsnap_search_device_def bdsnap_make_snapshot_def)
  next
    case (Some oid)
    then obtain data where data: "objs k oid = Some data" using live_object[OF t] by blast
    obtain w q where w: "od_wq data = Some w" "wqs k w = Some q" "fin w = od_e data" "\<not> wq_is_destroyed data"
      "set_option (od_e data) \<subseteq> dom (epochs k)"
      by (rule owners_ok_epochs_live[OF O data])
    have eq: "capture_block env bdev buf nr blksize k = queue_snapshot_work env data buf nr (ucast blksize) k"
      using Some data w(4)
      by (simp add: capture_block_def bdsnap_search_device_def bdsnap_make_snapshot_def queue_snapshot_work_def)
    show ?thesis
    proof (cases "od_e data")
      case None
      then show ?thesis using same eq by (simp add: queue_snapshot_work_def)
    next
      case (Some e)
      with w(5) obtain ep where ep: "epochs k e = Some ep" by auto
      have K: "kinv T (k\<lparr>wqs := (wqs k)(w \<mapsto> q @ [SnapshotWork e m])\<rparr>)" for m
        by (rule kinvI[OF _ owners_ok_snapshot[OF O data w(1,2) Some]]) (use t in \<open>simp add: tables_ok_def\<close>)
      show ?thesis unfolding eq using same Some ep w K
        by (auto simp: queue_snapshot_work_def Let_def safe_def)
    qed
  qed
qed

subsection \<open>Workers\<close>

lemma make_snapshot_fault:
  "make_snapshot bkt env msw (ep, v) = Inl f \<Longrightarrow> f \<noteq> UseAfterFree"
  by (auto simp: make_snapshot_def Let_def ensure_cached_blocks_lru_ok_def lru_ng_alloc_and_init_def
      kfree_of_def snapshot_into_file_def split: option.splits sum.splits prod.splits if_splits file_ptr.splits bool.splits)

lemma make_snapshot_keeps:
  "make_snapshot bkt env msw (ep, v) = Inr (ep', v') \<Longrightarrow> n_currently_mounted ep' = n_currently_mounted ep"
  by (auto simp: make_snapshot_def Let_def split: option.splits sum.splits prod.splits if_splits file_ptr.splits bool.splits)

lemma destroy_an_epoch_returns: "\<exists>v'. destroy_an_epoch lsz ep v = Inr v'"
  by (auto simp: destroy_an_epoch_def lru_ng_cleanup_and_destroy_def lru_ng_allocator_def vfree_of_def
     sizeof_lru_ng_hasht_def LRU_NG__HT_BUCKET_BITS_def Let_def split: option.splits sum.splits)

text \<open>What a worker needs and keeps, apart from the handles: it changes one queue, the contents of
  epochs, and the file system.\<close>

definition lines_ok :: "bool \<Rightarrow> kstate \<Rightarrow> (nat \<Rightarrow> nat option) \<Rightarrow> bool" where
  "lines_ok T k fin \<longleftrightarrow> queues_ok T (wqs k) (dom (epochs k)) fin \<and> fresh_ok k"

text \<open>\<open>k'\<close> is \<open>k\<close> after some runs of the worker of queue \<open>w\<close>.\<close>

definition worked :: "nat \<Rightarrow> kstate \<Rightarrow> kstate \<Rightarrow> bool" where
  "worked w k k' \<longleftrightarrow> k' = k\<lparr>wqs := wqs k', epochs := epochs k', kvfs := kvfs k'\<rparr> \<and>
     (\<forall>v. v \<noteq> w \<longrightarrow> wqs k' v = wqs k v) \<and> dom (wqs k') = dom (wqs k) \<and> dom (epochs k') \<subseteq> dom (epochs k)"

lemma worked_refl: "worked w k k"
  by (simp add: worked_def)

lemma worked_trans:
  assumes "worked w k k1" "worked w k1 k2"
  shows "worked w k k2"
proof -
  have "k2 = k1\<lparr>wqs := wqs k2, epochs := epochs k2, kvfs := kvfs k2\<rparr>"
    and "k1 = k\<lparr>wqs := wqs k1, epochs := epochs k1, kvfs := kvfs k1\<rparr>"
    using assms by (simp_all add: worked_def)
  then have "k2 = k\<lparr>wqs := wqs k1, epochs := epochs k1, kvfs := kvfs k1\<rparr>\<lparr>wqs := wqs k2, epochs := epochs k2, kvfs := kvfs k2\<rparr>"
    by metis
  then have "k2 = k\<lparr>wqs := wqs k2, epochs := epochs k2, kvfs := kvfs k2\<rparr>" by simp
  moreover have "\<forall>v. v \<noteq> w \<longrightarrow> wqs k2 v = wqs k v" "dom (wqs k2) = dom (wqs k)" "dom (epochs k2) \<subseteq> dom (epochs k)"
    using assms unfolding worked_def by (simp, simp, blast)
  ultimately show ?thesis unfolding worked_def by blast
qed

lemma worked_dom: "worked w k k' \<Longrightarrow> dom (wqs k') = dom (wqs k)"
  by (simp add: worked_def)

lemma worked_same:
  assumes "worked w k k'"
  shows "objs k' = objs k" "system_wq k' = system_wq k" "waddw_worklist k' = waddw_worklist k"
    "blkdevs_ht k' = blkdevs_ht k" "loops_ht k' = loops_ht k" "next_id k' = next_id k"
    "allow_reging_operation k' = allow_reging_operation k" "v \<noteq> w \<Longrightarrow> wqs k' v = wqs k v"
    "dom (epochs k') \<subseteq> dom (epochs k)"
proof -
  have eq: "k' = k\<lparr>wqs := wqs k', epochs := epochs k', kvfs := kvfs k'\<rparr>" using assms by (simp add: worked_def)
  show "objs k' = objs k" "system_wq k' = system_wq k" "waddw_worklist k' = waddw_worklist k"
    "blkdevs_ht k' = blkdevs_ht k" "loops_ht k' = loops_ht k" "next_id k' = next_id k"
    "allow_reging_operation k' = allow_reging_operation k" by (subst eq, simp)+
  show "v \<noteq> w \<Longrightarrow> wqs k' v = wqs k v" "dom (epochs k') \<subseteq> dom (epochs k)" using assms by (simp_all add: worked_def)
qed

lemma fresh_ok_worked:
  assumes "worked w k k'" "fresh_ok k"
  shows "fresh_ok k'"
proof -
  have sub: "dom (wqs k') \<union> dom (epochs k') \<union> fst ` set (system_wq k') \<subseteq>
      dom (wqs k) \<union> dom (epochs k) \<union> fst ` set (system_wq k)"
    using worked_dom[OF assms(1)] worked_same(2)[OF assms(1)] worked_same(9)[OF assms(1)] by (simp add: le_supI1 le_supI2)
  show ?thesis unfolding fresh_ok_def worked_same(6)[OF assms(1)]
    using assms(2)[unfolded fresh_ok_def] sub by (intro ballI) (drule subsetD, assumption, blast)
qed

lemma run_wq_head_step:
  assumes L: "lines_ok T k fin" and q: "wqs k w = Some (x # q)"
  shows "case run_wq_head bkt menv w k of
      Inl f \<Rightarrow> f \<noteq> UseAfterFree \<and> (is_cleanup x \<longrightarrow> False)
    | Inr k' \<Rightarrow> lines_ok T k' fin \<and> worked w k k' \<and> wqs k' w = Some q"
proof (cases x)
  case (SnapshotWork e m)
  from L have Q: "queues_ok T (wqs k) (dom (epochs k)) fin" "fresh_ok k" by (simp_all add: lines_ok_def)
  note pop = queues_ok_pop_snapshot[OF Q(1) q[unfolded SnapshotWork]]
  obtain ep where ep: "epochs k e = Some ep" using pop(1) by auto
  show ?thesis
  proof (cases "make_snapshot bkt menv m (ep, kvfs k)")
    case (Inl f)
    then show ?thesis using q SnapshotWork ep make_snapshot_fault[OF Inl]
      by (simp add: run_wq_head_def run_work_unfold)
  next
    case (Inr st)
    obtain ep' v' where st: "st = (ep', v')" by (cases st)
    let ?k = "k\<lparr>wqs := (wqs k)(w \<mapsto> q), epochs := (epochs k)(e \<mapsto> ep'), kvfs := v'\<rparr>"
    have r: "run_wq_head bkt menv w k = Inr ?k"
      using q SnapshotWork ep Inr st by (simp add: run_wq_head_def run_work_unfold)
    have dom: "dom ((epochs k)(e \<mapsto> ep')) = dom (epochs k)" using ep by auto
    have W: "worked w k ?k" unfolding worked_def using q dom by auto
    have "queues_ok T (wqs ?k) (dom (epochs ?k)) fin" using pop(2) dom by simp
    then have "lines_ok T ?k fin" using fresh_ok_worked[OF W Q(2)] by (simp add: lines_ok_def)
    then show ?thesis using r W by simp
  qed
next
  case (CleanupEpochWork e)
  from L have Q: "queues_ok T (wqs k) (dom (epochs k)) fin" "fresh_ok k" by (simp_all add: lines_ok_def)
  note pop = queues_ok_pop_cleanup[OF Q(1) q[unfolded CleanupEpochWork]]
  obtain ep where ep: "epochs k e = Some ep" using pop(1) by auto
  obtain v' where v': "destroy_an_epoch (list_lru_size menv) (Some ep) (kvfs k) = Inr v'"
    using destroy_an_epoch_returns by blast
  let ?k = "k\<lparr>wqs := (wqs k)(w \<mapsto> q), epochs := (epochs k)(e := None), kvfs := v'\<rparr>"
  have r: "run_wq_head bkt menv w k = Inr ?k"
    using q CleanupEpochWork ep v' by (simp add: run_wq_head_def run_work_unfold)
  have W: "worked w k ?k" unfolding worked_def using q by auto
  have "queues_ok T (wqs ?k) (dom (epochs ?k)) fin" using pop(2) by simp
  then have "lines_ok T ?k fin" using fresh_ok_worked[OF W Q(2)] by (simp add: lines_ok_def)
  then show ?thesis using r W by simp
qed

lemma run_wq_n_steps:
  assumes "lines_ok T k fin" "wqs k w = Some q"
  shows "case run_wq_n bkt menv w (length q) k of
      Inl f \<Rightarrow> f \<noteq> UseAfterFree \<and> \<not> (\<forall>x \<in> set q. is_cleanup x)
    | Inr k' \<Rightarrow> lines_ok T k' fin \<and> worked w k k' \<and> wqs k' w = Some []"
  using assms
proof (induction q arbitrary: k)
  case Nil
  then show ?case by (simp add: worked_refl)
next
  case (Cons x q)
  note step = run_wq_head_step[OF Cons.prems, of bkt menv]
  show ?case
  proof (cases "run_wq_head bkt menv w k")
    case (Inl f)
    with step show ?thesis by auto
  next
    case (Inr k1)
    with step have 1: "lines_ok T k1 fin" "worked w k k1" "wqs k1 w = Some q" by auto
    from Cons.IH[OF 1(1,3)] Inr 1(2) show ?thesis
      by (auto split: sum.splits intro: worked_trans)
  qed
qed

lemma owners_ok_worked:
  assumes "owners_ok T k fin" "lines_ok T k' fin" "worked w k k'"
  shows "owners_ok T k' fin"
  using assms worked_dom[OF assms(3)] worked_same[OF assms(3)]
  by (simp add: owners_ok_def lines_ok_def)

lemma owners_ok_lines: "owners_ok T k fin \<Longrightarrow> lines_ok T k fin"
  by (simp add: owners_ok_def lines_ok_def)

lemma tables_ok_worked: "tables_ok k \<Longrightarrow> worked w k k' \<Longrightarrow> tables_ok k'"
  using worked_same[of w k k'] by (simp add: tables_ok_def)

lemma safe_worker:
  assumes "kinv T k"
  shows "safe T (run_wq_head bkt menv w k)"
proof -
  obtain fin where t: "tables_ok k" and O: "owners_ok T k fin" using assms by (auto simp: kinv_def)
  show ?thesis
  proof (cases "\<exists>x q. wqs k w = Some (x # q)")
    case False
    then have "run_wq_head bkt menv w k = Inr k"
      by (auto simp: run_wq_head_def split: option.splits list.splits)
    then show ?thesis using assms by (simp add: safe_def)
  next
    case True
    then obtain x q where q: "wqs k w = Some (x # q)" by blast
    note step = run_wq_head_step[OF owners_ok_lines[OF O] q, of bkt menv]
    show ?thesis
    proof (cases "run_wq_head bkt menv w k")
      case (Inr k')
      with step have "lines_ok T k' fin" "worked w k k'" by auto
      then have "kinv T k'" by (intro kinvI[OF tables_ok_worked[OF t] owners_ok_worked[OF O]])
      with Inr show ?thesis by (simp add: safe_def)
    qed (use step in \<open>simp add: safe_def\<close>)
  qed
qed

subsection \<open>Deferred destruction\<close>

lemma do_waddw_step:
  assumes L: "lines_ok T k fin" and w: "wqs k w = Some q" "device_wq a = Some w" "last_epoch a = fin w"
    and notobj: "\<forall>oid d. objs k oid = Some d \<longrightarrow> od_wq d \<noteq> Some w"
  shows "case do_waddw bkt menv a k of
      Inl f \<Rightarrow> f \<noteq> UseAfterFree \<and> \<not> (\<forall>x \<in> set q. is_cleanup x)
    | Inr k' \<Rightarrow> lines_ok T k' fin \<and> (\<exists>E V W. k' = k\<lparr>wqs := W, epochs := E, kvfs := V\<rparr> \<and> W = (wqs k)(w := None))"
proof -
  note run = run_wq_n_steps[OF L w(1), of bkt menv]
  show ?thesis
  proof (cases "run_wq_n bkt menv w (length q) k")
    case (Inl f)
    with run w show ?thesis by (simp add: do_waddw_def flush_workqueue_def)
  next
    case (Inr k1)
    with run have 1: "lines_ok T k1 fin" "worked w k k1" "wqs k1 w = Some []" by auto
    let ?E = "case fin w of None \<Rightarrow> epochs k1 | Some e \<Rightarrow> (epochs k1)(e := None)"
    have Q1: "queues_ok T (wqs k1) (dom (epochs k1)) fin" "fresh_ok k1" using 1(1) by (simp_all add: lines_ok_def)
    have sub: "set_option (fin w) \<subseteq> dom (epochs k1)" using queues_okD(1)[OF Q1(1) 1(3)] by simp
    obtain V where dw: "do_waddw bkt menv a k = Inr (k1\<lparr>wqs := (wqs k1)(w := None), epochs := ?E, kvfs := V\<rparr>)"
    proof (cases "fin w")
      case None
      then have "do_waddw bkt menv a k = Inr (k1\<lparr>wqs := (wqs k1)(w := None), epochs := ?E, kvfs := kvfs k1\<rparr>)"
        using Inr w by (simp add: do_waddw_def flush_workqueue_def destroy_epoch_id_def)
      then show thesis by (rule that)
    next
      case (Some e)
      with sub obtain ep where ep: "epochs k1 e = Some ep" by auto
      obtain v' where v': "destroy_an_epoch (list_lru_size menv) (Some ep) (kvfs k1) = Inr v'"
        using destroy_an_epoch_returns by blast
      have "do_waddw bkt menv a k = Inr (k1\<lparr>wqs := (wqs k1)(w := None), epochs := ?E, kvfs := v'\<rparr>)"
        using Inr w Some ep v' by (simp add: do_waddw_def flush_workqueue_def destroy_epoch_id_def)
      then show thesis by (rule that)
    qed
    let ?k = "k1\<lparr>wqs := (wqs k1)(w := None), epochs := ?E, kvfs := V\<rparr>"
    have dom: "dom ?E = dom (epochs k1) - set_option (fin w)" by (cases "fin w") auto
    have "lines_ok T ?k fin"
    proof -
      have "queues_ok T (wqs ?k) (dom (epochs ?k)) fin" using queues_ok_unset[OF Q1(1) 1(3)] dom by simp
      moreover have "fresh_ok ?k" using Q1(2) dom by (auto simp: fresh_ok_def)
      ultimately show ?thesis by (simp add: lines_ok_def)
    qed
    moreover have "\<exists>E V W. ?k = k\<lparr>wqs := W, epochs := E, kvfs := V\<rparr> \<and> W = (wqs k)(w := None)"
    proof -
      have W: "(wqs k1)(w := None) = (wqs k)(w := None)" using worked_same(8)[OF 1(2)] by auto
      have "k1 = k\<lparr>wqs := wqs k1, epochs := epochs k1, kvfs := kvfs k1\<rparr>" using 1(2) unfolding worked_def by blast
      then have "?k = k\<lparr>wqs := wqs k1, epochs := epochs k1, kvfs := kvfs k1\<rparr>\<lparr>wqs := (wqs k1)(w := None), epochs := ?E, kvfs := V\<rparr>"
        by metis
      then have "?k = k\<lparr>wqs := (wqs k)(w := None), epochs := ?E, kvfs := V\<rparr>" using W by simp
      then show ?thesis by blast
    qed
    ultimately show ?thesis using dw by simp
  qed
qed

lemma map_of_distinct: "distinct (map fst S) \<Longrightarrow> (i, a) \<in> set S \<Longrightarrow> map_of S i = Some a"
  by simp

lemma run_system_work_step:
  assumes O: "owners_ok T k fin" and i: "map_of (system_wq k) i = Some a"
  shows "\<exists>w q. device_wq a = Some w \<and> wqs k w = Some q \<and> (case run_system_work bkt menv i k of
      Inl f \<Rightarrow> f \<noteq> UseAfterFree \<and> \<not> (\<forall>x \<in> set q. is_cleanup x)
    | Inr k' \<Rightarrow> owners_ok T k' fin \<and> (\<exists>E V. k' = k\<lparr>system_wq := filter (\<lambda>n. fst n \<noteq> i) (system_wq k),
        wqs := (wqs k)(w := None), epochs := E, kvfs := V\<rparr>))"
proof -
  note O' = owners_okD[OF O]
  have mem: "(i, a) \<in> set (system_wq k)" by (rule map_of_SomeD[OF i])
  then obtain w where w: "w \<in> dom (wqs k)" "device_wq a = Some w" "fin w = last_epoch a"
    using handles_okD(3)[OF O'(1)] by fastforce
  then obtain q where q: "wqs k w = Some q" by blast
  let ?S = "filter (\<lambda>n. fst n \<noteq> i) (system_wq k)"
  let ?k = "k\<lparr>system_wq := ?S\<rparr>"
  have L: "lines_ok T ?k fin" using O'(2-3) by (auto simp: lines_ok_def fresh_ok_def)
  have notobj: "\<forall>oid d. objs ?k oid = Some d \<longrightarrow> od_wq d \<noteq> Some w"
    using handles_okD(6)[OF O'(1) _ mem] w(2) by auto
  have run: "run_system_work bkt menv i k = do_waddw bkt menv a ?k" using i by (simp add: run_system_work_def)
  have q': "wqs ?k w = Some q" using q by simp
  note step = do_waddw_step[OF L q' w(2) w(3)[symmetric] notobj, of bkt menv]
  show ?thesis
  proof (cases "do_waddw bkt menv a ?k")
    case (Inl f)
    with step run q w(2) show ?thesis by auto
  next
    case (Inr k')
    with step obtain E V where k': "k' = ?k\<lparr>wqs := (wqs k)(w := None), epochs := E, kvfs := V\<rparr>" and L': "lines_ok T k' fin"
      by auto
    have "handles_ok T (objs k') (system_wq k') (dom (wqs k')) fin"
      using handles_ok_done[OF O'(1) mem w(2)] by (simp add: k')
    then have "owners_ok T k' fin" using L' O'(4) by (auto simp: owners_ok_def lines_ok_def k')
    with Inr run q w(2) k' show ?thesis by auto
  qed
qed

lemma safe_system_work:
  assumes "kinv T k"
  shows "safe T (run_system_work bkt menv i k)"
proof -
  obtain fin where t: "tables_ok k" and O: "owners_ok T k fin" using assms by (auto simp: kinv_def)
  show ?thesis
  proof (cases "map_of (system_wq k) i")
    case None
    then show ?thesis using assms by (simp add: run_system_work_def safe_def)
  next
    case (Some a)
    note step = run_system_work_step[OF O Some, of bkt menv]
    show ?thesis
    proof (cases "run_system_work bkt menv i k")
      case (Inr k')
      with step obtain w E V where k': "owners_ok T k' fin" "k' = k\<lparr>system_wq := filter (\<lambda>n. fst n \<noteq> i) (system_wq k),
        wqs := (wqs k)(w := None), epochs := E, kvfs := V\<rparr>" by auto
      have "tables_ok k'" using t by (simp add: k'(2) tables_ok_def)
      with k'(1) Inr show ?thesis by (simp add: safe_def kinvI)
    qed (use step in \<open>auto simp: safe_def\<close>)
  qed
qed

subsection \<open>Module exit\<close>

lemma ht_free_all_frees:
  assumes "owners_ok T k fin" "set oids \<subseteq> dom (objs k)" "distinct oids"
    and "T \<longrightarrow> kmalloc_wlistnode_ok env \<and> kmalloc_wargs_ok env"
    and free: "\<And>oid k data. objs k oid = Some data \<Longrightarrow> free_fn oid k = Inr (retire env oid data k)"
  shows "\<exists>k'. ht_free_all free_fn oids k = Inr k' \<and> owners_ok T k' fin \<and>
    objs k' = (objs k) |` (- set oids) \<and> wqs k' = wqs k \<and> blkdevs_ht k' = blkdevs_ht k \<and> loops_ht k' = loops_ht k \<and>
    allow_reging_operation k' = allow_reging_operation k"
  using assms(1-3)
proof (induction oids arbitrary: k)
  case Nil
  then show ?case by (simp add: restrict_map_def)
next
  case (Cons oid oids)
  then obtain data where data: "objs k oid = Some data" by auto
  let ?k = "retire env oid data k"
  have "owners_ok T ?k fin" by (rule owners_ok_retire[OF Cons.prems(1) data assms(4)])
  moreover have "set oids \<subseteq> dom (objs ?k)" using Cons.prems(2,3) by auto
  ultimately have "\<exists>k'. ht_free_all free_fn oids ?k = Inr k' \<and> owners_ok T k' fin \<and>
      objs k' = (objs ?k) |` (- set oids) \<and> wqs k' = wqs ?k \<and> blkdevs_ht k' = blkdevs_ht ?k \<and>
      loops_ht k' = loops_ht ?k \<and> allow_reging_operation k' = allow_reging_operation ?k"
    by (rule Cons.IH) (use Cons.prems(3) in simp)
  then obtain k' where k': "ht_free_all free_fn oids ?k = Inr k'" "owners_ok T k' fin"
    "objs k' = (objs ?k) |` (- set oids)" "wqs k' = wqs ?k" "blkdevs_ht k' = blkdevs_ht ?k" "loops_ht k' = loops_ht ?k"
    "allow_reging_operation k' = allow_reging_operation ?k" by blast
  moreover have "(objs ?k) |` (- set oids) = (objs k) |` (- set (oid # oids))"
    by (auto simp: restrict_map_def fun_eq_iff)
  ultimately have "objs k' = (objs k) |` (- set (oid # oids))" by simp
  with k' data show ?case by (simp add: free)
qed

definition only_cleanups :: "kstate \<Rightarrow> bool" where
  "only_cleanups k \<longleftrightarrow> (\<forall>w q. wqs k w = Some q \<longrightarrow> (\<forall>x \<in> set q. is_cleanup x))"

lemma owners_ok_unlist:
  assumes "owners_ok T k fin" "i \<notin> fst ` set (system_wq k)"
  shows "owners_ok T (k\<lparr>waddw_worklist := filter (\<lambda>n. fst n \<noteq> i) (waddw_worklist k)\<rparr>) fin"
  using assms by (auto simp: owners_ok_def fresh_ok_def)

text \<open>The result of flushing the works \<open>L\<close>, which are all that are pending.\<close>

definition flushed ::
  "bool \<Rightarrow> (nat \<Rightarrow> nat option) \<Rightarrow> (nat \<times> waddw_args) list \<Rightarrow> kstate \<Rightarrow> fault + kstate \<Rightarrow> bool" where
  "flushed T fin L k r \<longleftrightarrow> (case r of
      Inl f \<Rightarrow> f \<noteq> UseAfterFree \<and> \<not> only_cleanups k
    | Inr k' \<Rightarrow> owners_ok T k' fin \<and> system_wq k' = [] \<and> objs k' = objs k \<and> blkdevs_ht k' = blkdevs_ht k \<and>
        loops_ht k' = loops_ht k \<and> allow_reging_operation k' = allow_reging_operation k \<and>
        waddw_worklist k' = filter (\<lambda>n. fst n \<notin> fst ` set L) (waddw_worklist k))"

lemma flush_worklist_all:
  assumes "owners_ok T k fin" "fst ` set (system_wq k) \<subseteq> fst ` set L"
  shows "flushed T fin L k (flush_worklist bkt menv L k)"
  using assms
proof (induction L arbitrary: k)
  case Nil
  then show ?case by (simp add: flushed_def)
next
  case (Cons cur L)
  let ?i = "fst cur"
  let ?cut = "\<lambda>k. k\<lparr>waddw_worklist := filter (\<lambda>n. fst n \<noteq> ?i) (waddw_worklist k)\<rparr>"
  have rest: "flushed T fin (cur # L) k (flush_worklist bkt menv (cur # L) k)"
    if r: "run_system_work bkt menv ?i k = Inr k1" and O1: "owners_ok T k1 fin" and q: "only_cleanups k \<longrightarrow> only_cleanups k1"
      and S: "system_wq k1 = filter (\<lambda>n. fst n \<noteq> ?i) (system_wq k)"
      and same: "objs k1 = objs k" "blkdevs_ht k1 = blkdevs_ht k" "loops_ht k1 = loops_ht k"
        "allow_reging_operation k1 = allow_reging_operation k" "waddw_worklist k1 = waddw_worklist k" for k1
  proof -
    have "owners_ok T (?cut k1) fin" by (rule owners_ok_unlist[OF O1]) (auto simp: S)
    moreover have "fst ` set (system_wq (?cut k1)) \<subseteq> fst ` set L" using Cons.prems(2) S by auto
    ultimately have IH: "flushed T fin L (?cut k1) (flush_worklist bkt menv L (?cut k1))" by (rule Cons.IH)
    have "filter (\<lambda>n. fst n \<notin> fst ` set L) (filter (\<lambda>n. fst n \<noteq> ?i) (waddw_worklist k)) =
        filter (\<lambda>n. fst n \<notin> fst ` set (cur # L)) (waddw_worklist k)"
      by (simp add: conj_commute)
    moreover have "only_cleanups (?cut k1) = only_cleanups k1" by (simp add: only_cleanups_def)
    ultimately show ?thesis using IH r q same
      by (cases "flush_worklist bkt menv L (?cut k1)") (auto simp: flushed_def)
  qed
  show ?case
  proof (cases "map_of (system_wq k) ?i")
    case None
    have "?i \<notin> fst ` set (system_wq k)" using None by (simp add: map_of_eq_None_iff)
    then have S: "system_wq k = filter (\<lambda>n. fst n \<noteq> ?i) (system_wq k)"
      by (intro filter_True[symmetric] ballI) (metis image_eqI)
    show ?thesis by (rule rest[of k]) (use Cons.prems(1) None S in \<open>simp_all add: run_system_work_def\<close>)
  next
    case (Some a)
    obtain w q where w: "wqs k w = Some q" and step: "case run_system_work bkt menv ?i k of
        Inl f \<Rightarrow> f \<noteq> UseAfterFree \<and> \<not> (\<forall>x \<in> set q. is_cleanup x)
      | Inr k' \<Rightarrow> owners_ok T k' fin \<and> (\<exists>E V. k' = k\<lparr>system_wq := filter (\<lambda>n. fst n \<noteq> ?i) (system_wq k),
          wqs := (wqs k)(w := None), epochs := E, kvfs := V\<rparr>)"
      using run_system_work_step[OF Cons.prems(1) Some, of bkt menv] by blast
    show ?thesis
    proof (cases "run_system_work bkt menv ?i k")
      case (Inl f)
      with step w show ?thesis by (auto simp: only_cleanups_def flushed_def)
    next
      case (Inr k1)
      with step obtain E V where k1: "owners_ok T k1 fin" "k1 = k\<lparr>system_wq := filter (\<lambda>n. fst n \<noteq> ?i) (system_wq k),
          wqs := (wqs k)(w := None), epochs := E, kvfs := V\<rparr>" by auto
      show ?thesis
        by (rule rest[OF Inr k1(1)]) (simp_all add: k1(2) only_cleanups_def)
    qed
  qed
qed

text \<open>With no objects and nothing pending there are no workqueues and no epochs.\<close>

lemma owners_ok_empty:
  assumes "owners_ok True k fin" "objs k = Map.empty" "system_wq k = []"
  shows "wqs k = Map.empty \<and> epochs k = Map.empty"
proof -
  note O = owners_okD[OF assms(1)]
  have W: "wqs k = Map.empty"
    using handles_okD(7)[OF O(1)] assms(2,3) by auto
  then have "e \<notin> dom (epochs k)" for e using queues_okD(3)[OF O(2), of e] by auto
  with W show ?thesis by auto
qed

lemma destroy_devices_outcome:
  assumes "tables_ok k" "owners_ok T k fin" "T \<longrightarrow> kmalloc_wlistnode_ok env \<and> kmalloc_wargs_ok env"
  shows "case destroy_devices bkt menv env k of
      Inl f \<Rightarrow> f \<noteq> UseAfterFree \<and> \<not> only_cleanups k
    | Inr k' \<Rightarrow> owners_ok T k' fin \<and> \<not> allow_reging_operation k' \<and> blkdevs_ht k' = [] \<and> loops_ht k' = [] \<and>
        objs k' = Map.empty \<and> system_wq k' = [] \<and> waddw_worklist k' = []"
proof -
  note t = assms(1)[unfolded tables_ok_def]
  let ?k1 = "k\<lparr>allow_reging_operation := False\<rparr>"
  obtain k2 where k2: "ht_free_all (blkdevs_ht_free_fn env) (map snd (blkdevs_ht ?k1)) ?k1 = Inr k2" "owners_ok T k2 fin"
    "objs k2 = (objs ?k1) |` (- snd ` set (blkdevs_ht k))" "wqs k2 = wqs k" "blkdevs_ht k2 = blkdevs_ht k"
    "loops_ht k2 = loops_ht k" "\<not> allow_reging_operation k2"
    using ht_free_all_frees[of T ?k1 fin "map snd (blkdevs_ht ?k1)" env "blkdevs_ht_free_fn env", OF _ _ _ _ ht_free_fn_live(1)]
      assms t by auto
  let ?k2 = "k2\<lparr>blkdevs_ht := []\<rparr>"
  have live: "set (map snd (loops_ht k2)) \<subseteq> dom (objs ?k2)"
  proof
    fix x assume "x \<in> set (map snd (loops_ht k2))"
    then have x: "x \<in> snd ` set (loops_ht k)" using k2(6) by simp
    then have "x \<notin> snd ` set (blkdevs_ht k)" "x \<in> dom (objs k)" using t by blast+
    then show "x \<in> dom (objs ?k2)" using k2(3) by simp
  qed
  obtain k3 where k3: "ht_free_all (loops_ht_free_fn env) (map snd (loops_ht k2)) ?k2 = Inr k3" "owners_ok T k3 fin"
    "objs k3 = (objs ?k2) |` (- set (map snd (loops_ht k2)))" "wqs k3 = wqs k2" "blkdevs_ht k3 = []"
    "loops_ht k3 = loops_ht k2" "\<not> allow_reging_operation k3"
    using ht_free_all_frees[of T ?k2 fin "map snd (loops_ht k2)" env "loops_ht_free_fn env", OF _ _ _ _ ht_free_fn_live(2)]
      k2(2,6,7) live assms(3) t by auto
  have empty: "objs k3 = Map.empty"
  proof -
    have "x \<notin> dom (objs k3)" for x
    proof
      assume "x \<in> dom (objs k3)"
      then have "x \<in> dom (objs k)" "x \<notin> snd ` set (blkdevs_ht k)" "x \<notin> snd ` set (loops_ht k)"
        using k3(3) k2(3,6) by auto
      with t show False by blast
    qed
    then show ?thesis by blast
  qed
  let ?k4 = "k3\<lparr>loops_ht := []\<rparr>"
  have O4: "owners_ok T ?k4 fin" using k3(2) by simp
  have "fst ` set (system_wq ?k4) \<subseteq> fst ` set (waddw_worklist ?k4)" using owners_okD(4)[OF O4] by blast
  note fl = flush_worklist_all[OF O4 this, of bkt menv]
  have none: "filter (\<lambda>n. fst n \<notin> fst ` set L) L = []" for L :: "(nat \<times> waddw_args) list"
    by (simp add: filter_empty_conv)
  have "only_cleanups ?k4 = only_cleanups k" using k3(4) k2(4) by (simp add: only_cleanups_def)
  then show ?thesis using fl k2(1) k3(1,5,7) empty none
    by (auto simp: destroy_devices_def flushed_def Let_def split: sum.splits)
qed

lemma safe_destroy:
  assumes "kinv T k" "T \<longrightarrow> kmalloc_wlistnode_ok env \<and> kmalloc_wargs_ok env"
  shows "safe T (destroy_devices bkt menv env k)"
proof -
  obtain fin where t: "tables_ok k" and O: "owners_ok T k fin" using assms(1) by (auto simp: kinv_def)
  note out = destroy_devices_outcome[OF t O assms(2), of bkt menv]
  show ?thesis
  proof (cases "destroy_devices bkt menv env k")
    case (Inr k')
    with out have k': "owners_ok T k' fin" "blkdevs_ht k' = []" "loops_ht k' = []" "objs k' = Map.empty" by auto
    have "tables_ok k'" using k' by (simp add: tables_ok_def)
    with k'(1) Inr show ?thesis by (simp add: safe_def kinvI)
  qed (use out in \<open>simp add: safe_def\<close>)
qed

section \<open>The transition system\<close>

text \<open>One step of anyone, with its result. With \<open>T\<close> the atomic allocations of the cleanup paths
  succeed; the workqueue of a new device is always allocated.\<close>

datatype kevent = Activation dev_env string | OtherEvent

text \<open>The workqueue of a new device is allocated.\<close>

fun allocated :: "kevent \<Rightarrow> bool" where
  "allocated (Activation env path) = alloc_workqueue_ok env"
| "allocated OtherEvent = True"

inductive kstep :: "(u64 \<Rightarrow> nat) \<Rightarrow> bool \<Rightarrow> kevent \<Rightarrow> kstate \<Rightarrow> fault + kstate \<Rightarrow> bool" for bkt T where
  activate: "kstep bkt T (Activation env path) k (state_of (register_device bkt menv env path k))"
| deactivate: "T \<longrightarrow> kmalloc_wlistnode_ok env \<and> kmalloc_wargs_ok env \<Longrightarrow>
    kstep bkt T OtherEvent k (state_of (unregister_device env path k))"
| mount: "kstep bkt T OtherEvent k (mount_handler ok t minfo regs k)"
| umount: "T \<longrightarrow> ok \<Longrightarrow> kstep bkt T OtherEvent k (umount_handler ok minfo regs k)"
| capture: "kstep bkt T OtherEvent k (state_of (capture_block benv bdev buf nr blksize k))"
| worker: "kstep bkt T OtherEvent k (run_wq_head bkt menv w k)"
| destroyer: "kstep bkt T OtherEvent k (run_system_work bkt menv i k)"
| file_system: "kstep bkt T OtherEvent k (Inr (k\<lparr>kvfs := v\<rparr>))"
| exit: "T \<longrightarrow> kmalloc_wlistnode_ok env \<and> kmalloc_wargs_ok env \<Longrightarrow>
    kstep bkt T OtherEvent k (destroy_devices bkt menv env k)"

inductive reach :: "(u64 \<Rightarrow> nat) \<Rightarrow> bool \<Rightarrow> vfs \<Rightarrow> kstate \<Rightarrow> bool" for bkt T v where
  init: "reach bkt T v (started v)"
| step: "reach bkt T v k \<Longrightarrow> kstep bkt T ev k (Inr k') \<Longrightarrow> allocated ev \<Longrightarrow> reach bkt T v k'"

inductive_cases kstepE: "kstep bkt T ev k r"

lemma kstep_safe:
  assumes "kstep bkt T ev k r" "allocated ev" "kinv T k"
  shows "safe T r \<or> r = Inl UseAfterFree \<and> (\<exists>env path. ev = Activation env path \<and> \<not> paths_resolve env path)"
proof -
  obtain fin where "tables_ok k" "owners_ok T k fin" using assms(3) by (auto simp: kinv_def)
  then have "safe T (Inr (k\<lparr>kvfs := v\<rparr>))" for v by (auto simp: safe_def tables_ok_def intro!: kinvI)
  with assms show ?thesis
    by (elim kstepE) (use safe_register_any in fastforce, simp_all add: safe_unregister safe_mount safe_umount safe_capture safe_worker
        safe_system_work safe_destroy)
qed

lemma kinv_started: "kinv T (started v)"
proof (rule kinvI)
  show "tables_ok (started v)" using started_ok by (simp add: registry_ok_def)
  show "owners_ok T (started v) (\<lambda>_. None)"
    by (simp add: owners_ok_def handles_ok_def queues_ok_def fresh_ok_def start_defs)
qed

lemma reach_kinv: "reach bkt T v k \<Longrightarrow> kinv T k"
proof (induction rule: reach.induct)
  case (step k ev k')
  then have "safe T (Inr k')" using kstep_safe by (metis sum.distinct(1))
  then show ?case by (simp add: safe_def)
qed (rule kinv_started)

section \<open>Properties\<close>

text \<open>C6: whatever the order of activations, deactivations, mounts, unmounts, captured blocks, worker
  runs, deferred destructions, file system changes and module exit, if the workqueue of every new device could be
  allocated (\<open>reach\<close>), no step reads a freed object, epoch or workqueue. The step itself may be any step of the code but the
  activation of an image file or a loop device whose full path cannot be found out, which reads the object it has
  just freed (\<open>register_path_error_uaf\<close>), or one whose workqueue cannot be allocated.\<close>

theorem no_use_after_free:
  assumes "reach bkt T v k" "kstep bkt T ev k r"
    and "\<forall>env path. ev = Activation env path \<longrightarrow> alloc_workqueue_ok env \<and> paths_resolve env path"
  shows "r \<noteq> Inl UseAfterFree"
proof -
  have "allocated ev" using assms(3) by (cases ev) auto
  from kstep_safe[OF assms(2) this reach_kinv[OF assms(1)]] assms(3) show ?thesis by (auto simp: safe_def)
qed

abbreviation (input) sample_menv :: ms_env where
  "sample_menv \<equiv> sample_env \<lparr>wr_hdr = 40, wr_ext = 0, wr_payld = 2\<rparr>"

lemma sample_env_registers: "paths_resolve sample_dev_env ''/dev/sda1''" "alloc_workqueue_ok sample_dev_env"
  by (simp_all add: paths_resolve_def get_inode_from_cstr_path_def sample_dev_env_def devno_defs)

lemma register_one_device:
  "register_device bkt sample_menv sample_dev_env ''/dev/sda1'' (started empty_vfs) = Inr (0, one_device)"
proof -
  have "register_device bkt sample_menv sample_dev_env ''/dev/sda1'' (started empty_vfs) =
      try_to_insert_block_device bkt sample_menv sample_dev_env 0x800001 ''/dev/sda1'' (started empty_vfs)"
    by (simp add: register_device_def do_device_reging_operation_def started_eq get_inode_from_cstr_path_def
        sample_dev_env_def devno_defs)
  also have "\<dots> = Inr (0, one_device)"
    by (subst insert_block_eq) (simp_all add: sample_dev_env_def one_device_def start_defs)
  finally show ?thesis .
qed

lemma reach_one_device: "reach bkt T empty_vfs one_device"
proof (rule reach.step[OF reach.init])
  show "kstep bkt T (Activation sample_dev_env ''/dev/sda1'') (started empty_vfs) (Inr one_device)"
    using kstep.activate[of bkt T sample_dev_env "''/dev/sda1''" "started empty_vfs" sample_menv]
    by (simp add: register_one_device)
qed (simp add: sample_env_registers(2))

theorem no_use_after_free_witness:
  "umount_handler True (BlockDevice 0x800001) (ret_regs 0) one_device \<noteq> Inl UseAfterFree"
  by (rule no_use_after_free[OF reach_one_device[of "\<lambda>_. 0" True], of OtherEvent], rule kstep.umount) simp_all

text \<open>In every reachable state, a device found by a lookup is live: its object is allocated and not marked
  destroyed, its workqueue exists, and its epoch, if one is open, is allocated.\<close>

lemma reachable_device_live:
  assumes "reach bkt T v k" "get_device_data_always minfo k = Some oid"
  shows "\<exists>data w. objs k oid = Some data \<and> \<not> wq_is_destroyed data \<and> od_wq data = Some w \<and> wqs k w \<noteq> None \<and>
    set_option (od_e data) \<subseteq> dom (epochs k)"
proof -
  obtain fin where t: "tables_ok k" and O: "owners_ok T k fin"
    using reach_kinv[OF assms(1)] by (auto simp: kinv_def)
  obtain data where data: "objs k oid = Some data" using live_object[OF t assms(2)] by blast
  obtain w q where "od_wq data = Some w" "wqs k w = Some q" "\<not> wq_is_destroyed data"
      "set_option (od_e data) \<subseteq> dom (epochs k)"
    by (rule owners_ok_epochs_live[OF O data])
  with data show ?thesis by auto
qed



end
