(* ===== verification/Race.thy ===== *)
theory Race
  imports System
begin

text \<open>
  The accesses inside \<open>bdsnap_make_snapshot\<close> and \<open>queue_snapshot_work\<close> (\<open>src/kernel/snapshot.c\<close>) as steps: the
  checks before the lock, the check under it, the test of \<open>obj->e\<close>, the three reads of \<open>obj->e\<close> that fill the work
  (\<open>RBuild\<close>, one step), and \<open>queue_work\<close>. The accesses from \<open>RLocked\<close> on hold \<open>wq_destroy_lock\<close> for reading, which keeps a
  deactivation out, but not \<open>general_lock\<close>, under which the unmount probe closes an epoch. Run
  without interruption the steps are the atomic call of \<open>Bdsnap\<close>; interleaved with an unmount they
  dereference NULL or queue a work behind the cleanup of its epoch.
\<close>

section \<open>The steps of the reader\<close>

datatype reader_pc =
    RCheck
  | RLocked
  | RTestE
  | RBuild
  | RQueue nat make_snapshot_work
  | RDone bool

definition reader_step ::
  "bd_env \<Rightarrow> nat \<Rightarrow> bytes \<Rightarrow> u64 \<Rightarrow> u64 \<Rightarrow> reader_pc \<times> kstate \<Rightarrow> fault + reader_pc \<times> kstate" where
  "reader_step env oid buf nr blksize st =
     (let (pc, k) = st; size = unat (ucast blksize :: u32) in
      case objs k oid of
        None \<Rightarrow> Inl UseAfterFree
      | Some data \<Rightarrow>
          (case pc of
             RCheck \<Rightarrow> Inr (if od_e data \<noteq> None \<and> \<not> wq_is_destroyed data then RLocked else RDone False, k)
           | RLocked \<Rightarrow> Inr (if \<not> wq_is_destroyed data then RTestE else RDone False, k)
           | RTestE \<Rightarrow>
               Inr (if od_e data = None \<or> \<not> kmalloc_msw_ok env \<or> \<not> kmalloc_block_ok env then RDone False else RBuild, k)
           | RBuild \<Rightarrow>
               (case od_e data of
                  None \<Rightarrow> Inl NullDeref
                | Some eid \<Rightarrow>
                    (case epochs k eid of
                       None \<Rightarrow> Inl UseAfterFree
                     | Some ep \<Rightarrow>
                         if length buf < size then Inl OutOfBounds
                         else Inr (RQueue eid \<lparr>block_nr = nr, blocksize = size, block = take size buf,
                              msw_original_dev_name = strscpy (od_original_dev_name data) PATH_MAX,
                              msw_first_mount_date = first_mount_date ep\<rparr>, k)))
           | RQueue eid msw \<Rightarrow>
               (case od_wq data of
                  None \<Rightarrow> Inl NullDeref
                | Some w \<Rightarrow>
                    (case wqs k w of
                       None \<Rightarrow> Inl UseAfterFree
                     | Some q \<Rightarrow> Inr (RDone True, k\<lparr>wqs := (wqs k)(w \<mapsto> q @ [SnapshotWork eid msw])\<rparr>)))
           | RDone b \<Rightarrow> Inr (RDone b, k)))"

fun reader_steps ::
  "nat \<Rightarrow> bd_env \<Rightarrow> nat \<Rightarrow> bytes \<Rightarrow> u64 \<Rightarrow> u64 \<Rightarrow> reader_pc \<times> kstate \<Rightarrow> fault + reader_pc \<times> kstate" where
  "reader_steps 0 env oid buf nr blksize st = Inr st"
| "reader_steps (Suc n) env oid buf nr blksize st =
     (case reader_step env oid buf nr blksize st of
        Inl f \<Rightarrow> Inl f | Inr st1 \<Rightarrow> reader_steps n env oid buf nr blksize st1)"

text \<open>Run without interruption from the first check, five steps end with the value and the state, or the fault,
  of \<open>bdsnap_make_snapshot\<close>.\<close>

lemma reader_steps_atomic:
  "reader_steps 5 env oid buf nr blksize (RCheck, k) =
    (case bdsnap_make_snapshot env (Some oid) buf nr blksize k of
       Inl f \<Rightarrow> Inl f | Inr (b, k') \<Rightarrow> Inr (RDone b, k'))"
  by (simp add: numeral_eq_Suc reader_step_def bdsnap_make_snapshot_def queue_snapshot_work_def Let_def
      split: option.splits)

section \<open>Interleaving with the last unmount\<close>

text \<open>A live device with an epoch that counts one mount, and nothing queued.\<close>

definition racy :: "mountinfo \<Rightarrow> nat \<Rightarrow> nat \<Rightarrow> kstate \<Rightarrow> bool" where
  "racy minfo oid w k \<longleftrightarrow>
     dev_live minfo oid w k \<and> map_option fst (epoch_view oid k) = Some 1 \<and> wqs k w = Some []"

lemma racyE:
  assumes "racy minfo oid w k"
  obtains data e ep where "objs k oid = Some data" "od_e data = Some e" "epochs k e = Some ep"
    "n_currently_mounted ep = 1" "od_wq data = Some w" "wqs k w = Some []" "\<not> wq_is_destroyed data"
    "get_device_data_always minfo k = Some oid"
  using assms by (auto simp: racy_def dev_live_def epoch_view_def split: option.splits)

lemma racy_umount:
  assumes "objs k oid = Some data" "od_e data = Some e" "epochs k e = Some ep"
    "n_currently_mounted ep = 1" "od_wq data = Some w" "wqs k w = Some []" "\<not> wq_is_destroyed data"
    "get_device_data_always minfo k = Some oid"
  shows "umount_handler True minfo (ret_regs 0) k =
    Inr (k\<lparr>epochs := (epochs k)(e \<mapsto> ep\<lparr>n_currently_mounted := 0\<rparr>), objs := (objs k)(oid \<mapsto> data\<lparr>od_e := None\<rparr>),
           wqs := (wqs k)(w \<mapsto> [CleanupEpochWork e])\<rparr>)"
  using assms by (simp add: umount_defs Let_def)

text \<open>the pointer \<open>obj->e\<close> is tested and then read again without the lock that protects it: when
  the last unmount runs between the test and the read, \<open>queue_snapshot_work\<close> dereferences NULL.\<close>

theorem umount_race_null_deref:
  assumes "racy minfo oid w k" "kmalloc_msw_ok env" "kmalloc_block_ok env"
  shows "reader_steps 3 env oid buf nr blksize (RCheck, k) = Inr (RBuild, k) \<and>
    (\<exists>k2. umount_handler True minfo (ret_regs 0) k = Inr k2 \<and>
      reader_step env oid buf nr blksize (RBuild, k2) = Inl NullDeref)"
proof -
  obtain data e ep where d: "objs k oid = Some data" "od_e data = Some e" "epochs k e = Some ep"
    "n_currently_mounted ep = 1" "od_wq data = Some w" "wqs k w = Some []" "\<not> wq_is_destroyed data"
    "get_device_data_always minfo k = Some oid" by (rule racyE[OF assms(1)])
  show ?thesis using d assms(2,3) racy_umount[OF d]
    by (simp add: numeral_eq_Suc reader_step_def Let_def)
qed

lemma mounted_device_racy: "racy (BlockDevice 0x800001) 1 0 mounted_device"
  using mounted_device_live
  by (simp add: racy_def) (simp add: epoch_view_def mounted_device_def sample_epoch_def one_device_def
      new_device_def start_defs)

theorem umount_race_null_deref_witness:
  "\<exists>k2. umount_handler True (BlockDevice 0x800001) (ret_regs 0) mounted_device = Inr k2 \<and>
    reader_step \<lparr>kmalloc_msw_ok = True, kmalloc_block_ok = True\<rparr> 1 [1, 2] 3 2 (RBuild, k2) = Inl NullDeref"
  using umount_race_null_deref[OF mounted_device_racy, of "\<lparr>kmalloc_msw_ok = True, kmalloc_block_ok = True\<rparr>" "[1, 2]" 3 2]
  by simp

text \<open>C37: when the last unmount runs between the read of \<open>obj->e\<close> and \<open>queue_work\<close>, the snapshot work is
  queued behind the cleanup of its epoch: the worker frees the epoch and then uses it.\<close>

theorem umount_race_use_after_free:
  assumes "racy minfo oid w k" "kmalloc_msw_ok env" "kmalloc_block_ok env"
    and "unat (ucast blksize :: u32) \<le> length buf"
  shows "\<exists>e msw k2 k3 k4.
    reader_steps 4 env oid buf nr blksize (RCheck, k) = Inr (RQueue e msw, k) \<and>
    umount_handler True minfo (ret_regs 0) k = Inr k2 \<and>
    reader_step env oid buf nr blksize (RQueue e msw, k2) = Inr (RDone True, k3) \<and>
    run_wq_head bkt menv w k3 = Inr k4 \<and> run_wq_head bkt menv w k4 = Inl UseAfterFree"
proof -
  obtain data e ep where d: "objs k oid = Some data" "od_e data = Some e" "epochs k e = Some ep"
    "n_currently_mounted ep = 1" "od_wq data = Some w" "wqs k w = Some []" "\<not> wq_is_destroyed data"
    "get_device_data_always minfo k = Some oid" by (rule racyE[OF assms(1)])
  let ?size = "unat (ucast blksize :: u32)"
  let ?msw = "\<lparr>block_nr = nr, blocksize = ?size, block = take ?size buf,
     msw_original_dev_name = strscpy (od_original_dev_name data) PATH_MAX, msw_first_mount_date = first_mount_date ep\<rparr>"
  let ?k2 = "k\<lparr>epochs := (epochs k)(e \<mapsto> ep\<lparr>n_currently_mounted := 0\<rparr>), objs := (objs k)(oid \<mapsto> data\<lparr>od_e := None\<rparr>),
           wqs := (wqs k)(w \<mapsto> [CleanupEpochWork e])\<rparr>"
  let ?k3 = "?k2\<lparr>wqs := (wqs k)(w \<mapsto> [CleanupEpochWork e, SnapshotWork e ?msw])\<rparr>"
  obtain v' where v': "destroy_an_epoch (list_lru_size menv) (Some (ep\<lparr>n_currently_mounted := 0\<rparr>)) (kvfs k) = Inr v'"
    using destroy_an_epoch_returns by blast
  let ?k4 = "?k3\<lparr>wqs := (wqs k)(w \<mapsto> [SnapshotWork e ?msw]), epochs := (epochs k)(e := None), kvfs := v'\<rparr>"
  have "reader_steps 4 env oid buf nr blksize (RCheck, k) = Inr (RQueue e ?msw, k)"
    using d assms(2-4) by (simp add: numeral_eq_Suc reader_step_def Let_def)
  moreover have "umount_handler True minfo (ret_regs 0) k = Inr ?k2" by (rule racy_umount[OF d])
  moreover have "reader_step env oid buf nr blksize (RQueue e ?msw, ?k2) = Inr (RDone True, ?k3)"
    using d by (simp add: reader_step_def Let_def)
  moreover have "run_wq_head bkt menv w ?k3 = Inr ?k4"
    using v' by (simp add: run_wq_head_def run_work_unfold)
  moreover have "run_wq_head bkt menv w ?k4 = Inl UseAfterFree"
    by (simp add: run_wq_head_def run_work_unfold)
  ultimately show ?thesis by blast
qed

theorem umount_race_use_after_free_witness:
  "\<exists>k3 k4. run_wq_head (\<lambda>_. 0) sample_menv 0 k3 = Inr k4 \<and> run_wq_head (\<lambda>_. 0) sample_menv 0 k4 = Inl UseAfterFree"
  using umount_race_use_after_free[OF mounted_device_racy,
      of "\<lparr>kmalloc_msw_ok = True, kmalloc_block_ok = True\<rparr>" 2 "[1, 2]" 3 "\<lambda>_. 0" sample_menv] by auto

end
