(* ===== verification/Grace.thy ===== *)
theory Grace
  imports Race
begin

text \<open>
  Deactivation against the probes, one step per access (\<open>src/kernel/devices.c\<close>, \<open>mounts.c\<close>,
  \<open>snapshot.c\<close>). A file system probe and a mount probe find a device and use it inside an RCU section,
  without a reference on it; a deactivation takes the device out of its table, marks it destroyed
  under \<open>wq_destroy_lock\<close>, takes its epoch under \<open>general_lock\<close>, hands its workqueue to the system
  workqueue and gives the object to \<open>kfree_rcu\<close>. Any number of them run at the same time, in any
  order of their steps. The theory shows that the two locks and the grace period suffice: no step uses
  freed memory, as long as no last unmount falls into the window of \<open>Race\<close>.
\<close>

section \<open>State\<close>

text \<open>What a thread inside an RCU section is doing, with the pointer it holds: a file system probe that
  has found a device (\<open>bdsnap_search_device\<close>) and then runs \<open>bdsnap_make_snapshot\<close>, a mount probe that
  waits for \<open>general_lock\<close>, a deactivation between lookup and removal.\<close>

datatype probe_call = Mounted bool tm | Unmounted bool

datatype probe =
    PFound nat bytes u64 u64
  | PReader nat bytes u64 u64 reader_pc
  | PCount nat probe_call
  | PRemove mountinfo nat

text \<open>The place of the free function of a table in the execution on one object: \<open>general_lock\<close> is held
  at \<open>Marked\<close>. At \<open>Freeing R\<close> the object waits for the RCU sections \<open>R\<close> to end.\<close>

datatype retire_pc = Unlinked | Marked | Saved "nat option" | Scheduled | Freeing "nat set"

record gstate =
  gk :: kstate
  probes :: "nat \<rightharpoonup> probe"
  retiring :: "nat \<rightharpoonup> retire_pc"

fun probe_oid :: "probe \<Rightarrow> nat" where
  "probe_oid (PFound oid buf nr sz) = oid"
| "probe_oid (PReader oid buf nr sz pc) = oid"
| "probe_oid (PCount oid c) = oid"
| "probe_oid (PRemove key oid) = oid"

section \<open>Locks and RCU sections\<close>

fun pc_locked :: "reader_pc \<Rightarrow> bool" where
  "pc_locked RCheck = False"
| "pc_locked (RDone b) = False"
| "pc_locked pc = True"

fun pc_window :: "reader_pc \<Rightarrow> bool" where
  "pc_window RBuild = True"
| "pc_window (RQueue e m) = True"
| "pc_window pc = False"

text \<open>\<open>wq_destroy_lock\<close> is held for reading; a probe is between its test of \<open>obj->e\<close> and \<open>queue_work\<close>.\<close>

definition read_locked :: "nat \<Rightarrow> gstate \<Rightarrow> bool" where
  "read_locked oid s \<longleftrightarrow> (\<exists>t buf nr sz pc. probes s t = Some (PReader oid buf nr sz pc) \<and> pc_locked pc)"

definition in_window :: "nat \<Rightarrow> gstate \<Rightarrow> bool" where
  "in_window oid s \<longleftrightarrow> (\<exists>t buf nr sz pc. probes s t = Some (PReader oid buf nr sz pc) \<and> pc_window pc)"

fun drop_reader :: "nat \<Rightarrow> retire_pc \<Rightarrow> retire_pc" where
  "drop_reader t (Freeing R) = Freeing (R - {t})"
| "drop_reader t pc = pc"

text \<open>\<open>rcu_read_unlock\<close>.\<close>

definition leave :: "nat \<Rightarrow> gstate \<Rightarrow> gstate" where
  "leave t s = s\<lparr>probes := (probes s)(t := None), retiring := \<lambda>oid. map_option (drop_reader t) (retiring s oid)\<rparr>"

definition at_pc :: "nat \<Rightarrow> probe \<Rightarrow> gstate \<Rightarrow> gstate" where
  "at_pc t p s = s\<lparr>probes := (probes s)(t \<mapsto> p)\<rparr>"

section \<open>Steps\<close>

text \<open>\<open>rcu_read_lock\<close> and the lookup; with no device the section ends at once.\<close>

definition enter :: "nat \<Rightarrow> mountinfo \<Rightarrow> (nat \<Rightarrow> probe) \<Rightarrow> gstate \<Rightarrow> gstate" where
  "enter t minfo p s =
     (case get_device_data_always minfo (gk s) of None \<Rightarrow> s | Some oid \<Rightarrow> at_pc t (p oid) s)"

text \<open>The rest of \<open>bdsnap_search_device\<close>, then the accesses of \<open>bdsnap_make_snapshot\<close>.\<close>

definition read_step :: "bd_env \<Rightarrow> nat \<Rightarrow> gstate \<Rightarrow> fault + gstate" where
  "read_step env t s =
     (case probes s t of
        Some (PFound oid buf nr sz) \<Rightarrow>
          (case objs (gk s) oid of
             None \<Rightarrow> Inl UseAfterFree
           | Some data \<Rightarrow>
               Inr (if od_e data = None \<or> wq_is_destroyed data then leave t s
                    else at_pc t (PReader oid buf nr sz RCheck) s))
      | Some (PReader oid buf nr sz pc) \<Rightarrow>
          (case pc of
             RDone b \<Rightarrow> Inr (leave t s)
           | _ \<Rightarrow>
               (case reader_step env oid buf nr sz (pc, gk s) of
                  Inl f \<Rightarrow> Inl f
                | Inr (pc', k') \<Rightarrow> Inr (at_pc t (PReader oid buf nr sz pc') (s\<lparr>gk := k'\<rparr>))))
      | _ \<Rightarrow> Inr s)"

text \<open>\<open>__do_epoch_event_count\<close> behind its lookup, under \<open>general_lock\<close>.\<close>

definition count_call :: "probe_call \<Rightarrow> nat \<Rightarrow> object_data \<Rightarrow> kstate \<Rightarrow> fault + kstate" where
  "count_call c oid data k =
     (case c of
        Mounted ok t \<Rightarrow> epoch_event_cb_count_mount ok t oid data k
      | Unmounted ok \<Rightarrow> epoch_event_cb_count_umount ok oid data k)"

definition count_step :: "nat \<Rightarrow> gstate \<Rightarrow> fault + gstate" where
  "count_step t s =
     (case probes s t of
        Some (PCount oid c) \<Rightarrow>
          (case objs (gk s) oid of
             None \<Rightarrow> Inl UseAfterFree
           | Some data \<Rightarrow>
               (case count_call c oid data (gk s) of
                  Inl f \<Rightarrow> Inl f | Inr k' \<Rightarrow> Inr (leave t (s\<lparr>gk := k'\<rparr>))))
      | _ \<Rightarrow> Inr s)"

text \<open>\<open>rhashtable_remove_fast\<close> finds the object itself, not its key: only one of two deactivations that
  have looked up the same object removes it, and a new object under the same key stays.\<close>

definition remove_fast :: "mountinfo \<Rightarrow> nat \<Rightarrow> kstate \<Rightarrow> kstate option" where
  "remove_fast key oid k =
     (if get_device_data_always key k \<noteq> Some oid then None
      else Some (case key of
          BlockDevice d \<Rightarrow> k\<lparr>blkdevs_ht := ht_remove d (blkdevs_ht k)\<rparr>
        | LoopDevice p \<Rightarrow> k\<lparr>loops_ht := ht_remove p (loops_ht k)\<rparr>))"

definition remove_step :: "nat \<Rightarrow> gstate \<Rightarrow> gstate" where
  "remove_step t s =
     (case probes s t of
        Some (PRemove key oid) \<Rightarrow>
          (case remove_fast key oid (gk s) of
             None \<Rightarrow> leave t s
           | Some k' \<Rightarrow> (leave t s)\<lparr>gk := k', retiring := (retiring (leave t s))(oid \<mapsto> Unlinked)\<rparr>)
      | _ \<Rightarrow> s)"

text \<open>\<open>cleanup_object_data\<close> and \<open>kfree_rcu\<close> on an object that is out of its table, and the release of the
  object after the grace period.\<close>

definition retire_step :: "dev_env \<Rightarrow> nat \<Rightarrow> gstate \<Rightarrow> fault + gstate" where
  "retire_step env oid s =
     (let k = gk s;
          next = (\<lambda>pc k'. Inr (s\<lparr>gk := k', retiring := (retiring s)(oid \<mapsto> pc)\<rparr>)) in
      case retiring s oid of
        None \<Rightarrow> Inr s
      | Some pc \<Rightarrow>
          (case objs k oid of
             None \<Rightarrow> Inl UseAfterFree
           | Some data \<Rightarrow>
               (case pc of
                  Unlinked \<Rightarrow> next Marked (k\<lparr>objs := (objs k)(oid \<mapsto> data\<lparr>wq_is_destroyed := True\<rparr>)\<rparr>)
                | Marked \<Rightarrow> next (Saved (od_e data)) (k\<lparr>objs := (objs k)(oid \<mapsto> data\<lparr>od_e := None\<rparr>)\<rparr>)
                | Saved e \<Rightarrow>
                    next Scheduled (prune_worklist
                      (if kmalloc_wlistnode_ok env \<and> kmalloc_wargs_ok env
                       then defer_cleanup (data\<lparr>od_e := e\<rparr>) k else k))
                | Scheduled \<Rightarrow> next (Freeing (dom (probes s))) k
                | Freeing R \<Rightarrow>
                    if R \<noteq> {} then Inr s
                    else Inr (s\<lparr>gk := k\<lparr>objs := (objs k)(oid := None)\<rparr>, retiring := (retiring s)(oid := None)\<rparr>))))"

text \<open>A last unmount: it closes the epoch.\<close>

definition last_unmount :: "nat \<Rightarrow> probe_call \<Rightarrow> kstate \<Rightarrow> bool" where
  "last_unmount oid c k \<longleftrightarrow>
     (case c of Mounted ok t \<Rightarrow> False | Unmounted ok \<Rightarrow> map_option fst (epoch_view oid k) = Some 1)"

section \<open>The transition system\<close>

definition on_k :: "gstate \<Rightarrow> fault + kstate \<Rightarrow> fault + gstate" where
  "on_k s r = (case r of Inl f \<Rightarrow> Inl f | Inr k' \<Rightarrow> Inr (s\<lparr>gk := k'\<rparr>))"

text \<open>The guards are the two locks: a deactivation marks the object when no probe holds
  \<open>wq_destroy_lock\<close>, and a mount probe counts when no deactivation holds \<open>general_lock\<close>. The label of a count tells
  whether it is a last unmount that falls into the window of \<open>Race\<close>.\<close>

datatype gevent = Activate dev_env string | Enter | Read | Count bool | Remove | Retire | Worker

inductive gstep :: "(u64 \<Rightarrow> nat) \<Rightarrow> gevent \<Rightarrow> gstate \<Rightarrow> fault + gstate \<Rightarrow> bool" for bkt where
  activate: "gstep bkt (Activate env path) s (on_k s (state_of (register_device bkt menv env path (gk s))))"
| search: "t \<notin> dom (probes s) \<Longrightarrow> gstep bkt Enter s (Inr (enter t minfo (\<lambda>oid. PFound oid buf nr sz) s))"
| mount_event: "t \<notin> dom (probes s) \<Longrightarrow> gstep bkt Enter s (Inr (enter t minfo (\<lambda>oid. PCount oid c) s))"
| deactivate: "t \<notin> dom (probes s) \<Longrightarrow> gstep bkt Enter s (Inr (enter t minfo (PRemove minfo) s))"
| read: "gstep bkt Read s (read_step env t s)"
| count: "\<lbrakk>probes s t = Some (PCount oid c); retiring s oid \<noteq> Some Marked;
      windowed = (last_unmount oid c (gk s) \<and> in_window oid s)\<rbrakk> \<Longrightarrow> gstep bkt (Count windowed) s (count_step t s)"
| remove: "gstep bkt Remove s (Inr (remove_step t s))"
| retire: "retiring s oid = Some Unlinked \<longrightarrow> \<not> read_locked oid s \<Longrightarrow> gstep bkt Retire s (retire_step env oid s)"
| worker: "gstep bkt Worker s (on_k s (run_wq_head bkt menv w (gk s)))"
| destroyer: "gstep bkt Worker s (on_k s (run_system_work bkt menv i (gk s)))"
| file_system: "gstep bkt Worker s (Inr (s\<lparr>gk := (gk s)\<lparr>kvfs := v\<rparr>\<rparr>))"

text \<open>The executions considered: the workqueue of a new device can be allocated, and no last unmount falls into
  the window of \<open>Race\<close>, where \<open>umount_race_use_after_free\<close> shows what happens. (A file system that is being
  read or written is not unmounted, unless lazily.)\<close>

fun admissible :: "gevent \<Rightarrow> bool" where
  "admissible (Activate env path) = alloc_workqueue_ok env"
| "admissible (Count windowed) = (\<not> windowed)"
| "admissible ev = True"

definition gstarted :: "vfs \<Rightarrow> gstate" where
  "gstarted v = \<lparr>gk = started v, probes = Map.empty, retiring = Map.empty\<rparr>"

inductive greach :: "(u64 \<Rightarrow> nat) \<Rightarrow> vfs \<Rightarrow> gstate \<Rightarrow> bool" for bkt v where
  init: "greach bkt v (gstarted v)"
| step: "greach bkt v s \<Longrightarrow> gstep bkt ev s (Inr s') \<Longrightarrow> admissible ev \<Longrightarrow> greach bkt v s'"

inductive_cases gstepE: "gstep bkt ev s r"

end
