(* ===== verification/Graceinv.thy ===== *)
theory Graceinv
  imports Grace
begin

text \<open>
  The invariant of the interleaved system of \<open>Grace\<close> and its preservation by every step: who owns what
  while deactivations are under way (\<open>core_ok\<close>, on the ownership of \<open>System\<close>), what a thread inside an
  RCU section may rely on (\<open>probe_ok\<close>), and that an epoch which belongs to nobody stays so
  (\<open>idle_kept\<close>).
\<close>

section \<open>What the workers do not see\<close>

text \<open>The workers do not look at the objects.\<close>

lemma run_wq_head_objs:
  "run_wq_head bkt menv w (k\<lparr>objs := ob\<rparr>) = map_sum id (\<lambda>k'. k'\<lparr>objs := ob\<rparr>) (run_wq_head bkt menv w k)"
  by (simp add: run_wq_head_def run_work_unfold Let_def split: option.splits list.splits work.splits sum.splits)

lemma run_wq_n_objs:
  "run_wq_n bkt menv w n (k\<lparr>objs := ob\<rparr>) = map_sum id (\<lambda>k'. k'\<lparr>objs := ob\<rparr>) (run_wq_n bkt menv w n k)"
proof (induction n arbitrary: k)
  case (Suc n)
  then show ?case by (cases "run_wq_head bkt menv w k") (simp_all add: run_wq_head_objs)
qed simp

lemma run_system_work_objs:
  "run_system_work bkt menv i (k\<lparr>objs := ob\<rparr>) = map_sum id (\<lambda>k'. k'\<lparr>objs := ob\<rparr>) (run_system_work bkt menv i k)"
proof -
  have waddw: "do_waddw bkt menv a (k\<lparr>objs := ob\<rparr>) = map_sum id (\<lambda>k'. k'\<lparr>objs := ob\<rparr>) (do_waddw bkt menv a k)" for a k
  proof -
    have id: "destroy_epoch_id menv e (k\<lparr>objs := ob\<rparr>) = map_sum id (\<lambda>k'. k'\<lparr>objs := ob\<rparr>) (destroy_epoch_id menv e k)" for e k
      by (simp add: destroy_epoch_id_def split: option.splits sum.splits)
    have upd: "(k\<lparr>objs := ob\<rparr>)\<lparr>wqs := W\<rparr> = k\<lparr>wqs := W\<rparr>\<lparr>objs := ob\<rparr>" for k :: kstate and W by simp
    have fl: "flush_workqueue bkt menv w (k\<lparr>objs := ob\<rparr>) = map_sum id (\<lambda>k'. k'\<lparr>objs := ob\<rparr>) (flush_workqueue bkt menv w k)" for w
      by (simp add: flush_workqueue_def run_wq_n_objs split: option.splits)
    show ?thesis
    proof (cases "device_wq a")
      case (Some w)
      then show ?thesis
        by (cases "flush_workqueue bkt menv w k") (simp_all add: do_waddw_def fl upd id del: kstate.simps)
    qed (simp add: do_waddw_def)
  qed
  have upd: "(k\<lparr>objs := ob\<rparr>)\<lparr>system_wq := S\<rparr> = k\<lparr>system_wq := S\<rparr>\<lparr>objs := ob\<rparr>" for k :: kstate and S by simp
  show ?thesis
  proof (cases "map_of (system_wq k) i")
    case (Some a)
    then show ?thesis by (simp add: run_system_work_def upd waddw)
  qed (simp add: run_system_work_def)
qed

lemma same_objs:
  assumes "f (k\<lparr>objs := objs k\<rparr>) = map_sum id (\<lambda>k'. k'\<lparr>objs := objs k\<rparr>) (f k)" "f k = Inr k'"
  shows "objs k' = objs k"
proof -
  have "k\<lparr>objs := objs k\<rparr> = k" by simp
  from assms(1)[unfolded this assms(2)] have "k' = k'\<lparr>objs := objs k\<rparr>" by simp
  then show ?thesis by (metis kstate.select_convs(4) kstate.surjective kstate.update_convs(4))
qed

lemmas run_wq_head_same_objs = same_objs[where f = "run_wq_head bkt menv w" for bkt menv w, OF run_wq_head_objs]
  and run_system_work_same_objs = same_objs[where f = "run_system_work bkt menv i" for bkt menv i, OF run_system_work_objs]

text \<open>An epoch that nobody is going to use or free.\<close>

definition idle_epoch :: "nat \<Rightarrow> kstate \<Rightarrow> bool" where
  "idle_epoch e k \<longleftrightarrow> e \<in> dom (epochs k) \<and>
     (\<forall>w q. wqs k w = Some q \<longrightarrow> e \<notin> work_epoch ` set q) \<and>
     (\<forall>oid d. objs k oid = Some d \<longrightarrow> od_e d \<noteq> Some e) \<and>
     (\<forall>n \<in> set (system_wq k). last_epoch (snd n) \<noteq> Some e)"

lemma idle_epochI:
  assumes "e \<in> dom (epochs k)" "\<And>w q. wqs k w = Some q \<Longrightarrow> e \<notin> work_epoch ` set q"
    "\<And>oid d. objs k oid = Some d \<Longrightarrow> od_e d \<noteq> Some e" "\<And>n. n \<in> set (system_wq k) \<Longrightarrow> last_epoch (snd n) \<noteq> Some e"
  shows "idle_epoch e k"
  using assms by (simp add: idle_epoch_def)

lemma idle_epochD:
  assumes "idle_epoch e k"
  shows "e \<in> dom (epochs k)" "wqs k w = Some q \<Longrightarrow> e \<notin> work_epoch ` set q"
    "objs k oid = Some d \<Longrightarrow> od_e d \<noteq> Some e" "n \<in> set (system_wq k) \<Longrightarrow> last_epoch (snd n) \<noteq> Some e"
  using assms unfolding idle_epoch_def by blast+

lemma idle_run_wq_head:
  assumes "idle_epoch e k" "run_wq_head bkt menv w k = Inr k'"
  shows "idle_epoch e k'"
proof (cases "\<exists>x q. wqs k w = Some (x # q)")
  case True
  then obtain x q where q: "wqs k w = Some (x # q)" by blast
  have x: "work_epoch x \<noteq> e" "e \<notin> work_epoch ` set q" using idle_epochD(2)[OF assms(1) q] by auto
  obtain E V where k': "k' = k\<lparr>wqs := (wqs k)(w \<mapsto> q), epochs := E, kvfs := V\<rparr>" "E e = epochs k e"
    using assms(2) q x(1)
    by (auto simp: run_wq_head_def run_work_unfold Let_def split: option.splits work.splits sum.splits prod.splits)
  show ?thesis
    by (rule idle_epochI) (use k' x idle_epochD[OF assms(1)] in \<open>auto simp: domIff split: if_splits\<close>)
qed (use assms in \<open>auto simp: run_wq_head_def split: option.splits list.splits\<close>)

lemma idle_run_wq_n:
  "idle_epoch e k \<Longrightarrow> run_wq_n bkt menv w n k = Inr k' \<Longrightarrow> idle_epoch e k'"
proof (induction n arbitrary: k)
  case (Suc n)
  then show ?case by (auto split: sum.splits intro: idle_run_wq_head)
qed simp

lemma idle_run_system_work:
  assumes "idle_epoch e k" "run_system_work bkt menv i k = Inr k'"
  shows "idle_epoch e k'"
proof (cases "map_of (system_wq k) i")
  case (Some a)
  let ?k = "k\<lparr>system_wq := filter (\<lambda>n. fst n \<noteq> i) (system_wq k)\<rparr>"
  have "(i, a) \<in> set (system_wq k)" by (rule map_of_SomeD[OF Some])
  then have a: "last_epoch a \<noteq> Some e" using idle_epochD(4)[OF assms(1)] by fastforce
  have 1: "idle_epoch e ?k" using assms(1) by (simp add: idle_epoch_def)
  have run: "do_waddw bkt menv a ?k = Inr k'" using assms(2) Some by (simp add: run_system_work_def)
  obtain w n k1 where w: "run_wq_n bkt menv w n ?k = Inr k1" "destroy_epoch_id menv (last_epoch a) (k1\<lparr>wqs := (wqs k1)(w := None)\<rparr>) = Inr k'"
    using run by (auto simp: do_waddw_def flush_workqueue_def split: option.splits sum.splits)
  note i1 = idle_run_wq_n[OF 1 w(1)]
  obtain E V where k': "k' = k1\<lparr>wqs := (wqs k1)(w := None), epochs := E, kvfs := V\<rparr>" "E e = epochs k1 e"
  proof (cases "last_epoch a")
    case None
    then have "k' = k1\<lparr>wqs := (wqs k1)(w := None), epochs := epochs k1, kvfs := kvfs k1\<rparr>"
      using w(2) by (cases k1) (auto simp: destroy_epoch_id_def)
    then show thesis using that by blast
  next
    case (Some e')
    with w(2) a show thesis using that by (auto simp: destroy_epoch_id_def split: option.splits sum.splits)
  qed
  show ?thesis
    by (rule idle_epochI) (use k' idle_epochD[OF i1] in \<open>auto simp: domIff split: if_splits\<close>)
qed (use assms in \<open>simp add: run_system_work_def\<close>)


section \<open>The invariant\<close>

text \<open>How an object counts as an owner: a deactivation that is under way still owns the epoch it has
  taken, and nothing more once it has handed it over.\<close>

fun shown :: "retire_pc option \<Rightarrow> object_data option \<Rightarrow> object_data option" where
  "shown None od = od"
| "shown (Some Unlinked) od = od"
| "shown (Some Marked) od = map_option (\<lambda>d. d\<lparr>wq_is_destroyed := False\<rparr>) od"
| "shown (Some (Saved e)) od = map_option (\<lambda>d. d\<lparr>wq_is_destroyed := False, od_e := e\<rparr>) od"
| "shown (Some Scheduled) od = None"
| "shown (Some (Freeing R)) od = None"

definition owner_view :: "(nat \<rightharpoonup> retire_pc) \<Rightarrow> kstate \<Rightarrow> kstate" where
  "owner_view rt k = k\<lparr>objs := \<lambda>oid. shown (rt oid) (objs k oid)\<rparr>"

definition table_view :: "(nat \<rightharpoonup> retire_pc) \<Rightarrow> kstate \<Rightarrow> kstate" where
  "table_view rt k = k\<lparr>objs := objs k |` (- dom rt)\<rparr>"

definition unretired :: "retire_pc option \<Rightarrow> bool" where
  "unretired r \<longleftrightarrow> r = None \<or> r = Some Unlinked"

fun past_save :: "retire_pc option \<Rightarrow> bool" where
  "past_save None = False"
| "past_save (Some Unlinked) = False"
| "past_save (Some Marked) = False"
| "past_save (Some pc) = True"

lemma unretired_simps [simp]:
  "unretired None" "unretired (Some Unlinked)" "\<not> unretired (Some Marked)" "\<not> unretired (Some (Saved e))"
  "\<not> unretired (Some Scheduled)" "\<not> unretired (Some (Freeing R))"
  by (simp_all add: unretired_def)

lemma unretired_shown: "unretired r \<Longrightarrow> shown r od = od"
  by (auto simp: unretired_def)

lemma unretired_past: "unretired r \<Longrightarrow> \<not> past_save r"
  by (auto simp: unretired_def)

text \<open>The state of the module while deactivations are under way.\<close>

definition core_ok :: "(nat \<rightharpoonup> retire_pc) \<Rightarrow> kstate \<Rightarrow> bool" where
  "core_ok rt k \<longleftrightarrow> tables_ok (table_view rt k) \<and> dom rt \<subseteq> dom (objs k) \<and> (\<forall>oid \<in> dom rt. oid < next_id k) \<and>
     (\<exists>fin. owners_ok False (owner_view rt k) fin) \<and>
     (\<forall>oid d. objs k oid = Some d \<longrightarrow> wq_is_destroyed d = (\<not> unretired (rt oid))) \<and>
     (\<forall>oid d e. past_save (rt oid) \<longrightarrow> objs k oid = Some d \<longrightarrow> od_e d = Some e \<longrightarrow> idle_epoch e (owner_view rt k))"

lemma core_okI:
  assumes "tables_ok (table_view rt k)" "dom rt \<subseteq> dom (objs k)" "\<And>oid. oid \<in> dom rt \<Longrightarrow> oid < next_id k"
    "owners_ok False (owner_view rt k) fin"
    "\<And>oid d. objs k oid = Some d \<Longrightarrow> wq_is_destroyed d = (\<not> unretired (rt oid))"
    "\<And>oid d e. past_save (rt oid) \<Longrightarrow> objs k oid = Some d \<Longrightarrow> od_e d = Some e \<Longrightarrow> idle_epoch e (owner_view rt k)"
  shows "core_ok rt k"
  using assms unfolding core_ok_def by blast

lemma core_okD:
  assumes "core_ok rt k"
  shows "tables_ok (table_view rt k)" "dom rt \<subseteq> dom (objs k)" "oid \<in> dom rt \<Longrightarrow> oid < next_id k"
    "objs k oid = Some d \<Longrightarrow> wq_is_destroyed d = (\<not> unretired (rt oid))"
    "past_save (rt oid) \<Longrightarrow> objs k oid = Some d \<Longrightarrow> od_e d = Some e \<Longrightarrow> idle_epoch e (owner_view rt k)"
  using assms unfolding core_ok_def by blast+

lemma core_ok_owners:
  assumes "core_ok rt k"
  obtains fin where "owners_ok False (owner_view rt k) fin"
  using assms unfolding core_ok_def by blast

text \<open>What a probe may rely on: its object is allocated and waits for it; behind the test under
  \<open>wq_destroy_lock\<close> the object is not destroyed, and in the window it has the epoch that was read.\<close>

fun window_epoch :: "reader_pc \<Rightarrow> nat option \<Rightarrow> bool" where
  "window_epoch RBuild e \<longleftrightarrow> e \<noteq> None"
| "window_epoch (RQueue eid m) e \<longleftrightarrow> e = Some eid"
| "window_epoch pc e \<longleftrightarrow> True"

definition probe_ok :: "(nat \<rightharpoonup> retire_pc) \<Rightarrow> (nat \<rightharpoonup> object_data) \<Rightarrow> nat \<Rightarrow> probe \<Rightarrow> bool" where
  "probe_ok rt ob t p \<longleftrightarrow>
     (\<exists>d. ob (probe_oid p) = Some d \<and> (\<forall>R. rt (probe_oid p) = Some (Freeing R) \<longrightarrow> t \<in> R) \<and>
        (case p of
           PReader oid buf nr sz pc \<Rightarrow>
             (pc = RTestE \<or> pc_window pc \<longrightarrow> unretired (rt oid)) \<and> window_epoch pc (od_e d)
         | _ \<Rightarrow> True))"

definition ginv :: "gstate \<Rightarrow> bool" where
  "ginv s \<longleftrightarrow> core_ok (retiring s) (gk s) \<and> (\<forall>t p. probes s t = Some p \<longrightarrow> probe_ok (retiring s) (objs (gk s)) t p)"

text \<open>An epoch that is nobody's stays so.\<close>

definition idle_kept :: "(nat \<rightharpoonup> retire_pc) \<Rightarrow> kstate \<Rightarrow> (nat \<rightharpoonup> retire_pc) \<Rightarrow> kstate \<Rightarrow> bool" where
  "idle_kept rt k rt' k' \<longleftrightarrow> (\<forall>e. idle_epoch e (owner_view rt k) \<longrightarrow> idle_epoch e (owner_view rt' k'))"

definition core_step :: "(nat \<rightharpoonup> retire_pc) \<Rightarrow> kstate \<Rightarrow> (nat \<rightharpoonup> retire_pc) \<Rightarrow> kstate \<Rightarrow> bool" where
  "core_step rt k rt' k' \<longleftrightarrow> core_ok rt' k' \<and> idle_kept rt k rt' k'"

lemma core_stepI:
  "core_ok rt' k' \<Longrightarrow> (\<And>e. idle_epoch e (owner_view rt k) \<Longrightarrow> idle_epoch e (owner_view rt' k')) \<Longrightarrow> core_step rt k rt' k'"
  by (simp add: core_step_def idle_kept_def)

lemma core_step_refl: "core_ok rt k \<Longrightarrow> core_step rt k rt k"
  by (rule core_stepI)

definition gnext :: "gstate \<Rightarrow> gstate \<Rightarrow> bool" where
  "gnext s s' \<longleftrightarrow> ginv s' \<and> idle_kept (retiring s) (gk s) (retiring s') (gk s')"

definition gsafe :: "gevent \<Rightarrow> gstate \<Rightarrow> fault + gstate \<Rightarrow> bool" where
  "gsafe ev s r \<longleftrightarrow> (case r of
     Inl f \<Rightarrow> (f \<noteq> UseAfterFree \<or> (\<exists>env path. ev = Activate env path \<and> \<not> paths_resolve env path)) \<and>
       (ev \<in> {Enter, Read, Count False, Remove, Retire} \<longrightarrow> f \<noteq> NullDeref)
   | Inr s' \<Rightarrow> gnext s s')"

lemma idle_keptI: "(\<And>e. idle_epoch e (owner_view rt k) \<Longrightarrow> idle_epoch e (owner_view rt' k')) \<Longrightarrow> idle_kept rt k rt' k'"
  by (simp add: idle_kept_def)

lemma idle_kept_refl [simp]: "idle_kept rt k rt k"
  by (simp add: idle_kept_def)

lemma gnext_refl: "ginv s \<Longrightarrow> gnext s s"
  by (simp add: gnext_def)

lemma gnext_trans: "gnext s s1 \<Longrightarrow> gnext s1 s2 \<Longrightarrow> gnext s s2"
  by (simp add: gnext_def idle_kept_def)

lemma gnext_ginv: "gnext s s' \<Longrightarrow> ginv s'"
  by (simp add: gnext_def)

lemma ginvI: "core_ok (retiring s) (gk s) \<Longrightarrow>
    (\<And>t p. probes s t = Some p \<Longrightarrow> probe_ok (retiring s) (objs (gk s)) t p) \<Longrightarrow> ginv s"
  by (simp add: ginv_def)

lemma ginvD: "ginv s \<Longrightarrow> core_ok (retiring s) (gk s)"
    "ginv s \<Longrightarrow> probes s t = Some p \<Longrightarrow> probe_ok (retiring s) (objs (gk s)) t p"
  by (simp_all add: ginv_def)

lemma owner_view_simps [simp]:
  "objs (owner_view rt k) oid = shown (rt oid) (objs k oid)" "wqs (owner_view rt k) = wqs k"
  "epochs (owner_view rt k) = epochs k" "system_wq (owner_view rt k) = system_wq k"
  "next_id (owner_view rt k) = next_id k" "blkdevs_ht (owner_view rt k) = blkdevs_ht k"
  "loops_ht (owner_view rt k) = loops_ht k" "waddw_worklist (owner_view rt k) = waddw_worklist k"
  by (simp_all add: owner_view_def)

lemma table_view_simps [simp]:
  "objs (table_view rt k) = objs k |` (- dom rt)" "blkdevs_ht (table_view rt k) = blkdevs_ht k"
  "loops_ht (table_view rt k) = loops_ht k" "next_id (table_view rt k) = next_id k"
  by (simp_all add: table_view_def)

text \<open>An object of a table is not being deactivated.\<close>

lemma table_object:
  assumes "tables_ok (table_view rt k)" "get_device_data_always key k = Some oid"
  shows "rt oid = None" "\<exists>d. objs k oid = Some d"
proof -
  have "get_device_data_always key (table_view rt k) = Some oid"
    using assms(2) by (simp add: get_device_data_always_def split: mountinfo.splits)
  from live_object[OF assms(1) this] show "rt oid = None" "\<exists>d. objs k oid = Some d"
    by (auto simp: restrict_map_def split: if_splits)
qed

text \<open>The end of an RCU section changes nothing but the grace periods.\<close>

lemma drop_reader_shown [simp]: "shown (map_option (drop_reader t) r) od = shown r od"
  by (cases "(r, od)" rule: shown.cases) auto

lemma drop_reader_pc [simp]:
  "unretired (map_option (drop_reader t) r) = unretired r" "past_save (map_option (drop_reader t) r) = past_save r"
  by (cases "(r, None :: object_data option)" rule: shown.cases; simp)+

abbreviation drop_readers :: "nat \<Rightarrow> (nat \<rightharpoonup> retire_pc) \<Rightarrow> nat \<rightharpoonup> retire_pc" where
  "drop_readers t rt \<equiv> \<lambda>oid. map_option (drop_reader t) (rt oid)"

lemma dom_drop [simp]: "dom (drop_readers t rt) = dom rt"
  by (simp add: dom_def)

lemma owner_view_drop [simp]: "owner_view (drop_readers t rt) k = owner_view rt k"
  by (simp add: owner_view_def)

lemma core_ok_drop [simp]: "core_ok (drop_readers t rt) k = core_ok rt k"
proof -
  have "owner_view (drop_readers t rt) k = owner_view rt k" by simp
  moreover have "table_view (drop_readers t rt) k = table_view rt k" by (simp add: table_view_def)
  ultimately show ?thesis by (simp add: core_ok_def)
qed

lemma probe_ok_drop: "probe_ok rt ob t' p \<Longrightarrow> t' \<noteq> t \<Longrightarrow> probe_ok (drop_readers t rt) ob t' p"
  by (auto simp: probe_ok_def split: probe.splits elim!: drop_reader.elims)

lemma gnext_leave: "ginv s \<Longrightarrow> gnext s (leave t s)"
proof -
  assume I: "ginv s"
  then have "ginv (leave t s)" by (intro ginvI) (auto simp: leave_def ginv_def probe_ok_drop split: if_splits)
  then show ?thesis by (simp add: gnext_def idle_kept_def leave_def)
qed

lemma gnext_at: "ginv s \<Longrightarrow> probe_ok (retiring s) (objs (gk s)) t p \<Longrightarrow> gnext s (at_pc t p s)"
  by (auto simp: at_pc_def ginv_def gnext_def)

section \<open>Every step is safe\<close>

subsection \<open>Activations and workers\<close>

text \<open>The results of an activation: nothing but an identifier is used up, or a device is added.\<close>

definition inserted :: "kstate \<Rightarrow> kstate \<Rightarrow> bool" where
  "inserted k k' \<longleftrightarrow> (\<exists>env name.
     (\<exists>d. d \<notin> fst ` set (blkdevs_ht k) \<and> k' = (new_device env name k)\<lparr>blkdevs_ht := (d, Suc (next_id k)) # blkdevs_ht k\<rparr>) \<or>
     (\<exists>p. p \<notin> fst ` set (loops_ht k) \<and> k' = (new_device env name k)\<lparr>loops_ht := (p, Suc (next_id k)) # loops_ht k\<rparr>))"

definition activated :: "kstate \<Rightarrow> fault + int \<times> kstate \<Rightarrow> bool" where
  "activated k r \<longleftrightarrow> (case r of Inl f \<Rightarrow> False | Inr (c, k') \<Rightarrow> k' = k \<or> k' = drop_device k \<or> inserted k k')"

lemma insertedI:
  "d \<notin> fst ` set (blkdevs_ht k) \<Longrightarrow> inserted k ((new_device env name k)\<lparr>blkdevs_ht := (d, Suc (next_id k)) # blkdevs_ht k\<rparr>)"
  "p \<notin> fst ` set (loops_ht k) \<Longrightarrow> inserted k ((new_device env name k)\<lparr>loops_ht := (p, Suc (next_id k)) # loops_ht k\<rparr>)"
  unfolding inserted_def by blast+

lemma activated_block:
  assumes "alloc_workqueue_ok env"
  shows "activated k (try_to_insert_block_device bkt menv env d name k)"
proof (cases "\<not> kzalloc_object_ok env \<or> ht_insert_err env \<noteq> 0")
  case True
  then show ?thesis by (simp add: insert_block_fails[OF assms True] activated_def)
next
  case False
  then show ?thesis using assms by (simp add: insert_block_eq activated_def insertedI)
qed

lemma activated_loop:
  assumes "alloc_workqueue_ok env" "get_full_path env path PATH_MAX = Inr p"
  shows "activated k (try_to_insert_loop_device bkt menv env path name k)"
proof (cases "\<not> kzalloc_object_ok env \<or> ht_insert_err env \<noteq> 0")
  case True
  then show ?thesis by (simp add: insert_loop_fails[OF assms(1) True assms(2)] activated_def)
next
  case False
  then show ?thesis using assms by (simp add: insert_loop_eq activated_def insertedI)
qed

lemma activated_register:
  assumes "alloc_workqueue_ok env" "paths_resolve env path"
  shows "activated k (register_device bkt menv env path k)"
proof -
  have same: "activated k (Inr (c, k))" for c :: int by (simp add: activated_def)
  show ?thesis
    using assms(2) same
    by (auto simp: register_device_def do_device_reging_operation_def paths_resolve_def
        split: if_splits sum.splits option.splits file_type.splits
        intro: activated_loop[OF assms(1)] activated_block[OF assms(1)])
qed

lemma core_ok_drop_device:
  assumes "core_ok rt k"
  shows "core_step rt k rt (drop_device k)"
proof -
  note C = core_okD[OF assms]
  obtain fin where O: "owners_ok False (owner_view rt k) fin" by (rule core_ok_owners[OF assms])
  have t: "table_view rt (drop_device k) = drop_device (table_view rt k)" by (simp add: table_view_def drop_device_def)
  have o: "owner_view rt (drop_device k) = drop_device (owner_view rt k)" by (simp add: owner_view_def drop_device_def)
  have ob: "objs (drop_device k) = objs k" by (simp add: drop_device_def)
  have ids: "idle_epoch e (owner_view rt (drop_device k))" if "idle_epoch e (owner_view rt k)" for e
    using that unfolding o by (auto simp: idle_epoch_def drop_device_def split: if_splits)
  have "core_ok rt (drop_device k)"
  proof (rule core_okI[of rt "drop_device k" fin])
    show "tables_ok (table_view rt (drop_device k))" unfolding t by (rule tables_ok_drop[OF C(1)])
    show "owners_ok False (owner_view rt (drop_device k)) fin" unfolding o by (rule owners_ok_drop[OF O])
    show "oid < next_id (drop_device k)" if "oid \<in> dom rt" for oid using C(3)[OF that] by (simp add: drop_device_def)
    show "idle_epoch e (owner_view rt (drop_device k))"
      if "past_save (rt oid)" "objs (drop_device k) oid = Some d" "od_e d = Some e" for oid d e
      by (rule ids[OF C(5)[OF that(1) that(2)[unfolded ob] that(3)]])
  qed (use C(2,4) ob in simp_all)
  then show ?thesis using ids by (rule core_stepI)
qed

lemma core_ok_inserted:
  assumes "core_ok rt k" "inserted k k'"
  shows "core_step rt k rt k' \<and> (\<forall>oid d. objs k oid = Some d \<longrightarrow> objs k' oid = Some d)"
proof -
  note C = core_okD[OF assms(1)]
  obtain fin where O: "owners_ok False (owner_view rt k) fin" by (rule core_ok_owners[OF assms(1)])
  have old: "oid < next_id k" if "oid \<in> dom (objs k)" for oid
    using that C(1,3) unfolding tables_ok_def by (cases "oid \<in> dom rt") auto
  obtain env name B L where eq: "k' = (new_device env name k)\<lparr>blkdevs_ht := B, loops_ht := L\<rparr>"
    and tab: "tables_ok (table_view rt k')"
  proof -
    have new: "Suc (next_id k) \<notin> dom rt" using C(3) by force
    have tv: "table_view rt ((new_device env name k)\<lparr>blkdevs_ht := B\<rparr>) = (new_device env name (table_view rt k))\<lparr>blkdevs_ht := B\<rparr>"
      "table_view rt ((new_device env name k)\<lparr>loops_ht := L\<rparr>) = (new_device env name (table_view rt k))\<lparr>loops_ht := L\<rparr>"
      for env name B L using new by (auto simp: table_view_def new_device_def)
    from assms(2) obtain env name where "(\<exists>d. d \<notin> fst ` set (blkdevs_ht k) \<and> k' = (new_device env name k)\<lparr>blkdevs_ht := (d, Suc (next_id k)) # blkdevs_ht k\<rparr>) \<or>
     (\<exists>p. p \<notin> fst ` set (loops_ht k) \<and> k' = (new_device env name k)\<lparr>loops_ht := (p, Suc (next_id k)) # loops_ht k\<rparr>)"
      unfolding inserted_def by blast
    then show thesis
      using tables_ok_insert_block[OF C(1)] tables_ok_insert_loop[OF C(1)] tv
      by (intro that[of "loops_ht k'" "blkdevs_ht k'" env name]) (auto simp: new_device_def)
  qed
  have k': "epochs k' = epochs k" "system_wq k' = system_wq k" "next_id k' = next_id k + 2"
    by (simp_all add: eq new_device_def)
  let ?d = "\<lparr>wq_is_destroyed = False, od_wq = Some (next_id k), od_e = None, od_original_dev_name = strscpy name PATH_MAX\<rparr>"
  have ob: "objs k' = (objs k)(Suc (next_id k) \<mapsto> ?d)" and W: "wqs k' = (wqs k)(next_id k \<mapsto> [])"
    by (simp_all add: eq new_device_def)
  have fr: "rt (Suc (next_id k)) = None" using C(3)[of "Suc (next_id k)"] by auto
  have "next_id (owner_view rt k) + 1 \<notin> dom (objs (owner_view rt k))"
    using old[of "Suc (next_id k)"] by (cases "objs k (Suc (next_id k))") (auto simp: domIff fr)
  from owners_ok_new[OF O this, of env name]
  have "owners_ok False (new_device env name (owner_view rt k)) (fin(next_id k := None))" by simp
  moreover have "owner_view rt k' = (new_device env name (owner_view rt k))\<lparr>blkdevs_ht := B, loops_ht := L\<rparr>"
    using fr by (auto simp: eq owner_view_def new_device_def fun_eq_iff)
  ultimately have own: "owners_ok False (owner_view rt k') (fin(next_id k := None))" by simp
  have ids: "idle_epoch e (owner_view rt k')" if I: "idle_epoch e (owner_view rt k)" for e
    by (rule idle_epochI) (use idle_epochD[OF I] fr k' in \<open>auto simp: ob W split: if_splits\<close>)
  have idle: "idle_epoch e (owner_view rt k')" if "past_save (rt oid)" "objs k' oid = Some d" "od_e d = Some e" for oid d e
  proof -
    have "objs k oid = Some d" using that fr by (auto simp: ob split: if_splits)
    from ids[OF C(5)[OF that(1) this that(3)]] show ?thesis .
  qed
  have "core_ok rt k'"
  proof (rule core_okI[OF tab _ _ own])
    show "dom rt \<subseteq> dom (objs k')" using C(2) ob by auto
    show "oid < next_id k'" if "oid \<in> dom rt" for oid using C(3)[OF that] k' by simp
    show "wq_is_destroyed d = (\<not> unretired (rt oid))" if "objs k' oid = Some d" for oid d
      using that C(4) fr by (auto simp: ob split: if_splits)
  qed (rule idle)
  moreover have "\<forall>oid d. objs k oid = Some d \<longrightarrow> objs k' oid = Some d" using old[of "Suc (next_id k)"] by (auto simp: ob)
  ultimately show ?thesis using core_stepI[OF _ ids] by blast
qed

lemma probe_ok_mono:
  "probe_ok rt ob t p \<Longrightarrow> \<forall>oid d. ob oid = Some d \<longrightarrow> ob' oid = Some d \<Longrightarrow> probe_ok rt ob' t p"
  unfolding probe_ok_def by blast

lemma gnext_same_objs:
  assumes "ginv s" "core_step (retiring s) (gk s) (retiring s) k'"
    and "\<forall>oid d. objs (gk s) oid = Some d \<longrightarrow> objs k' oid = Some d"
  shows "gnext s (s\<lparr>gk := k'\<rparr>)"
proof -
  have "ginv (s\<lparr>gk := k'\<rparr>)"
    by (rule ginvI) (use assms(2) probe_ok_mono[OF ginvD(2)[OF assms(1)] assms(3)] in \<open>auto simp: core_step_def\<close>)
  with assms(2) show ?thesis by (simp add: gnext_def core_step_def)
qed

lemma gsafe_activate:
  assumes "ginv s" "alloc_workqueue_ok env"
  shows "gsafe (Activate env path) s (on_k s (state_of (register_device bkt menv env path (gk s))))"
proof -
  note C = ginvD(1)[OF assms(1)]
  have "gnext s (s\<lparr>gk := k'\<rparr>)" if "k' = gk s \<or> k' = drop_device (gk s) \<or> inserted (gk s) k'" for k'
  proof -
    have "objs (drop_device (gk s)) = objs (gk s)" by (simp add: drop_device_def)
    then have "(core_step (retiring s) (gk s) (retiring s) k') \<and> (\<forall>oid d. objs (gk s) oid = Some d \<longrightarrow> objs k' oid = Some d)"
      using that C core_ok_drop_device[OF C] core_ok_inserted[OF C] core_step_refl[OF C] by auto
    then show ?thesis using gnext_same_objs[OF assms(1)] by blast
  qed
  with gnext_refl[OF assms(1)] activated_register[OF assms(2), of path "gk s" bkt menv]
    register_unresolved[of env path bkt menv "gk s"] show ?thesis
    by (cases "paths_resolve env path") (auto simp: activated_def gsafe_def on_k_def split: sum.splits)
qed


text \<open>A change that keeps the objects and the tables, the epochs that are nobody's and the ownership of
  the others.\<close>

lemma core_ok_background:
  assumes "core_ok rt k" and same: "objs k' = objs k" "blkdevs_ht k' = blkdevs_ht k" "loops_ht k' = loops_ht k"
      "next_id k' = next_id k"
    and own: "\<And>fin. owners_ok False (owner_view rt k) fin \<Longrightarrow> owners_ok False (owner_view rt k') fin"
    and idle: "\<And>e. idle_epoch e (owner_view rt k) \<Longrightarrow> idle_epoch e (owner_view rt k')"
  shows "core_step rt k rt k'"
proof -
  note C = core_okD[OF assms(1)]
  obtain fin where O: "owners_ok False (owner_view rt k) fin" by (rule core_ok_owners[OF assms(1)])
  have "tables_ok (table_view rt k')" using C(1) same by (simp add: tables_ok_def)
  then have "core_ok rt k'"
    by (rule core_okI[OF _ _ _ own[OF O]]) (use C(2,3,4) idle[OF C(5)] same in auto)
  then show ?thesis using idle by (rule core_stepI)
qed

lemma gnext_background:
  assumes "ginv s" "objs k' = objs (gk s)" "blkdevs_ht k' = blkdevs_ht (gk s)" "loops_ht k' = loops_ht (gk s)"
      "next_id k' = next_id (gk s)"
    and "\<And>fin. owners_ok False (owner_view (retiring s) (gk s)) fin \<Longrightarrow> owners_ok False (owner_view (retiring s) k') fin"
    and "\<And>e. idle_epoch e (owner_view (retiring s) (gk s)) \<Longrightarrow> idle_epoch e (owner_view (retiring s) k')"
  shows "gnext s (s\<lparr>gk := k'\<rparr>)"
  by (rule gnext_same_objs[OF assms(1) core_ok_background[OF ginvD(1)[OF assms(1)] assms(2-7)]]) (use assms(2) in auto)

lemma gsafe_worker:
  assumes "ginv s"
  shows "gsafe Worker s (on_k s (run_wq_head bkt menv w (gk s)))"
proof -
  let ?ob = "objs (owner_view (retiring s) (gk s))"
  let ?v = "owner_view (retiring s) (gk s)"
  have v: "?v = (gk s)\<lparr>objs := ?ob\<rparr>" by (simp add: owner_view_def)
  obtain fin where O: "owners_ok False ?v fin" by (rule core_ok_owners[OF ginvD(1)[OF assms]])
  have run: "run_wq_head bkt menv w ?v = map_sum id (\<lambda>k'. k'\<lparr>objs := ?ob\<rparr>) (run_wq_head bkt menv w (gk s))"
    by (subst v) (rule run_wq_head_objs)
  show ?thesis
  proof (cases "run_wq_head bkt menv w (gk s)")
    case (Inl f)
    then have r: "run_wq_head bkt menv w ?v = Inl f" using run by simp
    have "wqs ?v w \<noteq> None \<and> wqs ?v w \<noteq> Some []"
      using r by (auto simp: run_wq_head_def split: option.splits list.splits)
    then obtain x q where q: "wqs ?v w = Some (x # q)" by (metis list.exhaust option.exhaust)
    from run_wq_head_step[OF owners_ok_lines[OF O] q, of bkt menv] r Inl show ?thesis
      by (simp add: gsafe_def on_k_def)
  next
    case (Inr k')
    note ob = run_wq_head_same_objs[OF Inr]
    have v': "owner_view (retiring s) k' = k'\<lparr>objs := ?ob\<rparr>" by (simp add: owner_view_def ob)
    have r: "run_wq_head bkt menv w ?v = Inr (owner_view (retiring s) k')" using run Inr v' by simp
    have "gnext s (s\<lparr>gk := k'\<rparr>)"
    proof (cases "\<exists>x q. wqs ?v w = Some (x # q)")
      case False
      then have "k' = gk s"
        using Inr by (auto simp: run_wq_head_def split: option.splits list.splits)
      then show ?thesis using gnext_refl[OF assms] by simp
    next
      case True
      then obtain x q where q: "wqs ?v w = Some (x # q)" by blast
      have W: "worked w ?v (owner_view (retiring s) k')" and L: "lines_ok False (owner_view (retiring s) k') fin"
        if "owners_ok False ?v fin" for fin
        using run_wq_head_step[OF owners_ok_lines[OF that] q, of bkt menv] r by auto
      have tabs: "blkdevs_ht k' = blkdevs_ht (gk s)" "loops_ht k' = loops_ht (gk s)" "next_id k' = next_id (gk s)"
        using worked_same(4-6)[OF W[OF O]] by simp_all
      show ?thesis
        by (rule gnext_background[OF assms ob tabs])
          (use owners_ok_worked[OF _ L W] idle_run_wq_head[OF _ r] in auto)
    qed
    then show ?thesis using Inr by (simp add: gsafe_def on_k_def)
  qed
qed

lemma gsafe_destroyer:
  assumes "ginv s"
  shows "gsafe Worker s (on_k s (run_system_work bkt menv i (gk s)))"
proof (cases "map_of (system_wq (gk s)) i")
  case None
  then show ?thesis using gnext_refl[OF assms] by (simp add: run_system_work_def gsafe_def on_k_def)
next
  case (Some a)
  let ?ob = "objs (owner_view (retiring s) (gk s))"
  let ?v = "owner_view (retiring s) (gk s)"
  have v: "?v = (gk s)\<lparr>objs := ?ob\<rparr>" by (simp add: owner_view_def)
  obtain fin where O: "owners_ok False ?v fin" by (rule core_ok_owners[OF ginvD(1)[OF assms]])
  have run: "run_system_work bkt menv i ?v = map_sum id (\<lambda>k'. k'\<lparr>objs := ?ob\<rparr>) (run_system_work bkt menv i (gk s))"
    by (subst v) (rule run_system_work_objs)
  have a: "map_of (system_wq ?v) i = Some a" using Some by simp
  show ?thesis
  proof (cases "run_system_work bkt menv i (gk s)")
    case (Inl f)
    then show ?thesis using run run_system_work_step[OF O a, of bkt menv] by (auto simp: gsafe_def on_k_def)
  next
    case (Inr k')
    note ob = run_system_work_same_objs[OF Inr]
    have v': "owner_view (retiring s) k' = k'\<lparr>objs := ?ob\<rparr>" by (simp add: owner_view_def ob)
    have r: "run_system_work bkt menv i ?v = Inr (owner_view (retiring s) k')" using run Inr v' by simp
    have own: "owners_ok False (owner_view (retiring s) k') fin" if "owners_ok False ?v fin" for fin
      using run_system_work_step[OF that a, of bkt menv] r by auto
    obtain S W E V where e: "owner_view (retiring s) k' = ?v\<lparr>system_wq := S, wqs := W, epochs := E, kvfs := V\<rparr>"
      using run_system_work_step[OF O a, of bkt menv] r by auto
    have "blkdevs_ht (owner_view (retiring s) k') = blkdevs_ht (gk s)" "loops_ht (owner_view (retiring s) k') = loops_ht (gk s)"
      "next_id (owner_view (retiring s) k') = next_id (gk s)" unfolding e by simp_all
    then have tabs: "blkdevs_ht k' = blkdevs_ht (gk s)" "loops_ht k' = loops_ht (gk s)" "next_id k' = next_id (gk s)"
      by simp_all
    have "gnext s (s\<lparr>gk := k'\<rparr>)"
      by (rule gnext_background[OF assms ob tabs own]) (use idle_run_system_work[OF _ r] in auto)
    then show ?thesis using Inr by (simp add: gsafe_def on_k_def)
  qed
qed

lemma gsafe_file_system:
  assumes "ginv s"
  shows "gsafe Worker s (Inr (s\<lparr>gk := (gk s)\<lparr>kvfs := v\<rparr>\<rparr>))"
proof -
  have v: "owner_view (retiring s) ((gk s)\<lparr>kvfs := v\<rparr>) = (owner_view (retiring s) (gk s))\<lparr>kvfs := v\<rparr>"
    by (simp add: owner_view_def)
  have "gnext s (s\<lparr>gk := (gk s)\<lparr>kvfs := v\<rparr>\<rparr>)"
    by (rule gnext_background[OF assms]) (auto simp: v idle_epoch_def)
  then show ?thesis by (simp add: gsafe_def)
qed


subsection \<open>RCU sections\<close>

lemma gsafe_enter:
  assumes "ginv s" "\<And>oid. probe_oid (p oid) = oid" "\<And>oid oid' buf nr sz pc. p oid \<noteq> PReader oid' buf nr sz pc"
  shows "gsafe Enter s (Inr (enter t minfo p s))"
proof (cases "get_device_data_always minfo (gk s)")
  case (Some oid)
  note t = core_okD(1)[OF ginvD(1)[OF assms(1)]]
  have "probe_ok (retiring s) (objs (gk s)) t (p oid)"
    using table_object[OF t Some] assms(2,3)[of oid] by (auto simp: probe_ok_def split: probe.splits)
  then show ?thesis using Some gnext_at[OF assms(1)] by (simp add: gsafe_def enter_def)
qed (use gnext_refl[OF assms(1)] in \<open>simp add: gsafe_def enter_def\<close>)

text \<open>An object that is not destroyed owns what it points to.\<close>

lemma unretired_live:
  assumes "core_ok rt k" "objs k oid = Some d" "unretired (rt oid)"
  obtains w q where "od_wq d = Some w" "wqs k w = Some q" "\<not> wq_is_destroyed d" "set_option (od_e d) \<subseteq> dom (epochs k)"
proof -
  obtain fin where O: "owners_ok False (owner_view rt k) fin" by (rule core_ok_owners[OF assms(1)])
  have "objs (owner_view rt k) oid = Some d" using assms(2,3) by (simp add: unretired_shown)
  from owners_ok_epochs_live[OF O this] that show thesis by auto
qed

lemma gsafe_reader:
  assumes I: "ginv s" and p: "probes s t = Some (PReader oid buf nr sz pc)" and pc: "pc \<notin> range RDone"
  shows "gsafe Read s (read_step env t s)"
proof -
  note C = ginvD(1)[OF I]
  obtain d where d: "objs (gk s) oid = Some d" and P: "pc = RTestE \<or> pc_window pc \<Longrightarrow> unretired (retiring s oid)"
    and W: "window_epoch pc (od_e d)" and g: "\<forall>R. retiring s oid = Some (Freeing R) \<longrightarrow> t \<in> R"
    using ginvD(2)[OF I p] by (auto simp: probe_ok_def)
  have goto: "gnext s (at_pc t (PReader oid buf nr sz pc') s)"
    if "pc' = RTestE \<or> pc_window pc' \<longrightarrow> unretired (retiring s oid)" "window_epoch pc' (od_e d)" for pc'
    by (rule gnext_at[OF I]) (use d g that in \<open>simp add: probe_ok_def\<close>)
  have step: "read_step env t s = (case reader_step env oid buf nr sz (pc, gk s) of
      Inl f \<Rightarrow> Inl f | Inr (pc', k') \<Rightarrow> Inr (at_pc t (PReader oid buf nr sz pc') (s\<lparr>gk := k'\<rparr>)))"
    using p pc by (cases pc) (simp_all add: read_step_def)
  have self: "s\<lparr>gk := gk s\<rparr> = s" by simp
  show ?thesis
  proof (cases pc)
    case RCheck
    then show ?thesis using goto[of RLocked] goto[of "RDone False"] d self
      by (simp add: step reader_step_def Let_def gsafe_def)
  next
    case RLocked
    then show ?thesis using core_okD(4)[OF C d] goto[of RTestE] goto[of "RDone False"] d self
      by (auto simp: step reader_step_def Let_def gsafe_def)
  next
    case RTestE
    then show ?thesis using goto[of RBuild] goto[of "RDone False"] d self P
      by (auto simp: step reader_step_def Let_def gsafe_def)
  next
    case RBuild
    then have u: "unretired (retiring s oid)" and "od_e d \<noteq> None" using P W by auto
    then obtain e where e: "od_e d = Some e" by blast
    obtain ep where ep: "epochs (gk s) e = Some ep" by (rule unretired_live[OF C d u]) (use e in auto)
    then show ?thesis using RBuild goto[of "RQueue e m" for m] d e u self
      by (simp add: step reader_step_def Let_def gsafe_def)
  next
    case (RQueue e m)
    then have u: "unretired (retiring s oid)" and e: "od_e d = Some e" using P W by auto
    obtain w q where w: "od_wq d = Some w" "wqs (gk s) w = Some q" by (rule unretired_live[OF C d u])
    let ?k = "(gk s)\<lparr>wqs := (wqs (gk s))(w \<mapsto> q @ [SnapshotWork e m])\<rparr>"
    let ?v = "owner_view (retiring s) (gk s)"
    have v: "owner_view (retiring s) ?k = ?v\<lparr>wqs := (wqs ?v)(w \<mapsto> q @ [SnapshotWork e m])\<rparr>"
      by (simp add: owner_view_def)
    have vd: "objs ?v oid = Some d" using d u by (simp add: unretired_shown)
    have 1: "gnext s (s\<lparr>gk := ?k\<rparr>)"
    proof (rule gnext_background[OF I])
      show "owners_ok False (owner_view (retiring s) ?k) fin" if "owners_ok False ?v fin" for fin
        unfolding v by (rule owners_ok_snapshot[OF that vd w(1) _ e]) (use w(2) in simp)
      show "idle_epoch e' (owner_view (retiring s) ?k)" if "idle_epoch e' ?v" for e'
      proof -
        have "e' \<notin> work_epoch ` set q" "e' \<noteq> e"
          using idle_epochD(2)[OF that, of w q] idle_epochD(3)[OF that vd] e w(2) by auto
        then show ?thesis using idle_epochD[OF that] unfolding v by (intro idle_epochI) (auto split: if_splits)
      qed
    qed simp_all
    from gnext_ginv[OF this] have "gnext (s\<lparr>gk := ?k\<rparr>) (at_pc t (PReader oid buf nr sz (RDone True)) (s\<lparr>gk := ?k\<rparr>))"
      by (rule gnext_at) (use d g in \<open>simp add: probe_ok_def\<close>)
    from gnext_trans[OF 1 this] show ?thesis using RQueue d w by (simp add: step reader_step_def Let_def gsafe_def)
  qed (use pc in blast)
qed

lemma gsafe_read:
  assumes I: "ginv s"
  shows "gsafe Read s (read_step env t s)"
proof (cases "probes s t")
  case (Some p)
  show ?thesis
  proof (cases p)
    case (PFound oid buf nr sz)
    obtain d where "objs (gk s) oid = Some d" "\<forall>R. retiring s oid = Some (Freeing R) \<longrightarrow> t \<in> R"
      using ginvD(2)[OF I Some] PFound by (auto simp: probe_ok_def)
    moreover from this have "gnext s (at_pc t (PReader oid buf nr sz RCheck) s)"
      by (intro gnext_at[OF I]) (simp add: probe_ok_def)
    ultimately show ?thesis using Some PFound gnext_leave[OF I] by (simp add: read_step_def gsafe_def)
  next
    case (PReader oid buf nr sz pc)
    with Some have p: "probes s t = Some (PReader oid buf nr sz pc)" by simp
    show ?thesis
    proof (cases "pc \<in> range RDone")
      case True
      then show ?thesis using p gnext_leave[OF I] by (auto simp: read_step_def gsafe_def)
    qed (rule gsafe_reader[OF I p])
  qed (use Some gnext_refl[OF I] in \<open>simp_all add: read_step_def gsafe_def\<close>)
qed (use gnext_refl[OF I] in \<open>simp add: read_step_def gsafe_def\<close>)


subsection \<open>Mount events\<close>

text \<open>What a mount event does to a device whose epoch is allocated, and whose workqueue is if the device is
  not destroyed: nothing, a new epoch, another count, or the end of the epoch.\<close>

definition opens :: "nat \<Rightarrow> object_data \<Rightarrow> kstate \<Rightarrow> kstate \<Rightarrow> bool" where
  "opens oid d k k' \<longleftrightarrow> od_e d = None \<and> (\<exists>ep. k' = k\<lparr>next_id := next_id k + 1, objs := (objs k)(oid \<mapsto> d\<lparr>od_e := Some (next_id k)\<rparr>),
       epochs := (epochs k)(next_id k \<mapsto> ep)\<rparr>)"

definition recounts :: "object_data \<Rightarrow> kstate \<Rightarrow> kstate \<Rightarrow> bool" where
  "recounts d k k' \<longleftrightarrow> (\<exists>e ep ep'. od_e d = Some e \<and> epochs k e = Some ep \<and>
     k' = k\<lparr>epochs := (epochs k)(e \<mapsto> ep')\<rparr>)"

definition closes :: "nat \<Rightarrow> object_data \<Rightarrow> kstate \<Rightarrow> kstate \<Rightarrow> bool" where
  "closes oid d k k' \<longleftrightarrow> \<not> wq_is_destroyed d \<and> (\<exists>e ep ep' w q q'. od_e d = Some e \<and> epochs k e = Some ep \<and> od_wq d = Some w \<and>
     wqs k w = Some q \<and> (q' = q \<or> q' = q @ [CleanupEpochWork e]) \<and>
     k' = k\<lparr>epochs := (epochs k)(e \<mapsto> ep'), objs := (objs k)(oid \<mapsto> d\<lparr>od_e := None\<rparr>), wqs := (wqs k)(w \<mapsto> q')\<rparr>)"

lemma count_call_cases:
  assumes d: "objs k oid = Some d" and e: "set_option (od_e d) \<subseteq> dom (epochs k)"
    and live: "\<not> wq_is_destroyed d \<Longrightarrow> od_wq d = Some w \<and> wqs k w = Some q"
  shows "\<exists>k'. count_call c oid d k = Inr k' \<and>
    (k' = k \<or> opens oid d k k' \<or> recounts d k k' \<or> last_unmount oid c k \<and> closes oid d k k')"
proof (cases "od_e d")
  case None
  show ?thesis
  proof (cases c)
    case (Mounted ok t)
    have op: "opens oid d k (k\<lparr>next_id := next_id k + 1, objs := (objs k)(oid \<mapsto> d\<lparr>od_e := Some (next_id k)\<rparr>),
       epochs := (epochs k)(next_id k \<mapsto> ep)\<rparr>)" for ep
      using None unfolding opens_def by blast
    show ?thesis
    proof (cases ok)
      case True
      let ?ep = "new_epoch\<lparr>n_currently_mounted := 1, first_mount_date := mount_date t\<rparr>"
      from True have "count_call c oid d k =
          Inr (k\<lparr>next_id := next_id k + 1, objs := (objs k)(oid \<mapsto> d\<lparr>od_e := Some (next_id k)\<rparr>), epochs := (epochs k)(next_id k \<mapsto> ?ep)\<rparr>)"
        using Mounted None by (simp add: count_call_def epoch_event_cb_count_mount_def Let_def new_epoch_def)
      then show ?thesis using op[of ?ep] by auto
    qed (use Mounted None in \<open>simp add: count_call_def epoch_event_cb_count_mount_def Let_def\<close>)
  qed (use None in \<open>simp add: count_call_def epoch_event_cb_count_umount_def\<close>)
next
  case (Some eid)
  with e obtain ep where ep: "epochs k eid = Some ep" by auto
  have re: "recounts d k (k\<lparr>epochs := (epochs k)(eid \<mapsto> ep')\<rparr>)" for ep'
    using Some ep unfolding recounts_def by blast
  show ?thesis
  proof (cases c)
    case (Mounted ok t)
    then show ?thesis using Some ep re
      by (simp add: count_call_def epoch_event_cb_count_mount_def Let_def)
  next
    case (Unmounted ok)
    let ?ep = "ep\<lparr>n_currently_mounted := n_currently_mounted ep - 1\<rparr>"
    have cl: "closes oid d k (k\<lparr>epochs := (epochs k)(eid \<mapsto> ep'), objs := (objs k)(oid \<mapsto> d\<lparr>od_e := None\<rparr>), wqs := (wqs k)(w \<mapsto> q')\<rparr>)"
      if "\<not> wq_is_destroyed d" "q' = q \<or> q' = q @ [CleanupEpochWork eid]" for ep' q'
      using Some ep that live unfolding closes_def by blast
    show ?thesis
    proof (cases "n_currently_mounted ep = 1 \<and> \<not> wq_is_destroyed d")
      case True
      then have w: "od_wq d = Some w" "wqs k w = Some q" using live by auto
      have "last_unmount oid c k" using True Unmounted d Some ep by (simp add: last_unmount_def epoch_view_def)
      moreover have "(wqs k)(w \<mapsto> q) = wqs k" using w(2) by (simp add: fun_upd_idem)
      ultimately show ?thesis using True Unmounted Some ep w cl[of q] cl[of "q @ [CleanupEpochWork eid]"]
        by (cases ok) (auto simp: count_call_def epoch_event_cb_count_umount_def Let_def)
    next
      case False
      then show ?thesis using Unmounted Some ep re[of "ep\<lparr>n_currently_mounted := 0\<rparr>"] re[of ?ep]
        by (auto simp: count_call_def epoch_event_cb_count_umount_def Let_def)
    qed
  qed
qed

text \<open>A new identifier is nobody's epoch.\<close>

lemma fresh_idle:
  assumes O: "owners_ok T k fin" and e: "e \<notin> dom (epochs k)"
  shows "wqs k w = Some q \<Longrightarrow> e \<notin> work_epoch ` set q" "objs k oid = Some d \<Longrightarrow> od_e d \<noteq> Some e"
    "n \<in> set (system_wq k) \<Longrightarrow> last_epoch (snd n) \<noteq> Some e"
proof -
  note O' = owners_okD[OF O]
  have refs: "refs q (fin w) \<subseteq> dom (epochs k)" if "wqs k w = Some q" for w q
    by (rule line_ok_refs[OF queues_okD(1)[OF O'(2) that]])
  show "e \<notin> work_epoch ` set q" if "wqs k w = Some q" using refs[OF that] e by (auto simp: refs_def)
  show "od_e d \<noteq> Some e" if "objs k oid = Some d" using owners_ok_epochs_live[OF O that] e by auto
  show "last_epoch (snd n) \<noteq> Some e" if n: "n \<in> set (system_wq k)"
  proof -
    obtain w q where "wqs k w = Some q" "fin w = last_epoch (snd n)" using handles_okD(3)[OF O'(1) n] by auto
    with refs[OF this(1)] e show ?thesis by (auto simp: refs_def)
  qed
qed

text \<open>An epoch that nobody owns may change, and one more may be there.\<close>

lemma owners_ok_idle_update:
  assumes "owners_ok T k fin" "idle_epoch e k"
  shows "owners_ok T (k\<lparr>epochs := (epochs k)(e \<mapsto> ep')\<rparr>) fin"
proof -
  note O = owners_okD[OF assms(1)]
  have "dom ((epochs k)(e \<mapsto> ep')) = dom (epochs k)" using idle_epochD(1)[OF assms(2)] by auto
  then show ?thesis using O
    by (intro owners_okI) (auto simp: fresh_ok_def)
qed

lemma owners_ok_idle_new:
  assumes "owners_ok False k fin"
  shows "owners_ok False (k\<lparr>next_id := next_id k + 1, epochs := (epochs k)(next_id k \<mapsto> ep)\<rparr>) fin"
    and "idle_epoch (next_id k) (k\<lparr>next_id := next_id k + 1, epochs := (epochs k)(next_id k \<mapsto> ep)\<rparr>)"
proof -
  let ?k = "k\<lparr>next_id := next_id k + 1, epochs := (epochs k)(next_id k \<mapsto> ep)\<rparr>"
  note O = owners_okD[OF assms(1)]
  have new: "next_id k \<notin> dom (epochs k)" using O(3) by (auto simp: fresh_ok_def)
  note fr = fresh_idle[OF assms new]
  show "idle_epoch (next_id k) ?k" by (rule idle_epochI) (use fr in auto)
  have "queues_ok False (wqs ?k) (dom (epochs ?k)) fin"
    by (rule queues_okI) (use queues_okD[OF O(2)] in \<open>auto intro: line_ok_mono\<close>)
  then show "owners_ok False ?k fin" using O fr(2)
    by (intro owners_okI) (auto simp: fresh_ok_def less_Suc_eq)
qed


lemma retire_cases: "r \<noteq> Some Marked \<Longrightarrow> \<not> unretired r \<Longrightarrow> past_save r"
  by (cases "(r, None :: object_data option)" rule: shown.cases) (auto simp: unretired_def)

text \<open>The tables see whether an object is there, not what is in it.\<close>

lemma table_view_update:
  assumes "tables_ok (table_view rt k)" "objs k oid = Some d" "objs k' = (objs k)(oid \<mapsto> d')"
    "blkdevs_ht k' = blkdevs_ht k" "loops_ht k' = loops_ht k" "next_id k \<le> next_id k'"
  shows "tables_ok (table_view rt k')"
proof -
  have "dom (objs (table_view rt k')) = dom (objs (table_view rt k))"
    using assms(2) by (auto simp: assms(3) restrict_map_def dom_def)
  with assms show ?thesis by (intro tables_ok_objs[OF assms(1)]) simp_all
qed

lemma core_ok_opens:
  assumes "core_ok rt k" and d: "objs k oid = Some d" and r: "rt oid \<noteq> Some Marked" and op: "opens oid d k k'"
  shows "core_step rt k rt k'"
proof -
  note C = core_okD[OF assms(1)]
  obtain fin where O: "owners_ok False (owner_view rt k) fin" by (rule core_ok_owners[OF assms(1)])
  obtain ep where e: "od_e d = None"
    and k': "k' = k\<lparr>next_id := next_id k + 1, objs := (objs k)(oid \<mapsto> d\<lparr>od_e := Some (next_id k)\<rparr>), epochs := (epochs k)(next_id k \<mapsto> ep)\<rparr>"
    using op by (auto simp: opens_def)
  let ?v = "owner_view rt k" and ?v' = "owner_view rt k'"
  have new: "next_id k \<notin> dom (epochs k)" using owners_okD(3)[OF O] by (auto simp: fresh_ok_def)
  have ids: "idle_epoch e' ?v' \<and> e' \<noteq> next_id k" if "idle_epoch e' ?v" for e'
  proof -
    have n: "e' \<noteq> next_id k" using idle_epochD(1)[OF that] new by auto
    have "od_e y \<noteq> Some e'" if y: "objs ?v' x = Some y" for x y
    proof (cases "od_e y = Some (next_id k)")
      case False
      then have "\<exists>z. objs ?v x = Some z \<and> od_e z = od_e y"
        using y d e(1) by (cases "(rt x, objs k x)" rule: shown.cases) (auto simp: k' split: if_splits)
      then show ?thesis using idle_epochD(3)[OF \<open>idle_epoch e' ?v\<close>] by metis
    qed (use n in simp)
    then have "idle_epoch e' ?v'" using idle_epochD[OF that] by (intro idle_epochI) (auto simp: k')
    with n show ?thesis by blast
  qed
  have own: "(\<exists>fin'. owners_ok False ?v' fin') \<and> (past_save (rt oid) \<longrightarrow> idle_epoch (next_id k) ?v')"
  proof (cases "unretired (rt oid)")
    case True
    then have vd: "objs ?v oid = Some d" using d by (simp add: unretired_shown)
    have v': "?v' = ?v\<lparr>next_id := next_id ?v + 1, objs := (objs ?v)(oid \<mapsto> d\<lparr>od_e := Some (next_id ?v)\<rparr>),
        epochs := (epochs ?v)(next_id ?v \<mapsto> ep)\<rparr>"
      using True by (auto simp: owner_view_def k' fun_eq_iff unretired_shown)
    from owners_ok_open_epoch[OF O vd e] unretired_past[OF True] show ?thesis unfolding v' by blast
  next
    case False
    from retire_cases[OF r this] have "shown (rt oid) (Some (d\<lparr>od_e := x\<rparr>)) = shown (rt oid) (Some d)" for x
      by (cases "(rt oid, Some d)" rule: shown.cases) auto
    then have "?v' = ?v\<lparr>next_id := next_id ?v + 1, epochs := (epochs ?v)(next_id ?v \<mapsto> ep)\<rparr>"
      using d by (auto simp: owner_view_def k' fun_eq_iff)
    then show ?thesis using owners_ok_idle_new[OF O, of ep] by auto
  qed
  then obtain fin' where fin': "owners_ok False ?v' fin'" by blast
  have "core_ok rt k'"
  proof (rule core_okI[OF _ _ _ fin'])
    show "tables_ok (table_view rt k')" by (rule table_view_update[OF C(1) d]) (simp_all add: k')
    show "dom rt \<subseteq> dom (objs k')" using C(2) by (auto simp: k')
    show "x < next_id k'" if "x \<in> dom rt" for x using C(3)[OF that] by (simp add: k')
    show "wq_is_destroyed d' = (\<not> unretired (rt x))" if "objs k' x = Some d'" for x d'
      using that C(4)[OF d] C(4)[of x d'] by (auto simp: k' split: if_splits)
    show "idle_epoch e' ?v'" if "past_save (rt x)" "objs k' x = Some d'" "od_e d' = Some e'" for x d' e'
      using that C(5)[of x d' e'] ids own by (cases "x = oid") (auto simp: k')
  qed
  with ids show ?thesis by (blast intro: core_stepI)
qed

lemma core_ok_recounts:
  assumes "core_ok rt k" and d: "objs k oid = Some d" and r: "rt oid \<noteq> Some Marked" and re: "recounts d k k'"
  shows "(core_step rt k rt k') \<and> objs k' = objs k"
proof -
  note C = core_okD[OF assms(1)]
  obtain fin where O: "owners_ok False (owner_view rt k) fin" by (rule core_ok_owners[OF assms(1)])
  obtain e ep ep' where e: "od_e d = Some e" "epochs k e = Some ep"
    and k': "k' = k\<lparr>epochs := (epochs k)(e \<mapsto> ep')\<rparr>" using re by (auto simp: recounts_def)
  let ?v = "owner_view rt k"
  have v': "owner_view rt k' = ?v\<lparr>epochs := (epochs ?v)(e \<mapsto> ep')\<rparr>" by (simp add: owner_view_def k')
  have own: "owners_ok False (owner_view rt k') fin" if O: "owners_ok False ?v fin" for fin
  proof (cases "unretired (rt oid)")
    case True
    have "epochs ?v e = Some ep" using e(2) by simp
    from owners_ok_epoch_update[OF O this] show ?thesis unfolding v' by simp
  next
    case False
    from C(5)[OF retire_cases[OF r this] d e(1)] show ?thesis unfolding v' by (rule owners_ok_idle_update[OF O])
  qed
  have "core_step rt k rt k'"
    by (rule core_ok_background[OF assms(1) _ _ _ _ own]) (auto simp: k' owner_view_def idle_epoch_def)
  then show ?thesis by (simp add: k')
qed

lemma core_ok_closes:
  assumes "core_ok rt k" and d: "objs k oid = Some d" and cl: "closes oid d k k'"
  shows "core_step rt k rt k'"
proof -
  note C = core_okD[OF assms(1)]
  obtain fin where O: "owners_ok False (owner_view rt k) fin" by (rule core_ok_owners[OF assms(1)])
  obtain e ep ep' w q q' where e: "\<not> wq_is_destroyed d" "od_e d = Some e" "epochs k e = Some ep" "od_wq d = Some w" "wqs k w = Some q"
      and q': "q' = q \<or> q' = q @ [CleanupEpochWork e]"
      and k': "k' = k\<lparr>epochs := (epochs k)(e \<mapsto> ep'), objs := (objs k)(oid \<mapsto> d\<lparr>od_e := None\<rparr>), wqs := (wqs k)(w \<mapsto> q')\<rparr>"
    using cl unfolding closes_def by blast
  let ?v = "owner_view rt k"
  have u: "unretired (rt oid)" using e(1) C(4)[OF d] by simp
  have vd: "objs ?v oid = Some d" using d u by (simp add: unretired_shown)
  have v': "owner_view rt k' = ?v\<lparr>epochs := (epochs ?v)(e \<mapsto> ep'), objs := (objs ?v)(oid \<mapsto> d\<lparr>od_e := None\<rparr>), wqs := (wqs ?v)(w \<mapsto> q')\<rparr>"
    using u by (auto simp: owner_view_def k' fun_eq_iff unretired_shown)
  have "wqs ?v w = Some q" "epochs ?v e = Some ep" using e by simp_all
  from owners_ok_close_epoch[OF O vd e(4) this(1) e(2) this(2), of q' ep'] q'
  obtain fin' where fin': "owners_ok False (owner_view rt k') fin'" unfolding v' by blast
  have ids: "idle_epoch e' (owner_view rt k')" if "idle_epoch e' ?v" for e'
  proof -
    have "e' \<noteq> e" "e' \<notin> work_epoch ` set q'"
      using idle_epochD(3)[OF that vd] idle_epochD(2)[OF that, of w q] e q' by auto
    then show ?thesis using idle_epochD[OF that] unfolding v' by (intro idle_epochI) (auto split: if_splits)
  qed
  have "core_ok rt k'"
  proof (rule core_okI[OF _ _ _ fin'])
    show "tables_ok (table_view rt k')" by (rule table_view_update[OF C(1) d]) (simp_all add: k')
    show "dom rt \<subseteq> dom (objs k')" using C(2) by (auto simp: k')
    show "x < next_id k'" if "x \<in> dom rt" for x using C(3)[OF that] by (simp add: k')
    show "wq_is_destroyed d' = (\<not> unretired (rt x))" if "objs k' x = Some d'" for x d'
      using that C(4)[OF d] C(4)[of x d'] by (auto simp: k' split: if_splits)
    show "idle_epoch e' (owner_view rt k')" if "past_save (rt x)" "objs k' x = Some d'" "od_e d' = Some e'" for x d' e'
      using that C(5)[of x d' e'] ids unretired_past[OF u] by (cases "x = oid") (auto simp: k')
  qed
  then show ?thesis using ids by (rule core_stepI)
qed

text \<open>Probes keep what they rely on when an object changes but not its epoch, or when none of them is in
  the window.\<close>

lemma probe_ok_update:
  assumes P: "probe_ok rt ob t p" and d: "ob oid = Some d"
    and w: "\<And>buf nr sz pc. p = PReader oid buf nr sz pc \<Longrightarrow> window_epoch pc (od_e d) \<Longrightarrow> window_epoch pc (od_e d')"
  shows "probe_ok rt (ob(oid \<mapsto> d')) t p"
proof (cases "probe_oid p = oid")
  case True
  with P d w show ?thesis unfolding probe_ok_def by (cases p) auto
next
  case False
  with P show ?thesis by (simp add: probe_ok_def)
qed

lemma no_window_epoch: "\<not> pc_window pc \<Longrightarrow> window_epoch pc e"
  by (cases pc) auto

lemma window_epoch_open: "window_epoch pc None \<Longrightarrow> window_epoch pc e"
  by (cases pc) auto

lemma gsafe_count:
  assumes I: "ginv s" and p: "probes s t = Some (PCount oid c)" and r: "retiring s oid \<noteq> Some Marked"
    and g: "last_unmount oid c (gk s) \<Longrightarrow> \<not> in_window oid s"
  shows "gsafe (Count False) s (count_step t s)"
proof -
  note C = ginvD(1)[OF I]
  obtain d where d: "objs (gk s) oid = Some d" using ginvD(2)[OF I p] by (auto simp: probe_ok_def)
  note des = core_okD(4)[OF C d] and idle = core_okD(5)[OF C _ d]
  have live: "\<exists>w q. set_option (od_e d) \<subseteq> dom (epochs (gk s)) \<and>
      (\<not> wq_is_destroyed d \<longrightarrow> od_wq d = Some w \<and> wqs (gk s) w = Some q)"
  proof (cases "unretired (retiring s oid)")
    case True
    show ?thesis by (rule unretired_live[OF C d True]) blast
  next
    case False
    then have "set_option (od_e d) \<subseteq> dom (epochs (gk s))" using idle[OF retire_cases[OF r]] idle_epochD(1) by fastforce
    with False des show ?thesis by blast
  qed
  then obtain k' where k': "count_call c oid d (gk s) = Inr k'"
    and ch: "k' = gk s \<or> opens oid d (gk s) k' \<or> recounts d (gk s) k' \<or> last_unmount oid c (gk s) \<and> closes oid d (gk s) k'"
    using count_call_cases[where c = c, OF d] by blast
  have 1: "gnext s (s\<lparr>gk := k'\<rparr>)"
    using ch
  proof (elim disjE)
    assume "k' = gk s"
    with gnext_refl[OF I] show ?thesis by simp
  next
    assume op: "opens oid d (gk s) k'"
    obtain d' where ob: "objs k' = (objs (gk s))(oid \<mapsto> d')" and e: "od_e d = None" using op by (auto simp: opens_def)
    have "probe_ok (retiring s) (objs k') t' p'" if "probes s t' = Some p'" for t' p'
      unfolding ob by (rule probe_ok_update[OF ginvD(2)[OF I that] d]) (auto simp: e window_epoch_open)
    with core_ok_opens[OF C d r op] show ?thesis by (simp add: gnext_def core_step_def ginv_def)
  next
    assume "recounts d (gk s) k'"
    from core_ok_recounts[OF C d r this] show ?thesis using gnext_same_objs[OF I] by simp
  next
    assume "last_unmount oid c (gk s) \<and> closes oid d (gk s) k'"
    then have cl: "closes oid d (gk s) k'" and g': "\<not> in_window oid s" using g by blast+
    obtain d' where ob: "objs k' = (objs (gk s))(oid \<mapsto> d')" using cl by (auto simp: closes_def)
    have "probe_ok (retiring s) (objs k') t' p'" if "probes s t' = Some p'" for t' p'
      unfolding ob
    proof (rule probe_ok_update[OF ginvD(2)[OF I that] d])
      fix buf nr sz pc assume "p' = PReader oid buf nr sz pc"
      with that g' have "\<not> pc_window pc" by (auto simp: in_window_def)
      then show "window_epoch pc (od_e d')" by (rule no_window_epoch)
    qed
    with core_ok_closes[OF C d cl] show ?thesis by (simp add: gnext_def core_step_def ginv_def)
  qed
  from gnext_trans[OF 1 gnext_leave[OF gnext_ginv[OF 1], of t]] p d k' show ?thesis by (simp add: gsafe_def count_step_def)
qed

subsection \<open>Deactivations\<close>

text \<open>One more object is out of the tables.\<close>

lemma remove_fast_tables:
  assumes t: "tables_ok (table_view rt k)" and k': "remove_fast key oid k = Some k'"
  shows "tables_ok (table_view (rt(oid \<mapsto> Unlinked)) k') \<and> rt oid = None \<and> oid < next_id k \<and>
    (\<exists>d. objs k oid = Some d) \<and> (\<exists>B L. k' = k\<lparr>blkdevs_ht := B, loops_ht := L\<rparr>)"
proof -
  have g: "get_device_data_always key k = Some oid" using k' by (auto simp: remove_fast_def split: if_splits)
  note ob = table_object[OF t g]
  have id: "oid < next_id k" using t ob unfolding tables_ok_def by (auto simp: domIff)
  have sub: "objs k |` (- insert oid (dom rt)) = (objs k |` (- dom rt))(oid := None)"
    by (auto simp: restrict_map_def fun_eq_iff)
  have "tables_ok (table_view (rt(oid \<mapsto> Unlinked)) k') \<and> (\<exists>B L. k' = k\<lparr>blkdevs_ht := B, loops_ht := L\<rparr>)"
  proof (cases key)
    case (BlockDevice d)
    then have m: "map_of (blkdevs_ht (table_view rt k)) d = Some oid" using g by (simp add: get_device_data_always_def)
    have eq: "k' = k\<lparr>blkdevs_ht := ht_remove d (blkdevs_ht k), loops_ht := loops_ht k\<rparr>"
      using k' g BlockDevice by (cases k) (auto simp: remove_fast_def)
    have "tables_ok (retire env oid data ((table_view rt k)\<lparr>blkdevs_ht := ht_remove d (blkdevs_ht k)\<rparr>))" for env data
      using tables_ok_remove_block[OF t m] by simp
    from this[of "env\<lparr>kmalloc_wlistnode_ok := False\<rparr>" for env] have "tables_ok (table_view (rt(oid \<mapsto> Unlinked)) k')"
      by (simp add: eq tables_ok_def sub retire_def prune_worklist_def)
    with eq show ?thesis by blast
  next
    case (LoopDevice d)
    then have m: "map_of (loops_ht (table_view rt k)) d = Some oid" using g by (simp add: get_device_data_always_def)
    have eq: "k' = k\<lparr>blkdevs_ht := blkdevs_ht k, loops_ht := ht_remove d (loops_ht k)\<rparr>"
      using k' g LoopDevice by (cases k) (auto simp: remove_fast_def)
    have "tables_ok (retire env oid data ((table_view rt k)\<lparr>loops_ht := ht_remove d (loops_ht k)\<rparr>))" for env data
      using tables_ok_remove_loop[OF t m] by simp
    from this[of "env\<lparr>kmalloc_wlistnode_ok := False\<rparr>" for env] have "tables_ok (table_view (rt(oid \<mapsto> Unlinked)) k')"
      by (simp add: eq tables_ok_def sub retire_def prune_worklist_def)
    with eq show ?thesis by blast
  qed
  with ob id show ?thesis by blast
qed

lemma gsafe_remove:
  assumes I: "ginv s"
  shows "gsafe Remove s (Inr (remove_step t s))"
proof (cases "\<exists>key oid k'. probes s t = Some (PRemove key oid) \<and> remove_fast key oid (gk s) = Some k'")
  case False
  then show ?thesis using gnext_refl[OF I] gnext_leave[OF I]
    by (auto simp: gsafe_def remove_step_def split: option.splits probe.splits)
next
  case True
  then obtain key oid k' where p: "probes s t = Some (PRemove key oid)" and k': "remove_fast key oid (gk s) = Some k'" by blast
  note L = gnext_leave[OF I, of t]
  note I1 = gnext_ginv[OF L]
  let ?rt = "retiring (leave t s)"
  have gk: "gk (leave t s) = gk s" by (simp add: leave_def)
  note C1 = ginvD(1)[OF I1, unfolded gk]
  note C = core_okD[OF C1]
  obtain fin where O: "owners_ok False (owner_view ?rt (gk s)) fin" by (rule core_ok_owners[OF C1])
  note R = remove_fast_tables[OF C(1) k']
  then obtain d B L where d: "objs (gk s) oid = Some d" and rt: "?rt oid = None" "oid < next_id (gk s)"
    and eq: "k' = (gk s)\<lparr>blkdevs_ht := B, loops_ht := L\<rparr>" and tab: "tables_ok (table_view (?rt(oid \<mapsto> Unlinked)) k')" by blast
  have v: "owner_view (?rt(oid \<mapsto> Unlinked)) k' = (owner_view ?rt (gk s))\<lparr>blkdevs_ht := B, loops_ht := L\<rparr>"
    using rt(1) by (auto simp: owner_view_def eq fun_eq_iff)
  have "core_ok (?rt(oid \<mapsto> Unlinked)) k'"
  proof (rule core_okI[OF tab])
    show "owners_ok False (owner_view (?rt(oid \<mapsto> Unlinked)) k') fin" unfolding v using O by simp
    show "idle_epoch e (owner_view (?rt(oid \<mapsto> Unlinked)) k')"
      if "past_save ((?rt(oid \<mapsto> Unlinked)) x)" "objs k' x = Some y" "od_e y = Some e" for x y e
    proof -
      have "idle_epoch e (owner_view ?rt (gk s))" using that C(5)[of x y e] by (auto simp: eq split: if_splits)
      then show ?thesis unfolding v by (simp add: idle_epoch_def)
    qed
    show "wq_is_destroyed y = (\<not> unretired ((?rt(oid \<mapsto> Unlinked)) x))" if "objs k' x = Some y" for x y
      using that C(4)[of x y] rt(1) by (auto simp: eq)
  qed (use C(2,3) d rt(2) in \<open>auto simp: eq\<close>)
  moreover have "probe_ok (?rt(oid \<mapsto> Unlinked)) (objs k') t' p'" if "probes (leave t s) t' = Some p'" for t' p'
    using ginvD(2)[OF I1 that] rt(1) by (auto simp: gk eq probe_ok_def split: probe.splits)
  ultimately have "ginv ((leave t s)\<lparr>gk := k', retiring := ?rt(oid \<mapsto> Unlinked)\<rparr>)" by (intro ginvI) simp_all
  moreover have "idle_kept ?rt (gk s) (?rt(oid \<mapsto> Unlinked)) k'" by (simp add: idle_kept_def v) (simp add: idle_epoch_def)
  ultimately have "gnext (leave t s) ((leave t s)\<lparr>gk := k', retiring := ?rt(oid \<mapsto> Unlinked)\<rparr>)" by (simp add: gnext_def gk)
  from gnext_trans[OF L this] show ?thesis using p k' by (simp add: gsafe_def remove_step_def)
qed


text \<open>Most steps of a deactivation move what it owns from one place to another.\<close>

lemma core_ok_reframe:
  assumes "core_ok rt k" and v: "owner_view rt' k' = owner_view rt k" and t: "table_view rt' k' = table_view rt k"
    and dom: "dom rt' \<subseteq> dom rt" "dom rt' \<subseteq> dom (objs k')"
    and des: "\<And>x d'. objs k' x = Some d' \<Longrightarrow> wq_is_destroyed d' = (\<not> unretired (rt' x))"
    and idle: "\<And>x d' e. past_save (rt' x) \<Longrightarrow> objs k' x = Some d' \<Longrightarrow> od_e d' = Some e \<Longrightarrow>
      past_save (rt x) \<and> (\<exists>d. objs k x = Some d \<and> od_e d = Some e)"
  shows "core_step rt k rt' k'"
proof -
  note C = core_okD[OF assms(1)]
  obtain fin where O: "owners_ok False (owner_view rt k) fin" by (rule core_ok_owners[OF assms(1)])
  have n: "next_id k' = next_id k" using arg_cong[OF v, of next_id] by simp
  have "core_ok rt' k'"
  proof (rule core_okI)
    show "oid < next_id k'" if "oid \<in> dom rt'" for oid using C(3)[of oid] that dom(1) n by auto
    show "idle_epoch e (owner_view rt' k')" if "past_save (rt' x)" "objs k' x = Some d'" "od_e d' = Some e" for x d' e
      unfolding v using idle[OF that] C(5) by blast
  qed (use v t C(1) O dom(2) des in simp_all)
  with v show ?thesis by (simp add: core_step_def idle_kept_def)
qed

lemma core_ok_schedule:
  fixes env :: dev_env
  assumes "core_ok rt k" and r: "rt oid = Some (Saved e)" and d: "objs k oid = Some d"
  shows "core_step rt k (rt(oid \<mapsto> Scheduled)) (prune_worklist
    (if kmalloc_wlistnode_ok env \<and> kmalloc_wargs_ok env then defer_cleanup (d\<lparr>od_e := e\<rparr>) k else k))" (is "core_step rt k ?rt ?k")
proof -
  note C = core_okD[OF assms(1)]
  obtain fin where O: "owners_ok False (owner_view rt k) fin" by (rule core_ok_owners[OF assms(1)])
  let ?v = "owner_view rt k" and ?d = "d\<lparr>wq_is_destroyed := False, od_e := e\<rparr>"
  have vd: "objs ?v oid = Some ?d" using r d by simp
  have same: "objs ?k = objs k" "blkdevs_ht ?k = blkdevs_ht k" "loops_ht ?k = loops_ht k" "next_id k \<le> next_id ?k"
    "epochs ?k = epochs k" "wqs ?k = wqs k"
    by (simp_all add: prune_worklist_def defer_cleanup_def Let_def)
  have v': "owner_view ?rt ?k = retire env oid ?d ?v"
    using r d by (auto simp: owner_view_def retire_def prune_worklist_def defer_cleanup_def Let_def fun_eq_iff)
  have S: "n \<in> set (system_wq (owner_view ?rt ?k)) \<Longrightarrow> n \<in> set (system_wq k) \<or> last_epoch (snd n) = e" for n
    by (auto simp: prune_worklist_def defer_cleanup_def Let_def split: if_splits)
  have ids: "idle_epoch e' (owner_view ?rt ?k)" if "idle_epoch e' ?v" for e'
  proof (rule idle_epochI)
    show "last_epoch (snd n) \<noteq> Some e'" if "n \<in> set (system_wq (owner_view ?rt ?k))" for n
      using S[OF that] idle_epochD(3)[OF \<open>idle_epoch e' ?v\<close> vd] idle_epochD(4)[OF \<open>idle_epoch e' ?v\<close>, of n] by auto
    show "od_e y \<noteq> Some e'" if "objs (owner_view ?rt ?k) x = Some y" for x y
      using that idle_epochD(3)[OF \<open>idle_epoch e' ?v\<close>, of x y] by (simp add: same split: if_splits)
  qed (use idle_epochD[OF that] in \<open>auto simp: same\<close>)
  have "core_ok ?rt ?k"
  proof (rule core_okI)
    have "dom ?rt = dom rt" using r by auto
    then show "tables_ok (table_view ?rt ?k)"
      by (intro tables_ok_objs[OF C(1)]) (simp_all only: table_view_simps same)
    show "owners_ok False (owner_view ?rt ?k) fin" unfolding v' by (rule owners_ok_retire[OF O vd]) simp
    show "dom ?rt \<subseteq> dom (objs ?k)" using C(2) d by (auto simp: same)
    show "x < next_id ?k" if "x \<in> dom ?rt" for x
      using C(3)[of x] that r same(4) by (auto simp: domIff split: if_splits intro: order_less_le_trans)
    show "wq_is_destroyed y = (\<not> unretired (?rt x))" if "objs ?k x = Some y" for x y
      using that C(4)[of x y] r by (auto simp: same)
    show "idle_epoch e' (owner_view ?rt ?k)" if "past_save (?rt x)" "objs ?k x = Some y" "od_e y = Some e'" for x y e'
      using that C(5)[of x y e'] r by (intro ids) (auto simp: same split: if_splits)
  qed
  then show ?thesis using ids by (rule core_stepI)
qed

text \<open>Probes that hold the object do not run behind its locks.\<close>

lemma probe_ok_retire:
  assumes I: "ginv s" and r: "retiring s oid = Some pc" and p: "probes s t = Some p"
    and f: "\<And>R. pc' = Freeing R \<Longrightarrow> R = dom (probes s)" and lock: "pc = Unlinked \<longrightarrow> \<not> read_locked oid s"
  shows "probe_ok ((retiring s)(oid \<mapsto> pc')) ((objs (gk s))(oid \<mapsto> d')) t p"
proof (cases "probe_oid p = oid")
  case True
  have "\<not> (p' = RTestE \<or> pc_window p')" if "p = PReader oid buf nr sz p'" for buf nr sz p'
  proof
    assume w: "p' = RTestE \<or> pc_window p'"
    then have "pc_locked p'" by (cases p') auto
    moreover have "pc = Unlinked" using ginvD(2)[OF I p] that w r True by (auto simp: probe_ok_def unretired_def)
    ultimately show False using lock p that True by (auto simp: read_locked_def)
  qed
  then show ?thesis using True p f by (auto simp: probe_ok_def no_window_epoch split: probe.splits)
next
  case False
  then show ?thesis using ginvD(2)[OF I p] by (auto simp: probe_ok_def split: probe.splits)
qed

lemma core_ok_move:
  assumes C: "core_ok rt k" and r: "rt oid = Some pc" and d: "objs k oid = Some d"
    and v: "shown (Some pc') (Some d') = shown (Some pc) (Some d)" and new: "wq_is_destroyed d'" "\<not> unretired (Some pc')"
    and e: "past_save (Some pc') \<Longrightarrow> od_e d' \<noteq> None \<Longrightarrow> past_save (Some pc) \<and> od_e d' = od_e d"
  shows "core_step rt k (rt(oid \<mapsto> pc')) (k\<lparr>objs := (objs k)(oid \<mapsto> d')\<rparr>)"
proof (rule core_ok_reframe[OF C])
  note dom = core_okD(2)[OF C] and des = core_okD(4)[OF C]
  show "owner_view (rt(oid \<mapsto> pc')) (k\<lparr>objs := (objs k)(oid \<mapsto> d')\<rparr>) = owner_view rt k"
    using v r d by (auto simp: owner_view_def fun_eq_iff)
  have drt: "dom (rt(oid \<mapsto> pc')) = dom rt" using r by auto
  have "(objs k)(oid \<mapsto> d') |` (- dom (rt(oid \<mapsto> pc'))) = objs k |` (- dom rt)"
    using r by (auto simp: restrict_map_def fun_eq_iff)
  then show "table_view (rt(oid \<mapsto> pc')) (k\<lparr>objs := (objs k)(oid \<mapsto> d')\<rparr>) = table_view rt k"
    by (simp add: table_view_def del: dom_fun_upd)
  show "past_save (rt x) \<and> (\<exists>y. objs k x = Some y \<and> od_e y = Some e')"
    if "past_save ((rt(oid \<mapsto> pc')) x)" "objs (k\<lparr>objs := (objs k)(oid \<mapsto> d')\<rparr>) x = Some y'" "od_e y' = Some e'" for x y' e'
    using that e d r by (cases "x = oid") auto
  show "dom (rt(oid \<mapsto> pc')) \<subseteq> dom rt" "dom (rt(oid \<mapsto> pc')) \<subseteq> dom (objs (k\<lparr>objs := (objs k)(oid \<mapsto> d')\<rparr>))"
    using drt dom by auto
  show "wq_is_destroyed y = (\<not> unretired ((rt(oid \<mapsto> pc')) x))" if "objs (k\<lparr>objs := (objs k)(oid \<mapsto> d')\<rparr>) x = Some y" for x y
    using that new des[of x y] by (auto split: if_splits)
qed

lemma core_ok_release:
  assumes C: "core_ok rt k" and r: "rt oid = Some (Freeing R)"
  shows "core_step rt k (rt(oid := None)) (k\<lparr>objs := (objs k)(oid := None)\<rparr>)"
proof (rule core_ok_reframe[OF C])
  show "owner_view (rt(oid := None)) (k\<lparr>objs := (objs k)(oid := None)\<rparr>) = owner_view rt k"
    using r by (auto simp: owner_view_def fun_eq_iff)
  have "(objs k)(oid := None) |` (- dom (rt(oid := None))) = objs k |` (- dom rt)"
    using r by (auto simp: restrict_map_def fun_eq_iff)
  then show "table_view (rt(oid := None)) (k\<lparr>objs := (objs k)(oid := None)\<rparr>) = table_view rt k"
    by (simp add: table_view_def del: dom_fun_upd)
qed (use core_okD(2,4)[OF C] in \<open>auto split: if_splits\<close>)

lemma gsafe_retire:
  assumes I: "ginv s" and g: "retiring s oid = Some Unlinked \<longrightarrow> \<not> read_locked oid s"
  shows "gsafe Retire s (retire_step env oid s)"
proof (cases "retiring s oid")
  case None
  then show ?thesis using gnext_refl[OF I] by (simp add: retire_step_def gsafe_def Let_def)
next
  case (Some pc)
  let ?k = "gk s" and ?rt = "retiring s"
  note C = ginvD(1)[OF I]
  note dom = core_okD(2)[OF C] and des = core_okD(4)[OF C]
  obtain d where d: "objs ?k oid = Some d" using dom Some by auto
  note probes = probe_ok_retire[OF I Some] and move = core_ok_move[OF C Some d]
  show ?thesis
  proof (cases pc)
    case Unlinked
    have "core_step ?rt ?k (?rt(oid \<mapsto> Marked)) (?k\<lparr>objs := (objs ?k)(oid \<mapsto> d\<lparr>wq_is_destroyed := True\<rparr>)\<rparr>)"
      using des[OF d] Some Unlinked by (intro move) auto
    moreover have "probe_ok (?rt(oid \<mapsto> Marked)) ((objs ?k)(oid \<mapsto> d\<lparr>wq_is_destroyed := True\<rparr>)) t p" if "probes s t = Some p" for t p
      by (rule probes[OF that]) (use g Some Unlinked in auto)
    ultimately show ?thesis using Unlinked Some d
      by (simp add: retire_step_def gsafe_def Let_def gnext_def core_step_def ginv_def)
  next
    case Marked
    have "core_step ?rt ?k (?rt(oid \<mapsto> Saved (od_e d))) (?k\<lparr>objs := (objs ?k)(oid \<mapsto> d\<lparr>od_e := None\<rparr>)\<rparr>)"
      using des[OF d] Some Marked by (intro move) auto
    moreover have "probe_ok (?rt(oid \<mapsto> Saved (od_e d))) ((objs ?k)(oid \<mapsto> d\<lparr>od_e := None\<rparr>)) t p" if "probes s t = Some p" for t p
      by (rule probes[OF that]) (use Marked in auto)
    ultimately show ?thesis using Marked Some d
      by (simp add: retire_step_def gsafe_def Let_def gnext_def core_step_def ginv_def)
  next
    case (Saved e)
    let ?k' = "prune_worklist (if kmalloc_wlistnode_ok env \<and> kmalloc_wargs_ok env then defer_cleanup (d\<lparr>od_e := e\<rparr>) ?k else ?k)"
    have "objs ?k' = (objs ?k)(oid \<mapsto> d)" using d by (auto simp: prune_worklist_def defer_cleanup_def Let_def)
    then have "gnext s (s\<lparr>gk := ?k', retiring := ?rt(oid \<mapsto> Scheduled)\<rparr>)"
      using core_ok_schedule[OF C _ d, of e env] Some Saved probes[where pc' = Scheduled and d' = d]
      by (simp add: gnext_def core_step_def ginv_def)
    then show ?thesis using Saved Some d by (simp add: retire_step_def gsafe_def Let_def)
  next
    case Scheduled
    have same: "(objs ?k)(oid \<mapsto> d) = objs ?k" using d by auto
    have "core_step ?rt ?k (?rt(oid \<mapsto> Freeing (dom (probes s)))) (?k\<lparr>objs := (objs ?k)(oid \<mapsto> d)\<rparr>)"
      using des[OF d] Some Scheduled by (intro move) auto
    then have "gnext s (s\<lparr>retiring := ?rt(oid \<mapsto> Freeing (dom (probes s)))\<rparr>)"
      using Scheduled probes[where pc' = "Freeing (dom (probes s))" and d' = d] by (simp add: same gnext_def core_step_def ginv_def)
    then show ?thesis using Scheduled Some d by (simp add: retire_step_def gsafe_def Let_def)
  next
    case (Freeing R)
    show ?thesis
    proof (cases "R = {}")
      case True
      note core_ok_release[OF C Some[unfolded Freeing]]
      moreover have "probe_ok (?rt(oid := None)) ((objs ?k)(oid := None)) t p" if "probes s t = Some p" for t p
      proof -
        have "probe_oid p \<noteq> oid" using ginvD(2)[OF I that] Some Freeing True by (auto simp: probe_ok_def)
        then show ?thesis using ginvD(2)[OF I that] by (auto simp: probe_ok_def split: probe.splits)
      qed
      ultimately show ?thesis using True Freeing Some d by (simp add: retire_step_def gsafe_def Let_def gnext_def core_step_def ginv_def)
    qed (use Freeing Some d gnext_refl[OF I] in \<open>simp add: retire_step_def gsafe_def Let_def\<close>)
  qed
qed

end
