(* ===== verification/Graceprops.thy ===== *)
theory Graceprops
  imports Graceinv
begin

text \<open>
  What follows for the reachable states of \<open>Grace\<close>: no use of freed memory, the epoch that a late mount
  event leaks, and the end of every grace period.
\<close>

section \<open>Reachable states\<close>

lemma gstep_safe:
  assumes "gstep bkt ev s r" "admissible ev" "ginv s"
  shows "gsafe ev s r"
  using assms
  by (elim gstepE)
    (auto intro!: gsafe_activate gsafe_enter gsafe_read gsafe_count gsafe_remove gsafe_retire gsafe_worker gsafe_destroyer gsafe_file_system)

lemma ginv_started: "ginv (gstarted v)"
proof (rule ginvI)
  obtain fin where "tables_ok (started v)" "owners_ok False (started v) fin"
    using kinv_started[of False v] by (auto simp: kinv_def)
  moreover have "table_view Map.empty k = k" "owner_view Map.empty k = k" for k :: kstate
    by (simp_all add: table_view_def owner_view_def restrict_map_def)
  moreover have "objs (started v) = Map.empty" by (simp add: start_defs)
  ultimately show "core_ok (retiring (gstarted v)) (gk (gstarted v))"
    by (intro core_okI) (auto simp: gstarted_def)
qed (simp add: gstarted_def)

lemma greach_ginv: "greach bkt v s \<Longrightarrow> ginv s"
proof (induction rule: greach.induct)
  case (step s ev s')
  from gstep_safe[OF step(2,3,4)] show ?case by (simp add: gsafe_def gnext_ginv)
qed (rule ginv_started)


lemma gstep_gnext: "gstep bkt ev s (Inr s') \<Longrightarrow> admissible ev \<Longrightarrow> ginv s \<Longrightarrow> gnext s s'"
  using gstep_safe[of bkt ev s "Inr s'"] by (simp add: gsafe_def)

text \<open>Any number of admissible steps of anyone.\<close>

abbreviation gpath :: "(u64 \<Rightarrow> nat) \<Rightarrow> gstate \<Rightarrow> gstate \<Rightarrow> bool" where
  "gpath bkt \<equiv> (\<lambda>s s'. \<exists>ev. gstep bkt ev s (Inr s') \<and> admissible ev)\<^sup>*\<^sup>*"

lemma gpath_gnext: "gpath bkt s s' \<Longrightarrow> ginv s \<Longrightarrow> gnext s s'"
proof (induction rule: rtranclp_induct)
  case base
  then show ?case by (rule gnext_refl)
next
  case (step s1 s2)
  then show ?case using gstep_gnext gnext_ginv gnext_trans by blast
qed

lemma greach_next: "greach bkt v s \<Longrightarrow> gstep bkt ev s r \<Longrightarrow> r = Inr s' \<Longrightarrow> admissible ev \<Longrightarrow> greach bkt v s'"
  by (auto intro: greach.step)

lemma greach_gpath: "gpath bkt s s' \<Longrightarrow> greach bkt v s \<Longrightarrow> greach bkt v s'"
  by (induction rule: rtranclp_induct) (auto intro: greach.step)

section \<open>Properties\<close>



text \<open>A device, a mount event that has looked it up, and its deactivation past the point where it has
  taken the epoch.\<close>

definition late_mount :: gstate where
  "late_mount = \<lparr>gk = one_device\<lparr>blkdevs_ht := [],
       objs := [1 \<mapsto> \<lparr>wq_is_destroyed = True, od_wq = Some 0, od_e = None, od_original_dev_name = ''/dev/sda1''\<rparr>]\<rparr>,
     probes = [5 \<mapsto> PCount 1 (Mounted True sample_tm)], retiring = [1 \<mapsto> Saved None]\<rparr>"


lemma greach_late_mount: "greach bkt empty_vfs late_mount"
proof -
  let ?s1 = "\<lparr>gk = one_device, probes = Map.empty, retiring = Map.empty\<rparr> :: gstate"
  let ?s2 = "?s1\<lparr>probes := [5 \<mapsto> PCount 1 (Mounted True sample_tm)]\<rparr>"
  let ?s3 = "?s1\<lparr>probes := [5 \<mapsto> PCount 1 (Mounted True sample_tm), 6 \<mapsto> PRemove (BlockDevice 0x800001) 1]\<rparr>"
  let ?o = "\<lparr>wq_is_destroyed = False, od_wq = Some 0, od_e = None, od_original_dev_name = ''/dev/sda1''\<rparr>"
  have g: "get_device_data_always (BlockDevice 0x800001) one_device = Some 1"
    by (simp add: get_device_data_always_def one_device_def)
  have ob: "objs one_device = [1 \<mapsto> ?o]" by (simp add: one_device_def new_device_def start_defs)
  have 1: "greach bkt empty_vfs ?s1"
    by (rule greach_next[OF greach.init gstep.activate[of bkt sample_dev_env "''/dev/sda1''" "gstarted empty_vfs" sample_menv]])
      (simp_all add: gstarted_def register_one_device on_k_def sample_env_registers(2))
  have 2: "greach bkt empty_vfs ?s2"
    by (rule greach_next[OF 1 gstep.mount_event[of 5 _ bkt "BlockDevice 0x800001" "Mounted True sample_tm"]])
      (simp_all add: enter_def g at_pc_def)
  have 3: "greach bkt empty_vfs ?s3"
    by (rule greach_next[OF 2 gstep.deactivate[of 6 _ bkt "BlockDevice 0x800001"]])
      (simp_all add: enter_def g at_pc_def)
  have "remove_fast (BlockDevice 0x800001) 1 one_device = Some (one_device\<lparr>blkdevs_ht := []\<rparr>)"
    using g by (simp add: remove_fast_def ht_remove_def) (simp add: one_device_def)
  then have 4: "greach bkt empty_vfs (?s2\<lparr>gk := one_device\<lparr>blkdevs_ht := []\<rparr>, retiring := [1 \<mapsto> Unlinked]\<rparr>)"
    by (intro greach_next[OF 3 gstep.remove[of bkt _ 6]])
      (simp_all add: remove_step_def leave_def fun_upd_twist)
  have nl: "\<not> read_locked 1 (?s2\<lparr>gk := k, retiring := r\<rparr>)" for k r
    by (auto simp: read_locked_def split: if_splits)
  have 5: "greach bkt empty_vfs (?s2\<lparr>gk := one_device\<lparr>blkdevs_ht := [], objs := [1 \<mapsto> ?o\<lparr>wq_is_destroyed := True\<rparr>]\<rparr>, retiring := [1 \<mapsto> Marked]\<rparr>)"
    by (rule greach_next[OF 4 gstep.retire[of _ 1 bkt sample_dev_env]]) (use nl in \<open>simp_all add: retire_step_def ob\<close>)
  show ?thesis
    by (rule greach_next[OF 5 gstep.retire[of _ 1 bkt sample_dev_env]]) (simp_all add: retire_step_def ob late_mount_def)
qed



text \<open>C35: a mount event that has looked up the device before its deactivation and gets \<open>general_lock\<close> after
  it opens an epoch in an object that is on its way to be freed (\<open>__epoch_event_cb_count_mount\<close>
  ignores its argument \<open>wq_is_destroyed\<close>): no step of anyone ever frees that epoch.\<close>

theorem late_mount_leaks_epoch:
  assumes "greach bkt v s" "probes s t = Some (PCount oid (Mounted True tm))" "past_save (retiring s oid)"
    and "objs (gk s) oid = Some d" "od_e d = None"
  shows "\<exists>s'. gstep bkt (Count False) s (Inr s') \<and> next_id (gk s) \<notin> dom (epochs (gk s)) \<and>
    (\<forall>s''. gpath bkt s' s'' \<longrightarrow> next_id (gk s) \<in> dom (epochs (gk s'')))"
proof -
  note I = greach_ginv[OF assms(1)]
  let ?e = "next_id (gk s)"
  have r: "retiring s oid \<noteq> Some Marked" using assms(3) by auto
  have step: "gstep bkt (Count False) s (count_step t s)"
    by (rule gstep.count[OF assms(2) r]) (simp add: last_unmount_def)
  obtain k' where k': "count_call (Mounted True tm) oid d (gk s) = Inr k'" "objs k' oid = Some (d\<lparr>od_e := Some ?e\<rparr>)"
    using assms(5) by (simp add: count_call_def epoch_event_cb_count_mount_def Let_def)
  let ?s' = "leave t (s\<lparr>gk := k'\<rparr>)"
  have eq: "count_step t s = Inr ?s'" using assms(2,4) k'(1) by (simp add: count_step_def)
  have "ginv ?s'" by (rule gnext_ginv[OF gstep_gnext[OF step[unfolded eq] _ I]]) simp
  then have C: "core_ok (retiring ?s') k'" by (simp add: ginv_def leave_def)
  have "idle_epoch ?e (owner_view (retiring ?s') k')"
    by (rule core_okD(5)[OF C _ k'(2)]) (use assms(3) in \<open>auto simp: leave_def\<close>)
  then have idle: "idle_epoch ?e (owner_view (retiring ?s') (gk ?s'))" by (simp add: leave_def)
  have "?e \<in> dom (epochs (gk s''))" if "gpath bkt ?s' s''" for s''
    using gpath_gnext[OF that \<open>ginv ?s'\<close>] idle idle_epochD(1)[of ?e "owner_view (retiring s'') (gk s'')"]
    unfolding gnext_def idle_kept_def by simp
  moreover have "?e \<notin> dom (epochs (gk s))"
  proof -
    obtain fin where "owners_ok False (owner_view (retiring s) (gk s)) fin" by (rule core_ok_owners[OF ginvD(1)[OF I]])
    from owners_okD(3)[OF this] show ?thesis by (auto simp: fresh_ok_def)
  qed
  ultimately show ?thesis using step eq by auto
qed

theorem late_mount_leaks_epoch_witness:
  "\<exists>s'. gstep (\<lambda>_. 0) (Count False) late_mount (Inr s') \<and> (\<forall>s''. gpath (\<lambda>_. 0) s' s'' \<longrightarrow> 2 \<in> dom (epochs (gk s'')))"
proof -
  have "next_id (gk late_mount) = 2" by (simp add: late_mount_def one_device_def new_device_def start_defs)
  with late_mount_leaks_epoch[OF greach_late_mount[of "\<lambda>_. 0"], of 5 1 sample_tm] show ?thesis
    by (fastforce simp: late_mount_def)
qed


section \<open>Grace periods end\<close>

text \<open>How many steps a thread in an RCU section and a deactivation still have to do.\<close>

fun probe_rank :: "probe \<Rightarrow> nat" where
  "probe_rank (PFound oid buf nr sz) = 7"
| "probe_rank (PReader oid buf nr sz pc) =
     (case pc of RCheck \<Rightarrow> 6 | RLocked \<Rightarrow> 5 | RTestE \<Rightarrow> 4 | RBuild \<Rightarrow> 3 | RQueue e m \<Rightarrow> 2 | RDone b \<Rightarrow> 1)"
| "probe_rank (PCount oid c) = 1"
| "probe_rank (PRemove key oid) = 6"

fun retire_rank :: "retire_pc \<Rightarrow> nat" where
  "retire_rank Unlinked = 5"
| "retire_rank Marked = 4"
| "retire_rank (Saved e) = 3"
| "retire_rank Scheduled = 2"
| "retire_rank (Freeing R) = 1"

definition map_sum_of :: "('b \<Rightarrow> nat) \<Rightarrow> ('a \<rightharpoonup> 'b) \<Rightarrow> nat" where
  "map_sum_of f m = (\<Sum>x \<in> dom m. f (the (m x)))"

lemma map_sum_of_delete:
  assumes "finite (dom m)" "m x = Some y"
  shows "map_sum_of f m = map_sum_of f (m(x := None)) + f y"
proof -
  have "map_sum_of f m = f y + (\<Sum>z \<in> dom m - {x}. f (the (m z)))"
    unfolding map_sum_of_def using assms by (subst sum.remove[of _ x]) auto
  also have "(\<Sum>z \<in> dom m - {x}. f (the (m z))) = map_sum_of f (m(x := None))"
    unfolding map_sum_of_def by (rule sum.cong) auto
  finally show ?thesis by simp
qed

lemma map_sum_of_insert:
  assumes "finite (dom m)"
  shows "map_sum_of f (m(x \<mapsto> y)) = map_sum_of f (m(x := None)) + f y"
  using map_sum_of_delete[of "m(x \<mapsto> y)" x y f] assms by simp

lemma map_sum_of_update_less:
  assumes "finite (dom m)" "m x = Some y" "f y' < f y"
  shows "map_sum_of f (m(x \<mapsto> y')) < map_sum_of f m"
  using map_sum_of_delete[OF assms(1,2), of f] map_sum_of_insert[OF assms(1), of f x y'] assms(3) by simp

lemma retire_rank_drop [simp]: "retire_rank (drop_reader t pc) = retire_rank pc"
  by (cases pc) auto

lemma map_sum_of_drop [simp]: "map_sum_of retire_rank (drop_readers t rt) = map_sum_of retire_rank rt"
  unfolding map_sum_of_def by (intro sum.cong) (auto simp: dom_def)

definition remaining :: "gstate \<Rightarrow> nat" where
  "remaining s = map_sum_of probe_rank (probes s) + map_sum_of retire_rank (retiring s)"

text \<open>There are finitely many threads, and a grace period waits for threads that are in an RCU section.\<close>

definition threads_ok :: "gstate \<Rightarrow> bool" where
  "threads_ok s \<longleftrightarrow> finite (dom (probes s)) \<and> finite (dom (retiring s)) \<and>
     (\<forall>oid R. retiring s oid = Some (Freeing R) \<longrightarrow> R \<subseteq> dom (probes s))"

lemma threads_ok_leave: "threads_ok s \<Longrightarrow> threads_ok (leave t s)"
  by (auto simp: threads_ok_def leave_def elim!: drop_reader.elims)

lemma threads_ok_at: "threads_ok s \<Longrightarrow> threads_ok (at_pc t p s)"
  by (auto simp: threads_ok_def at_pc_def)

lemma threads_ok_gk [simp]: "threads_ok (s\<lparr>gk := k\<rparr>) = threads_ok s"
  by (simp add: threads_ok_def)

lemma threads_ok_retire:
  "threads_ok s \<Longrightarrow> (\<And>R. pc = Freeing R \<Longrightarrow> R = dom (probes s)) \<Longrightarrow> threads_ok (s\<lparr>gk := k, retiring := (retiring s)(oid \<mapsto> pc)\<rparr>)"
  "threads_ok s \<Longrightarrow> threads_ok (s\<lparr>gk := k, retiring := (retiring s)(oid := None)\<rparr>)"
  "threads_ok s \<Longrightarrow> (\<And>R. pc = Freeing R \<Longrightarrow> R = dom (probes s)) \<Longrightarrow> threads_ok (s\<lparr>retiring := (retiring s)(oid \<mapsto> pc)\<rparr>)"
  by (auto simp: threads_ok_def split: if_splits)

lemma threads_ok_step:
  assumes "gstep bkt ev s (Inr s')" "threads_ok s"
  shows "threads_ok s'"
  using assms(1)
proof (cases rule: gstep.cases)
  case (read env t)
  then show ?thesis using assms(2)
    by (auto simp: read_step_def intro: threads_ok_leave threads_ok_at
        split: option.splits probe.splits reader_pc.splits sum.splits prod.splits if_splits)
next
  case (retire oid env)
  then show ?thesis using assms(2)
    by (auto simp: retire_step_def Let_def intro: threads_ok_retire split: option.splits retire_pc.splits if_splits)
qed (use assms(2) in \<open>auto simp: on_k_def enter_def count_step_def remove_step_def intro: threads_ok_leave threads_ok_at threads_ok_retire
      split: option.splits probe.splits sum.splits\<close>)

lemma greach_threads: "greach bkt v s \<Longrightarrow> threads_ok s"
proof (induction rule: greach.induct)
  case init
  show ?case by (simp add: threads_ok_def gstarted_def)
qed (rule threads_ok_step)


text \<open>The block of every file system probe has the size it says.\<close>

fun probe_buffer_ok :: "probe \<Rightarrow> bool" where
  "probe_buffer_ok (PFound oid buf nr sz) \<longleftrightarrow> unat (ucast sz :: u32) \<le> length buf"
| "probe_buffer_ok (PReader oid buf nr sz pc) \<longleftrightarrow> unat (ucast sz :: u32) \<le> length buf"
| "probe_buffer_ok p \<longleftrightarrow> True"

definition buffers_ok :: "gstate \<Rightarrow> bool" where
  "buffers_ok s \<longleftrightarrow> (\<forall>p \<in> ran (probes s). probe_buffer_ok p)"

lemma buffers_ok_leave: "buffers_ok s \<Longrightarrow> buffers_ok (leave t s)"
  by (auto simp: buffers_ok_def leave_def ran_def split: if_splits)

lemma remaining_leave:
  assumes "threads_ok s" "probes s t = Some p"
  shows "remaining s = remaining (leave t s) + probe_rank p"
  using map_sum_of_delete[of "probes s" t p probe_rank] assms by (simp add: remaining_def leave_def threads_ok_def)

lemma remaining_gk [simp]: "remaining (s\<lparr>gk := k\<rparr>) = remaining s" "buffers_ok (s\<lparr>gk := k\<rparr>) = buffers_ok s"
  by (simp_all add: remaining_def buffers_ok_def)

lemma remaining_at:
  assumes "threads_ok s" "probes s t = Some p" "probe_rank p' < probe_rank p" "buffers_ok s" "probe_buffer_ok p'"
  shows "remaining (at_pc t p' s) < remaining s \<and> buffers_ok (at_pc t p' s)"
  using map_sum_of_update_less[of "probes s" t p probe_rank p'] assms
  by (auto simp: remaining_def at_pc_def threads_ok_def buffers_ok_def ran_def)

lemma remaining_retire:
  assumes "threads_ok s" "retiring s oid = Some pc" "retire_rank pc' < retire_rank pc"
  shows "remaining (s\<lparr>gk := k, retiring := (retiring s)(oid \<mapsto> pc')\<rparr>) < remaining s"
    "remaining (s\<lparr>retiring := (retiring s)(oid \<mapsto> pc')\<rparr>) < remaining s"
  using map_sum_of_update_less[of "retiring s" oid pc retire_rank pc'] assms by (auto simp: remaining_def threads_ok_def)

text \<open>A step towards the end is one that leaves less to do.\<close>

definition advances :: "(u64 \<Rightarrow> nat) \<Rightarrow> gstate \<Rightarrow> bool" where
  "advances bkt s \<longleftrightarrow> (\<exists>ev s'. gstep bkt ev s (Inr s') \<and> admissible ev \<and> remaining s' < remaining s \<and> buffers_ok s')"

lemma advancesI: "gstep bkt ev s r \<Longrightarrow> admissible ev \<Longrightarrow> r = Inr s' \<Longrightarrow> remaining s' < remaining s \<and> buffers_ok s' \<Longrightarrow> advances bkt s"
  unfolding advances_def by blast

lemma leave_advances:
  assumes "threads_ok s" "buffers_ok s" "probes s t = Some p" "gstep bkt ev s r" "admissible ev" "r = Inr (leave t (s\<lparr>gk := k\<rparr>))"
  shows "advances bkt s"
proof (rule advancesI[OF assms(4,5,6)])
  have "0 < probe_rank p" by (cases p) (auto split: reader_pc.splits)
  with remaining_leave[of "s\<lparr>gk := k\<rparr>" t p] assms(1-3) buffers_ok_leave[of "s\<lparr>gk := k\<rparr>" t]
  show "remaining (leave t (s\<lparr>gk := k\<rparr>)) < remaining s \<and> buffers_ok (leave t (s\<lparr>gk := k\<rparr>))" by simp
qed

lemma reader_advances:
  assumes I: "ginv s" "threads_ok s" "buffers_ok s" and p: "probes s t = Some p"
    and r: "(\<exists>oid buf nr sz. p = PFound oid buf nr sz) \<or> (\<exists>oid buf nr sz pc. p = PReader oid buf nr sz pc)"
  shows "advances bkt s"
proof -
  let ?env = "\<lparr>kmalloc_msw_ok = True, kmalloc_block_ok = True\<rparr> :: bd_env"
  have step: "gstep bkt Read s (read_step ?env t s)" by (rule gstep.read)
  have nf: "read_step ?env t s \<noteq> Inl UseAfterFree" "read_step ?env t s \<noteq> Inl NullDeref"
    using gsafe_read[OF I(1), of ?env t] by (auto simp: gsafe_def)
  have b: "probe_buffer_ok p" using I(3) p by (auto simp: buffers_ok_def ran_def)
  have at: "advances bkt s" if "read_step ?env t s = Inr (at_pc t p' (s\<lparr>gk := k\<rparr>))" "probe_rank p' < probe_rank p" "probe_buffer_ok p'" for p' k
    by (rule advancesI[OF step _ that(1)]) (use remaining_at[of "s\<lparr>gk := k\<rparr>" t p p'] I p that in simp_all)
  have lv: "advances bkt s" if "read_step ?env t s = Inr (leave t s)"
    by (rule leave_advances[OF I(2,3) p step, where k = "gk s"]) (use that in simp_all)
  have "(\<exists>p' k. read_step ?env t s = Inr (at_pc t p' (s\<lparr>gk := k\<rparr>)) \<and> probe_rank p' < probe_rank p \<and> probe_buffer_ok p') \<or>
      read_step ?env t s = Inr (leave t s)"
    using r
  proof (elim disjE exE)
    fix oid buf nr sz assume f: "p = PFound oid buf nr sz"
    obtain d where d: "objs (gk s) oid = Some d" using nf(1) p f by (auto simp: read_step_def split: option.splits)
    show ?thesis
    proof (cases "od_e d = None \<or> wq_is_destroyed d")
      case False
      with f p d have "read_step ?env t s = Inr (at_pc t (PReader oid buf nr sz RCheck) (s\<lparr>gk := gk s\<rparr>))"
        by (auto simp: read_step_def)
      then show ?thesis using f b by (intro disjI1 exI[of _ "PReader oid buf nr sz RCheck"] exI[of _ "gk s"]) simp
    qed (use f p d in \<open>auto simp: read_step_def\<close>)
  next
    fix oid buf nr sz pc assume f: "p = PReader oid buf nr sz pc"
    show ?thesis
    proof (cases "pc \<in> range RDone")
      case True
      then show ?thesis using f p by (auto simp: read_step_def)
    next
      case False
      then have rs: "read_step ?env t s = (case reader_step ?env oid buf nr sz (pc, gk s) of
          Inl f \<Rightarrow> Inl f | Inr (pc', k') \<Rightarrow> Inr (at_pc t (PReader oid buf nr sz pc') (s\<lparr>gk := k'\<rparr>)))"
        using p f by (cases pc) (simp_all add: read_step_def)
      have "\<exists>pc' k'. reader_step ?env oid buf nr sz (pc, gk s) = Inr (pc', k') \<and>
          probe_rank (PReader oid buf nr sz pc') < probe_rank p"
        using nf rs f b False
        by (cases pc) (auto simp: reader_step_def Let_def split: option.splits if_splits)
      then obtain pc' k' where n: "reader_step ?env oid buf nr sz (pc, gk s) = Inr (pc', k')"
        "probe_rank (PReader oid buf nr sz pc') < probe_rank p" by blast
      then have "read_step ?env t s = Inr (at_pc t (PReader oid buf nr sz pc') (s\<lparr>gk := k'\<rparr>))" using rs by simp
      with n(2) b f show ?thesis by (intro disjI1 exI[of _ "PReader oid buf nr sz pc'"] exI[of _ k']) simp
    qed
  qed
  then show ?thesis using at lv by blast
qed


lemma retire_advances:
  assumes I: "ginv s" "threads_ok s" "buffers_ok s" and pc: "retiring s oid = Some pc"
    and g: "pc = Unlinked \<Longrightarrow> \<not> read_locked oid s" "\<And>R. pc = Freeing R \<Longrightarrow> R = {}"
  shows "advances bkt s"
proof -
  let ?env = "undefined :: dev_env"
  have step: "gstep bkt Retire s (retire_step ?env oid s)" by (rule gstep.retire) (use pc g(1) in auto)
  have b: "buffers_ok (s\<lparr>gk := k, retiring := rt\<rparr>)" for k rt using I(3) by (simp add: buffers_ok_def)
  obtain d where d: "objs (gk s) oid = Some d" using core_okD(2)[OF ginvD(1)[OF I(1)]] pc by auto
  have move: "\<exists>k pc'. retire_step ?env oid s = Inr (s\<lparr>gk := k, retiring := (retiring s)(oid \<mapsto> pc')\<rparr>) \<and>
      retire_rank pc' < retire_rank pc" if "\<forall>R. pc \<noteq> Freeing R"
  proof -
    let ?to = "\<lambda>k pc'. retire_step ?env oid s = Inr (s\<lparr>gk := k, retiring := (retiring s)(oid \<mapsto> pc')\<rparr>)"
    have ex: ?thesis if "?to k pc'" "retire_rank pc' < retire_rank pc" for k pc' using that by blast
    show ?thesis
    proof (cases pc)
      case Unlinked
      show ?thesis by (rule ex[of Marked "(gk s)\<lparr>objs := (objs (gk s))(oid \<mapsto> d\<lparr>wq_is_destroyed := True\<rparr>)\<rparr>"])
          (use Unlinked pc d in \<open>simp_all add: retire_step_def Let_def\<close>)
    next
      case Marked
      show ?thesis by (rule ex[of "Saved (od_e d)" "(gk s)\<lparr>objs := (objs (gk s))(oid \<mapsto> d\<lparr>od_e := None\<rparr>)\<rparr>"])
          (use Marked pc d in \<open>simp_all add: retire_step_def Let_def\<close>)
    next
      case (Saved e)
      then show ?thesis using pc d by (intro ex) (auto simp: retire_step_def Let_def simp del: if_split intro!: refl)
    next
      case Scheduled
      show ?thesis by (rule ex[of "Freeing (dom (probes s))" "gk s"])
          (use Scheduled pc d in \<open>simp_all add: retire_step_def Let_def\<close>)
    qed (use that in blast)
  qed
  show ?thesis
  proof (cases "\<exists>R. pc = Freeing R")
    case False
    then obtain k pc' where r: "retire_step ?env oid s = Inr (s\<lparr>gk := k, retiring := (retiring s)(oid \<mapsto> pc')\<rparr>)"
      and less: "retire_rank pc' < retire_rank pc" using move by blast
    show ?thesis by (rule advancesI[OF step _ r]) (use remaining_retire(1)[OF I(2) pc less] b in simp_all)
  next
    case True
    then have f: "pc = Freeing {}" using g(2) by auto
    let ?s = "s\<lparr>gk := (gk s)\<lparr>objs := (objs (gk s))(oid := None)\<rparr>, retiring := (retiring s)(oid := None)\<rparr>"
    have "retire_step ?env oid s = Inr ?s" using f pc d by (simp add: retire_step_def Let_def)
    moreover have "remaining ?s < remaining s"
      using map_sum_of_delete[of "retiring s" oid pc retire_rank] pc f I(2) by (simp add: remaining_def threads_ok_def)
    ultimately show ?thesis using step b by (intro advancesI[OF step]) auto
  qed
qed

lemma count_step_result:
  assumes "probes s t = Some (PCount oid c)" "count_step t s \<noteq> Inl UseAfterFree" "count_step t s \<noteq> Inl NullDeref"
  shows "\<exists>k. count_step t s = Inr (leave t (s\<lparr>gk := k\<rparr>))"
proof -
  have "f = UseAfterFree \<or> f = NullDeref" if "count_call c oid d k = Inl f" for d k f
    using that by (auto simp: count_call_def epoch_event_cb_count_mount_def epoch_event_cb_count_umount_def Let_def
        split: probe_call.splits option.splits if_splits)
  then show ?thesis using assms by (auto simp: count_step_def split: option.splits sum.splits)
qed

text \<open>Unless everything is done somebody can go on: first the file system probes, which wait for nobody,
  then the deactivations up to their grace periods, then the mount events, the lookups of other
  deactivations, and the ends of the grace periods.\<close>

lemma someone_advances:
  assumes I: "ginv s" "threads_ok s" "buffers_ok s" and todo: "probes s \<noteq> Map.empty \<or> retiring s \<noteq> Map.empty"
  shows "advances bkt s"
proof (cases "\<exists>t oid buf nr sz pc. probes s t = Some (PFound oid buf nr sz) \<or> probes s t = Some (PReader oid buf nr sz pc)")
  case True
  then show ?thesis using reader_advances[OF I] by blast
next
  case False
  then have nr: "\<not> read_locked oid s" "\<not> in_window oid s" for oid by (auto simp: read_locked_def in_window_def)
  show ?thesis
  proof (cases "\<exists>oid pc. retiring s oid = Some pc \<and> (\<forall>R. pc \<noteq> Freeing R)")
    case True
    then show ?thesis using retire_advances[OF I] nr(1) by blast
  next
    case free: False
    show ?thesis
    proof (cases "probes s = Map.empty")
      case True
      with todo obtain oid pc where pc: "retiring s oid = Some pc" by (auto simp: fun_eq_iff)
      then obtain R where "pc = Freeing R" using free by blast
      moreover from this pc have "R = {}" using I(2) True by (auto simp: threads_ok_def)
      ultimately show ?thesis using retire_advances[OF I pc] by simp
    next
      case ne: False
      then obtain t p where p: "probes s t = Some p" by (auto simp: fun_eq_iff)
      show ?thesis
      proof (cases p)
        case (PCount oid c)
        have "retiring s oid \<noteq> Some Marked" using free by blast
        then have step: "gstep bkt (Count False) s (count_step t s)" using p PCount nr(2) by (intro gstep.count) auto
        from gsafe_count[OF I(1) p[unfolded PCount]] nr(2) \<open>retiring s oid \<noteq> Some Marked\<close>
        have "gsafe (Count False) s (count_step t s)" by blast
        then have "count_step t s \<noteq> Inl UseAfterFree" "count_step t s \<noteq> Inl NullDeref" by (auto simp: gsafe_def)
        from count_step_result[OF p[unfolded PCount] this] obtain k where k: "count_step t s = Inr (leave t (s\<lparr>gk := k\<rparr>))" ..
        show ?thesis by (rule leave_advances[OF I(2,3) p step _ k]) simp
      next
        case (PRemove key oid)
        have step: "gstep bkt Remove s (Inr (remove_step t s))" by (rule gstep.remove)
        show ?thesis
        proof (cases "remove_fast key oid (gk s)")
          case None
          then show ?thesis using p PRemove by (intro leave_advances[OF I(2,3) p step, where k = "gk s"]) (simp_all add: remove_step_def)
        next
          case (Some k')
          let ?s = "(leave t s)\<lparr>gk := k', retiring := (retiring (leave t s))(oid \<mapsto> Unlinked)\<rparr>"
          have e: "remove_step t s = ?s" using p PRemove Some by (simp add: remove_step_def)
          have "retiring s oid = None" using remove_fast_tables[OF core_okD(1)[OF ginvD(1)[OF I(1)]] Some] by blast
          then have n: "retiring (leave t s) oid = None" by (simp add: leave_def)
          have "finite (dom (retiring (leave t s)))" using threads_ok_leave[OF I(2)] by (simp add: threads_ok_def)
          from map_sum_of_insert[OF this, of retire_rank oid Unlinked] n
          have "remaining ?s = remaining (leave t s) + 5" by (simp add: remaining_def fun_upd_idem)
          moreover have "remaining s = remaining (leave t s) + 6" using remaining_leave[OF I(2) p] PRemove by simp
          moreover have "buffers_ok ?s" using buffers_ok_leave[OF I(3), of t] by (simp add: buffers_ok_def)
          ultimately show ?thesis using e by (intro advancesI[OF step]) auto
        qed
      qed (use False p in blast)+
    qed
  qed
qed

text \<open>C19: nothing waits for ever: from every reachable state the threads that are inside RCU sections can
  finish and every deactivation under way can, so that afterwards exactly the registered devices have
  objects: the locks and grace periods make no circle.\<close>

theorem deactivations_complete:
  assumes "greach bkt v s" "buffers_ok s"
  shows "\<exists>s'. gpath bkt s s' \<and> probes s' = Map.empty \<and> retiring s' = Map.empty \<and> tables_ok (gk s')"
  using assms
proof (induction "remaining s" arbitrary: s rule: less_induct)
  case less
  note I = greach_ginv[OF less.prems(1)]
  show ?case
  proof (cases "probes s = Map.empty \<and> retiring s = Map.empty")
    case True
    then have "table_view (retiring s) (gk s) = gk s" by (simp add: table_view_def restrict_map_def)
    with core_okD(1)[OF ginvD(1)[OF I]] True show ?thesis by auto
  next
    case False
    then obtain ev s1 where s1: "gstep bkt ev s (Inr s1)" "admissible ev" "remaining s1 < remaining s" "buffers_ok s1"
      using someone_advances[OF I greach_threads[OF less.prems(1)] less.prems(2), of bkt] by (auto simp: advances_def)
    have "\<exists>ev. gstep bkt ev s (Inr s1) \<and> admissible ev" using s1(1,2) by blast
    from less.hyps[OF s1(3) greach.step[OF less.prems(1) s1(1,2)] s1(4)]
      converse_rtranclp_into_rtranclp[where r = "\<lambda>s s'. \<exists>ev. gstep bkt ev s (Inr s') \<and> admissible ev", OF this]
    show ?thesis by blast
  qed
qed

theorem deactivations_complete_witness:
  "\<exists>s'. gpath (\<lambda>_. 0) late_mount s' \<and> probes s' = Map.empty \<and> retiring s' = Map.empty \<and> tables_ok (gk s')"
  by (rule deactivations_complete[OF greach_late_mount]) (simp add: buffers_ok_def late_mount_def)

end
