(* ===== verification/Singlefilefs.thy ===== *)
theory Singlefilefs
  imports Bdsnap
begin

text \<open>
  The probes on the single-file file system, \<open>src/kernel/fs-support/singlefilefs.c\<close>, and their
  registration (\<open>fs-support.h\<close>): a hash table passes the block a thread read last from the
  \<open>__bread_gfp\<close> probe to the \<open>write_dirty_buffer\<close> probe, for the time of one \<open>vfs_write\<close>. Each probe is
  one step on the table and the kernel state of \<open>Bdsnap\<close>. The bucket of a key (\<open>xxh64\<close>) and the
  contents of fresh pages are arguments; a bucket is a list with the newest node first.
\<close>

section \<open>The table of threads\<close>

definition SINGLEFILEFS_MAGIC :: u64 where "SINGLEFILEFS_MAGIC = 0x42424242"

definition SINGLEFILEFS_BLOCK_SIZE :: nat where "SINGLEFILEFS_BLOCK_SIZE = 4096"

definition XKPBLOCKS_HASH_SIZE :: u32 where "XKPBLOCKS_HASH_SIZE = 2 ^ 18"

type_synonym xkpblocks_key = "u64 \<times> u64"

record xkpblocks_node =
  xkey :: xkpblocks_key
  xblock :: bytes
  xblocknum :: u64

record xkpblocks =
  xkpblocks_ht :: "nat \<Rightarrow> xkpblocks_node list"
  next_bktnr :: u32

definition search_threadentry ::
  "(xkpblocks_key \<Rightarrow> nat) \<Rightarrow> xkpblocks_key \<Rightarrow> xkpblocks \<Rightarrow> xkpblocks_node option" where
  "search_threadentry keyhash key x = find (\<lambda>n. xkey n = key) (xkpblocks_ht x (keyhash key))"

text \<open>Removing or changing the node a search returns: the first one with the key.\<close>

fun remove_first :: "xkpblocks_key \<Rightarrow> xkpblocks_node list \<Rightarrow> xkpblocks_node list" where
  "remove_first key [] = []"
| "remove_first key (n # ns) = (if xkey n = key then ns else n # remove_first key ns)"

fun update_first ::
  "xkpblocks_key \<Rightarrow> (xkpblocks_node \<Rightarrow> xkpblocks_node) \<Rightarrow> xkpblocks_node list \<Rightarrow> xkpblocks_node list" where
  "update_first key f [] = []"
| "update_first key f (n # ns) = (if xkey n = key then f n # ns else n # update_first key f ns)"

definition remove_threadentry :: "(xkpblocks_key \<Rightarrow> nat) \<Rightarrow> xkpblocks_key \<Rightarrow> xkpblocks \<Rightarrow> xkpblocks" where
  "remove_threadentry keyhash key x =
     x\<lparr>xkpblocks_ht := (xkpblocks_ht x)(keyhash key := remove_first key (xkpblocks_ht x (keyhash key)))\<rparr>"

definition cleanup_xkpblocks_ht :: "xkpblocks \<Rightarrow> xkpblocks" where
  "cleanup_xkpblocks_ht x = x\<lparr>xkpblocks_ht := (\<lambda>b. if b < unat XKPBLOCKS_HASH_SIZE then [] else xkpblocks_ht x b)\<rparr>"

text \<open>The tasks of the system: start time and exit state by thread id.\<close>

definition do_taskcheck_on :: "(u64 \<Rightarrow> (u64 \<times> int) option) \<Rightarrow> xkpblocks_key \<Rightarrow> bool" where
  "do_taskcheck_on tasks key =
     (case tasks (fst key) of
        None \<Rightarrow> False
      | Some (tstart, texited) \<Rightarrow> \<not> (tstart \<noteq> snd key \<or> texited \<noteq> 0))"

definition taskcheck_end :: "u32 \<Rightarrow> u32" where
  "taskcheck_end next = min (next + 50) XKPBLOCKS_HASH_SIZE"

definition taskcheck_next :: "u32 \<Rightarrow> u32" where
  "taskcheck_next next =
     (if taskcheck_end next < XKPBLOCKS_HASH_SIZE then next + taskcheck_end next else 0)"

definition periodic_taskcheck_xkpblocks_ht :: "(u64 \<Rightarrow> (u64 \<times> int) option) \<Rightarrow> xkpblocks \<Rightarrow> xkpblocks" where
  "periodic_taskcheck_xkpblocks_ht tasks x =
     x\<lparr>xkpblocks_ht := (\<lambda>b. if unat (next_bktnr x) \<le> b \<and> b < unat (taskcheck_end (next_bktnr x))
                            then filter (\<lambda>n. do_taskcheck_on tasks (xkey n)) (xkpblocks_ht x b)
                            else xkpblocks_ht x b),
       next_bktnr := taskcheck_next (next_bktnr x)\<rparr>"

section \<open>The probe handlers\<close>

record hostino = i_sb :: "super_block option"
record address_space = host :: "hostino option"
record xfile = f_mapping :: "address_space option"

definition file_sb :: "xfile option \<Rightarrow> super_block option" where
  "file_sb filp =
     (case filp of
        None \<Rightarrow> None
      | Some f \<Rightarrow>
          (case f_mapping f of
             None \<Rightarrow> None
           | Some mapping \<Rightarrow> (case host mapping of None \<Rightarrow> None | Some hostino \<Rightarrow> i_sb hostino)))"

text \<open>\<open>pages\<close> is the result of \<open>alloc_pages_exact\<close>: the contents of the block buffer, or NULL. The
  handler returns 1 to skip the call. The code leaves \<open>blocknum\<close> of a new entry uninitialised; here it is 0, and no
  function ever reads it.\<close>

definition vfs_write_entry_handler ::
  "(xkpblocks_key \<Rightarrow> nat) \<Rightarrow> bytes option \<Rightarrow> xkpblocks_key \<Rightarrow> xfile option \<Rightarrow> kstate \<Rightarrow> xkpblocks \<Rightarrow>
     fault + int \<times> xkpblocks" where
  "vfs_write_entry_handler keyhash pages key filp k x =
     (case file_sb filp of
        None \<Rightarrow> Inr (1, x)
      | Some sb \<Rightarrow>
          if s_magic sb \<noteq> SINGLEFILEFS_MAGIC then Inr (1, x)
          else (case s_bdev sb of
            None \<Rightarrow> Inr (1, x)
          | Some bdev \<Rightarrow>
              (case bdsnap_test_device bdev k of
                 Inl f \<Rightarrow> Inl f
               | Inr False \<Rightarrow> Inr (1, x)
               | Inr True \<Rightarrow>
                   (case pages of
                      None \<Rightarrow> Inr (1, x)
                    | Some buf \<Rightarrow>
                        Inr (0, x\<lparr>xkpblocks_ht := (xkpblocks_ht x)(keyhash key :=
                          \<lparr>xkey = key, xblock = buf, xblocknum = 0\<rparr> # xkpblocks_ht x (keyhash key))\<rparr>)))))"

definition vfs_write_handler :: "(xkpblocks_key \<Rightarrow> nat) \<Rightarrow> xkpblocks_key \<Rightarrow> xkpblocks \<Rightarrow> xkpblocks" where
  "vfs_write_handler keyhash key x =
     (case search_threadentry keyhash key x of None \<Rightarrow> x | Some cur \<Rightarrow> remove_threadentry keyhash key x)"

record buffer_head =
  b_data :: bytes
  b_size :: nat
  b_blocknr :: u64
  b_bdev :: "block_device option"

text \<open>\<open>bh\<close> is the value the probed \<open>__bread_gfp\<close> returned; \<open>memcpy\<close> writes into a buffer of
  \<open>SINGLEFILEFS_BLOCK_SIZE\<close> bytes.\<close>

definition sb_bread_handler ::
  "(xkpblocks_key \<Rightarrow> nat) \<Rightarrow> xkpblocks_key \<Rightarrow> buffer_head option \<Rightarrow> xkpblocks \<Rightarrow> fault + xkpblocks" where
  "sb_bread_handler keyhash key bh x =
     (case search_threadentry keyhash key x of
        None \<Rightarrow> Inr x
      | Some threntry \<Rightarrow>
          (case bh of
             None \<Rightarrow> Inl NullDeref
           | Some bh \<Rightarrow>
               if b_size bh > SINGLEFILEFS_BLOCK_SIZE then Inl OutOfBounds
               else Inr (x\<lparr>xkpblocks_ht := (xkpblocks_ht x)(keyhash key :=
                 update_first key (\<lambda>n. n\<lparr>xblock := take (b_size bh) (b_data bh) @ drop (b_size bh) (xblock n),
                                          xblocknum := b_blocknr bh\<rparr>)
                   (xkpblocks_ht x (keyhash key)))\<rparr>)))"

text \<open>The result of \<open>bdsnap_make_snapshot\<close> is ignored.\<close>

definition write_dirty_buffer_pre_handler ::
  "(xkpblocks_key \<Rightarrow> nat) \<Rightarrow> bd_env \<Rightarrow> xkpblocks_key \<Rightarrow> buffer_head \<Rightarrow> kstate \<Rightarrow> xkpblocks \<Rightarrow>
     fault + kstate" where
  "write_dirty_buffer_pre_handler keyhash env key bh k x =
     (case search_threadentry keyhash key x of
        None \<Rightarrow> Inr k
      | Some threntry \<Rightarrow>
          (case b_bdev bh of
             None \<Rightarrow> Inr k
           | Some bdev \<Rightarrow>
               if b_size bh \<noteq> SINGLEFILEFS_BLOCK_SIZE then Inl BugOn
               else (case bdsnap_search_device bdev k of
                 Inl f \<Rightarrow> Inl f
               | Inr handle \<Rightarrow>
                   (case bdsnap_make_snapshot env handle (xblock threntry) (b_blocknr bh)
                           (of_nat SINGLEFILEFS_BLOCK_SIZE) k of
                      Inl f \<Rightarrow> Inl f | Inr (ret, k') \<Rightarrow> Inr k'))))"

section \<open>Registration\<close>

record fs_probes =
  krps_registered :: bool
  kps_registered :: bool
  taskcheck_scheduled :: bool

definition register_fssupport_singlefilefs :: "int \<Rightarrow> int \<Rightarrow> fs_probes \<Rightarrow> int \<times> fs_probes" where
  "register_fssupport_singlefilefs krp_res kp_res p =
     (if krp_res \<noteq> 0 then (krp_res, p)
      else let p1 = p\<lparr>krps_registered := True\<rparr> in
        if kp_res \<noteq> 0 then (kp_res, p1\<lparr>krps_registered := False\<rparr>)
        else (0, p1\<lparr>kps_registered := True, taskcheck_scheduled := True\<rparr>))"

definition unregister_fssupport_singlefilefs :: "fs_probes \<times> xkpblocks \<Rightarrow> fs_probes \<times> xkpblocks" where
  "unregister_fssupport_singlefilefs s =
     (let (p, x) = s in
      (p\<lparr>krps_registered := False, kps_registered := False, taskcheck_scheduled := False\<rparr>, cleanup_xkpblocks_ht x))"

text \<open>\<open>setup_fssupport\<close> runs over the table of supported file systems; a call of the table is logged
  with its index. \<open>regi\<close> gives the result of the registration function of an index.\<close>

datatype fs_call = Regi nat | Unregi nat

fun setup_fssupport_from :: "(nat \<Rightarrow> int) \<Rightarrow> nat \<Rightarrow> nat \<Rightarrow> int \<times> fs_call list" where
  "setup_fssupport_from regi i 0 = (0, [])"
| "setup_fssupport_from regi i (Suc n) =
     (if regi i \<noteq> 0 then (1, Regi i # map (\<lambda>j. Unregi i) [0..<i])
      else let (rv, calls) = setup_fssupport_from regi (i + 1) n in (rv, Regi i # calls))"

definition setup_fssupport :: "(nat \<Rightarrow> int) \<Rightarrow> nat \<Rightarrow> int \<times> fs_call list" where
  "setup_fssupport regi num_supp_fs = setup_fssupport_from regi 0 num_supp_fs"

definition destroy_fssupport :: "nat \<Rightarrow> fs_call list" where
  "destroy_fssupport num_supp_fs = map Unregi [0..<num_supp_fs]"

section \<open>Entries\<close>

lemma find_update_first:
  assumes "\<And>n. xkey (f n) = xkey n"
  shows "find (\<lambda>n. xkey n = key') (update_first key f ns) =
    (if key' = key then map_option f (find (\<lambda>n. xkey n = key) ns) else find (\<lambda>n. xkey n = key') ns)"
  by (induction ns) (auto simp: assms)

lemma find_remove_first:
  "key' \<noteq> key \<Longrightarrow> find (\<lambda>n. xkey n = key') (remove_first key ns) = find (\<lambda>n. xkey n = key') ns"
  by (induction ns) auto

text \<open>What the read probe does to the table, when it does not fault.\<close>

definition record_read :: "(xkpblocks_key \<Rightarrow> nat) \<Rightarrow> xkpblocks_key \<Rightarrow> buffer_head \<Rightarrow> xkpblocks \<Rightarrow> xkpblocks" where
  "record_read keyhash key bh x =
     x\<lparr>xkpblocks_ht := (xkpblocks_ht x)(keyhash key :=
       update_first key (\<lambda>n. n\<lparr>xblock := take (b_size bh) (b_data bh) @ drop (b_size bh) (xblock n),
                                xblocknum := b_blocknr bh\<rparr>) (xkpblocks_ht x (keyhash key)))\<rparr>"

lemma search_record_read:
  "search_threadentry keyhash key' (record_read keyhash key bh x) =
    (if key' = key
     then map_option (\<lambda>n. n\<lparr>xblock := take (b_size bh) (b_data bh) @ drop (b_size bh) (xblock n), xblocknum := b_blocknr bh\<rparr>)
            (search_threadentry keyhash key x)
     else search_threadentry keyhash key' x)"
  by (simp add: search_threadentry_def record_read_def find_update_first)

lemma sb_bread_handler_entry:
  assumes "search_threadentry keyhash key x = Some n" "b_size bh \<le> SINGLEFILEFS_BLOCK_SIZE"
  shows "sb_bread_handler keyhash key (Some bh) x = Inr (record_read keyhash key bh x)"
  using assms by (simp add: sb_bread_handler_def record_read_def)

text \<open>threads do not see each other, even when their keys fall into one bucket: no probe that runs
  for one thread changes the entry another thread finds.\<close>

theorem probes_isolate_threads:
  assumes "key' \<noteq> key"
  shows "search_threadentry keyhash key' (vfs_write_handler keyhash key x) = search_threadentry keyhash key' x \<and>
    (\<forall>x'. sb_bread_handler keyhash key bh x = Inr x' \<longrightarrow>
      search_threadentry keyhash key' x' = search_threadentry keyhash key' x) \<and>
    (\<forall>rv x'. vfs_write_entry_handler keyhash pages key filp k x = Inr (rv, x') \<longrightarrow>
      search_threadentry keyhash key' x' = search_threadentry keyhash key' x)"
proof (intro conjI allI impI)
  show "search_threadentry keyhash key' (vfs_write_handler keyhash key x) = search_threadentry keyhash key' x"
    using assms by (simp add: vfs_write_handler_def remove_threadentry_def search_threadentry_def find_remove_first
        split: option.splits)
  show "search_threadentry keyhash key' x' = search_threadentry keyhash key' x"
    if "sb_bread_handler keyhash key bh x = Inr x'" for x'
    using that assms search_record_read[of keyhash key' key _ x]
    by (auto simp: sb_bread_handler_def record_read_def split: option.splits if_splits)
  show "search_threadentry keyhash key' x' = search_threadentry keyhash key' x"
    if "vfs_write_entry_handler keyhash pages key filp k x = Inr (rv, x')" for rv x'
    using that assms
    by (auto simp: vfs_write_entry_handler_def search_threadentry_def split: option.splits if_splits sum.splits bool.splits)
qed

definition no_threads :: xkpblocks where
  "no_threads = \<lparr>xkpblocks_ht = (\<lambda>_. []), next_bktnr = 0\<rparr>"

definition one_thread :: xkpblocks where
  "one_thread = no_threads\<lparr>xkpblocks_ht := (\<lambda>_. [])(0 := [\<lparr>xkey = (7, 1), xblock = replicate 4096 0, xblocknum = 0\<rparr>])\<rparr>"

theorem probes_isolate_threads_witness:
  "search_threadentry (\<lambda>_. 0) (7, 1) (vfs_write_handler (\<lambda>_. 0) (7, 2) one_thread) =
   Some \<lparr>xkey = (7, 1), xblock = replicate 4096 0, xblocknum = 0\<rparr>"
  using probes_isolate_threads[of "(7, 1)" "(7, 2)" "\<lambda>_. 0" one_thread]
  by (simp add: search_threadentry_def one_thread_def)

section \<open>One write\<close>

text \<open>What a thread does to buffers within one \<open>vfs_write\<close>, as the probes see it.\<close>

datatype fs_event = BRead buffer_head | BDirty buffer_head

fun run_session ::
  "(xkpblocks_key \<Rightarrow> nat) \<Rightarrow> bd_env \<Rightarrow> xkpblocks_key \<Rightarrow> fs_event list \<Rightarrow> kstate \<times> xkpblocks \<Rightarrow>
     fault + kstate \<times> xkpblocks" where
  "run_session keyhash env key [] s = Inr s"
| "run_session keyhash env key (BRead bh # evs) (k, x) =
     (case sb_bread_handler keyhash key (Some bh) x of
        Inl f \<Rightarrow> Inl f | Inr x' \<Rightarrow> run_session keyhash env key evs (k, x'))"
| "run_session keyhash env key (BDirty bh # evs) (k, x) =
     (case write_dirty_buffer_pre_handler keyhash env key bh k x of
        Inl f \<Rightarrow> Inl f | Inr k' \<Rightarrow> run_session keyhash env key evs (k', x))"

text \<open>The blocks such a sequence hands over: each dirtied block's number with the block read last.\<close>

fun captured_blocks :: "bytes \<Rightarrow> fs_event list \<Rightarrow> (u64 \<times> bytes) list" where
  "captured_blocks prev [] = []"
| "captured_blocks prev (BRead bh # evs) = captured_blocks (b_data bh) evs"
| "captured_blocks prev (BDirty bh # evs) = (b_blocknr bh, prev) # captured_blocks prev evs"

definition bh_ok :: "block_device \<Rightarrow> buffer_head \<Rightarrow> bool" where
  "bh_ok bdev bh \<longleftrightarrow> b_size bh = SINGLEFILEFS_BLOCK_SIZE \<and> length (b_data bh) = SINGLEFILEFS_BLOCK_SIZE \<and>
     b_bdev bh = Some bdev"

fun ev_ok :: "block_device \<Rightarrow> fs_event \<Rightarrow> bool" where
  "ev_ok bdev (BRead bh) = bh_ok bdev bh"
| "ev_ok bdev (BDirty bh) = bh_ok bdev bh"

text \<open>The work queued for a block of the device with object data \<open>data\<close> in epoch \<open>e\<close>.\<close>

definition snapshot_work :: "object_data \<Rightarrow> nat \<Rightarrow> string \<Rightarrow> u64 \<times> bytes \<Rightarrow> work" where
  "snapshot_work data e date b =
     SnapshotWork e \<lparr>block_nr = fst b, blocksize = SINGLEFILEFS_BLOCK_SIZE, block = snd b,
       msw_original_dev_name = strscpy (od_original_dev_name data) PATH_MAX, msw_first_mount_date = date\<rparr>"

definition device_open :: "block_device \<Rightarrow> nat \<Rightarrow> object_data \<Rightarrow> nat \<Rightarrow> epoch \<Rightarrow> nat \<Rightarrow> kstate \<Rightarrow> bool" where
  "device_open bdev oid data e ep w k \<longleftrightarrow>
     get_device_data_always (from_block_device_to_mountinfo bdev) k = Some oid \<and> objs k oid = Some data \<and>
     od_e data = Some e \<and> epochs k e = Some ep \<and> od_wq data = Some w \<and> \<not> wq_is_destroyed data \<and> wqs k w \<noteq> None"

lemma dirty_step:
  assumes "device_open bdev oid data e ep w k" "wqs k w = Some q" "bh_ok bdev bh"
    and "kmalloc_msw_ok env" "kmalloc_block_ok env"
    and "search_threadentry keyhash key x = Some n" "length (xblock n) = SINGLEFILEFS_BLOCK_SIZE"
  shows "write_dirty_buffer_pre_handler keyhash env key bh k x =
    Inr (k\<lparr>wqs := (wqs k)(w \<mapsto> q @ [snapshot_work data e (first_mount_date ep) (b_blocknr bh, xblock n)])\<rparr>)"
proof -
  have size: "unat (ucast (of_nat SINGLEFILEFS_BLOCK_SIZE :: u64) :: u32) = SINGLEFILEFS_BLOCK_SIZE"
    by (simp add: SINGLEFILEFS_BLOCK_SIZE_def)
  show ?thesis using assms
    by (simp add: write_dirty_buffer_pre_handler_def bh_ok_def bdsnap_search_device_def bdsnap_make_snapshot_def
        device_open_def queue_snapshot_work_open size snapshot_work_def)
qed

lemma session_captures:
  assumes "device_open bdev oid data e ep w k" "wqs k w = Some q"
    and "\<forall>ev \<in> set evs. ev_ok bdev ev" "kmalloc_msw_ok env" "kmalloc_block_ok env"
    and "search_threadentry keyhash key x = Some n" "length (xblock n) = SINGLEFILEFS_BLOCK_SIZE"
  shows "\<exists>x'. run_session keyhash env key evs (k, x) =
    Inr (k\<lparr>wqs := (wqs k)(w \<mapsto> q @ map (snapshot_work data e (first_mount_date ep)) (captured_blocks (xblock n) evs))\<rparr>, x')"
  using assms
proof (induction evs arbitrary: k x n q)
  case Nil
  then show ?case by (simp add: fun_upd_idem)
next
  case (Cons ev evs)
  show ?case
  proof (cases ev)
    case (BRead bh)
    let ?n = "n\<lparr>xblock := b_data bh, xblocknum := b_blocknr bh\<rparr>"
    from Cons.prems(3) BRead have bh: "bh_ok bdev bh" by simp
    have s: "search_threadentry keyhash key (record_read keyhash key bh x) = Some ?n"
      using Cons.prems(6,7) bh by (simp add: search_record_read bh_ok_def)
    have "\<exists>x'. run_session keyhash env key evs (k, record_read keyhash key bh x) =
      Inr (k\<lparr>wqs := (wqs k)(w \<mapsto> q @ map (snapshot_work data e (first_mount_date ep)) (captured_blocks (xblock ?n) evs))\<rparr>, x')"
      by (rule Cons.IH[OF Cons.prems(1,2) _ Cons.prems(4,5) s]) (use Cons.prems(3) bh in \<open>auto simp: bh_ok_def\<close>)
    moreover have "sb_bread_handler keyhash key (Some bh) x = Inr (record_read keyhash key bh x)"
      by (rule sb_bread_handler_entry[OF Cons.prems(6)]) (use bh in \<open>simp add: bh_ok_def\<close>)
    ultimately show ?thesis unfolding BRead by (simp del: fun_upd_apply)
  next
    case (BDirty bh)
    from Cons.prems(3) BDirty have bh: "bh_ok bdev bh" by simp
    let ?q = "q @ [snapshot_work data e (first_mount_date ep) (b_blocknr bh, xblock n)]"
    let ?k = "k\<lparr>wqs := (wqs k)(w \<mapsto> ?q)\<rparr>"
    have d: "write_dirty_buffer_pre_handler keyhash env key bh k x = Inr ?k"
      by (rule dirty_step[OF Cons.prems(1,2) bh Cons.prems(4-7)])
    have o: "device_open bdev oid data e ep w ?k"
      using Cons.prems(1) by (simp add: device_open_def get_device_data_always_def split: mountinfo.splits)
    have "\<exists>x'. run_session keyhash env key evs (?k, x) =
      Inr (?k\<lparr>wqs := (wqs ?k)(w \<mapsto> ?q @ map (snapshot_work data e (first_mount_date ep)) (captured_blocks (xblock n) evs))\<rparr>, x')"
      by (rule Cons.IH[OF o _ _ Cons.prems(4-7)]) (use Cons.prems(3) in simp_all)
    with d show ?thesis unfolding BDirty by (simp del: fun_upd_apply)
  qed
qed

text \<open>within one write of a thread whose entry exists, the probes queue one work per dirtied buffer,
  in order: its number with the contents of the buffer the thread read last, and nothing else; so a
  file system that dirties a buffer right after reading it hands over exactly the old contents.\<close>

theorem write_session_captures_last_read:
  assumes "device_open bdev oid data e ep w k" "wqs k w = Some q"
    and "\<forall>ev \<in> set evs. ev_ok bdev ev" "kmalloc_msw_ok env" "kmalloc_block_ok env"
    and "search_threadentry keyhash key x = Some n" "length (xblock n) = SINGLEFILEFS_BLOCK_SIZE"
  shows "\<exists>x'. run_session keyhash env key evs (k, x) =
    Inr (k\<lparr>wqs := (wqs k)(w \<mapsto> q @ map (snapshot_work data e (first_mount_date ep)) (captured_blocks (xblock n) evs))\<rparr>, x')"
  by (rule session_captures[OF assms])

definition sample_bh :: "u64 \<Rightarrow> u8 \<Rightarrow> buffer_head" where
  "sample_bh nr b = \<lparr>b_data = replicate 4096 b, b_size = 4096, b_blocknr = nr,
     b_bdev = Some \<lparr>bd_dev = 0x800001, bd_lo_file_name = []\<rparr>\<rparr>"

lemma mounted_device_open:
  "device_open \<lparr>bd_dev = 0x800001, bd_lo_file_name = []\<rparr> 1
     \<lparr>wq_is_destroyed = False, od_wq = Some 0, od_e = Some 2, od_original_dev_name = ''/dev/sda1''\<rparr> 2 sample_epoch 0 mounted_device"
  "wqs mounted_device 0 = Some []"
proof -
  have "from_block_device_to_mountinfo \<lparr>bd_dev = 0x800001, bd_lo_file_name = []\<rparr> = BlockDevice 0x800001"
    by (simp add: from_block_device_to_mountinfo_def devno_defs)
  then show "device_open \<lparr>bd_dev = 0x800001, bd_lo_file_name = []\<rparr> 1
     \<lparr>wq_is_destroyed = False, od_wq = Some 0, od_e = Some 2, od_original_dev_name = ''/dev/sda1''\<rparr> 2 sample_epoch 0 mounted_device"
    "wqs mounted_device 0 = Some []"
    by (simp_all add: device_open_def get_device_data_always_def mounted_device_def one_device_def new_device_def start_defs)
qed

theorem write_session_captures_last_read_witness:
  "\<exists>k' x'. run_session (\<lambda>_. 0) \<lparr>kmalloc_msw_ok = True, kmalloc_block_ok = True\<rparr> (7, 1)
      [BRead (sample_bh 0 1), BRead (sample_bh 2 5), BDirty (sample_bh 2 6)] (mounted_device, one_thread) = Inr (k', x') \<and>
    (\<exists>m. wqs k' 0 = Some [SnapshotWork 2 m] \<and> block_nr m = 2 \<and> block m = replicate 4096 5)"
proof -
  let ?bdev = "\<lparr>bd_dev = 0x800001, bd_lo_file_name = []\<rparr> :: block_device"
  let ?d = "\<lparr>wq_is_destroyed = False, od_wq = Some 0, od_e = Some 2, od_original_dev_name = ''/dev/sda1''\<rparr> :: object_data"
  let ?evs = "[BRead (sample_bh 0 1), BRead (sample_bh 2 5), BDirty (sample_bh 2 6)]"
  note o = mounted_device_open(1) and q = mounted_device_open(2)
  have ev: "\<forall>ev \<in> set ?evs. ev_ok ?bdev ev"
    by (simp add: bh_ok_def sample_bh_def SINGLEFILEFS_BLOCK_SIZE_def)
  have t: "search_threadentry (\<lambda>_. 0) (7, 1) one_thread = Some \<lparr>xkey = (7, 1), xblock = replicate 4096 0, xblocknum = 0\<rparr>"
    by (simp add: search_threadentry_def one_thread_def)
  obtain x' where "run_session (\<lambda>_. 0) \<lparr>kmalloc_msw_ok = True, kmalloc_block_ok = True\<rparr> (7, 1) ?evs (mounted_device, one_thread) =
    Inr (mounted_device\<lparr>wqs := (wqs mounted_device)(0 \<mapsto> [] @ map (snapshot_work ?d 2 (first_mount_date sample_epoch))
      (captured_blocks (replicate 4096 0) ?evs))\<rparr>, x')"
    using write_session_captures_last_read[OF o q ev _ _ t, of "\<lparr>kmalloc_msw_ok = True, kmalloc_block_ok = True\<rparr>"]
    by (auto simp: SINGLEFILEFS_BLOCK_SIZE_def)
  then show ?thesis by (simp add: snapshot_work_def) (simp add: sample_bh_def)
qed

text \<open>a read that fails inside a tracked write crashes: \<open>__bread_gfp\<close> returns NULL and the probe
  dereferences it; a buffer larger than the file system's block overruns the entry.\<close>

theorem sb_bread_handler_faults:
  assumes "search_threadentry keyhash key x = Some n"
  shows "sb_bread_handler keyhash key None x = Inl NullDeref \<and>
    (SINGLEFILEFS_BLOCK_SIZE < b_size bh \<longrightarrow> sb_bread_handler keyhash key (Some bh) x = Inl OutOfBounds)"
  using assms by (simp add: sb_bread_handler_def)

theorem sb_bread_handler_faults_witness: "sb_bread_handler (\<lambda>_. 0) (7, 1) None one_thread = Inl NullDeref"
  using sb_bread_handler_faults[of "\<lambda>_. 0" "(7, 1)" one_thread]
  by (simp add: search_threadentry_def one_thread_def)

section \<open>The periodic check\<close>

text \<open>The values \<open>next_bktnr\<close> takes.\<close>

definition taskcheck_starts :: "u32 list" where
  "taskcheck_starts = [0, 50, 150, 350, 750, 1550, 3150, 6350, 12750, 25550, 51150, 102350, 204750, 409550]"

lemma taskcheck_starts_closed: "next \<in> set taskcheck_starts \<Longrightarrow> taskcheck_next next \<in> set taskcheck_starts"
  by (auto simp: taskcheck_starts_def taskcheck_next_def taskcheck_end_def XKPBLOCKS_HASH_SIZE_def)

lemma taskcheck_starts_skip:
  "next \<in> set taskcheck_starts \<Longrightarrow> \<not> (unat next \<le> 100 \<and> 100 < unat (taskcheck_end next))"
  by (auto simp: taskcheck_starts_def taskcheck_end_def XKPBLOCKS_HASH_SIZE_def)

definition run_taskchecks :: "(u64 \<Rightarrow> (u64 \<times> int) option) \<Rightarrow> nat \<Rightarrow> xkpblocks \<Rightarrow> xkpblocks" where
  "run_taskchecks tasks n x = (periodic_taskcheck_xkpblocks_ht tasks ^^ n) x"

lemma run_taskchecks_skip:
  assumes "next_bktnr x \<in> set taskcheck_starts"
  shows "next_bktnr (run_taskchecks tasks n x) \<in> set taskcheck_starts \<and>
    xkpblocks_ht (run_taskchecks tasks n x) 100 = xkpblocks_ht x 100"
proof (induction n)
  case (Suc n)
  let ?x = "run_taskchecks tasks n x"
  have "\<not> (unat (next_bktnr ?x) \<le> 100 \<and> 100 < unat (taskcheck_end (next_bktnr ?x)))"
    using Suc by (intro taskcheck_starts_skip) simp
  then show ?case using Suc
    by (auto simp: run_taskchecks_def periodic_taskcheck_xkpblocks_ht_def intro: taskcheck_starts_closed)
qed (simp add: run_taskchecks_def assms)

text \<open>C40: one run of the periodic check removes exactly the entries of finished threads from the fifty
  buckets it starts at, but the next run starts at \<open>next_bktnr + end\<close> instead of \<open>end\<close>: bucket 100, for
  one, is never visited, however often the check runs, and entries of dead threads stay there.\<close>

theorem periodic_check_skips_buckets:
  assumes "next_bktnr x = 0"
  shows "(\<forall>b < 50. xkpblocks_ht (periodic_taskcheck_xkpblocks_ht tasks x) b =
      filter (\<lambda>n. do_taskcheck_on tasks (xkey n)) (xkpblocks_ht x b)) \<and>
    (\<forall>n. xkpblocks_ht ((periodic_taskcheck_xkpblocks_ht tasks ^^ n) x) 100 = xkpblocks_ht x 100)"
proof
  show "\<forall>b < 50. xkpblocks_ht (periodic_taskcheck_xkpblocks_ht tasks x) b =
      filter (\<lambda>n. do_taskcheck_on tasks (xkey n)) (xkpblocks_ht x b)"
    using assms by (simp add: periodic_taskcheck_xkpblocks_ht_def taskcheck_end_def XKPBLOCKS_HASH_SIZE_def)
  have "next_bktnr x \<in> set taskcheck_starts" by (simp add: assms taskcheck_starts_def)
  from run_taskchecks_skip[OF this]
  show "\<forall>n. xkpblocks_ht ((periodic_taskcheck_xkpblocks_ht tasks ^^ n) x) 100 = xkpblocks_ht x 100"
    by (simp add: run_taskchecks_def)
qed

theorem periodic_check_skips_buckets_witness:
  "xkpblocks_ht ((periodic_taskcheck_xkpblocks_ht (\<lambda>_. None) ^^ 1000) (no_threads\<lparr>xkpblocks_ht := (\<lambda>_. [])(100 :=
     [\<lparr>xkey = (7, 1), xblock = [], xblocknum = 0\<rparr>])\<rparr>)) 100 = [\<lparr>xkey = (7, 1), xblock = [], xblocknum = 0\<rparr>]"
  using periodic_check_skips_buckets[of "no_threads\<lparr>xkpblocks_ht := (\<lambda>_. [])(100 :=
     [\<lparr>xkey = (7, 1), xblock = [], xblocknum = 0\<rparr>])\<rparr>" "\<lambda>_. None"]
  by (simp add: no_threads_def)

section \<open>Registration is all or nothing\<close>

text \<open>registering the probes of the file system either installs all three and the periodic check, or
  returns the error with none installed, and unregistering undoes it and empties the table.\<close>

theorem register_fssupport_all_or_nothing:
  assumes "p = \<lparr>krps_registered = False, kps_registered = False, taskcheck_scheduled = False\<rparr>"
  shows "(case register_fssupport_singlefilefs krp_res kp_res p of (rv, p') \<Rightarrow>
      if rv = 0 then p' = \<lparr>krps_registered = True, kps_registered = True, taskcheck_scheduled = True\<rparr> \<and>
        fst (unregister_fssupport_singlefilefs (p', x)) = p
      else p' = p) \<and>
    (b < 2 ^ 18 \<longrightarrow> xkpblocks_ht (snd (unregister_fssupport_singlefilefs (p, x))) b = [])"
  using assms
  by (simp add: register_fssupport_singlefilefs_def unregister_fssupport_singlefilefs_def Let_def
      cleanup_xkpblocks_ht_def XKPBLOCKS_HASH_SIZE_def)

theorem register_fssupport_all_or_nothing_witness:
  "register_fssupport_singlefilefs 0 (- EINVAL) \<lparr>krps_registered = False, kps_registered = False, taskcheck_scheduled = False\<rparr> =
   (- EINVAL, \<lparr>krps_registered = False, kps_registered = False, taskcheck_scheduled = False\<rparr>)"
  using register_fssupport_all_or_nothing[OF refl, where krp_res = 0 and kp_res = "- EINVAL" and x = no_threads and b = 0]
  by (simp add: register_fssupport_singlefilefs_def Let_def)

text \<open>the rollback of \<open>setup_fssupport\<close> unregisters the file system that failed, once for each of the
  ones that had been registered, and none of those.\<close>

theorem setup_fssupport_rollback:
  assumes "\<forall>j < i. regi j = 0" "regi i \<noteq> 0" "i < n"
  shows "setup_fssupport regi n = (1, map Regi [0..<Suc i] @ replicate i (Unregi i))"
proof -
  have "setup_fssupport_from regi s m = (1, map Regi [s..<Suc i] @ replicate i (Unregi i))"
    if "s \<le> i" "i < s + m" for s m
    using that
  proof (induction m arbitrary: s)
    case (Suc m)
    show ?case
    proof (cases "s = i")
      case True
      then show ?thesis using assms(2) by (simp add: map_replicate_const)
    next
      case False
      with Suc.prems have "s < i" by simp
      with Suc assms(1) show ?thesis by (simp add: upt_rec[of s])
    qed
  qed simp
  from this[of 0 n] assms(3) show ?thesis by (simp add: setup_fssupport_def)
qed

theorem setup_fssupport_rollback_witness:
  "setup_fssupport (\<lambda>i. if i = 1 then - ENOMEM else 0) 2 = (1, [Regi 0, Regi 1, Unregi 1])"
  using setup_fssupport_rollback[of 1 "\<lambda>i. if i = 1 then - ENOMEM else 0" 2] by simp

end
