(* ===== verification/Threads.thy ===== *)
theory Threads
  imports Singlefilefs
begin

text \<open>
  The probes of \<open>Singlefilefs\<close> running for many threads at once (\<open>src/kernel/fs-support/singlefilefs.c\<close>).
  Every probe call is one step, and the calls of different threads come in any order. The hash table
  is a refinement of one stack of entries per thread, whatever the hash function is; and in any
  interleaving of the writes of several threads each thread hands over the blocks it would hand over
  alone.
\<close>

section \<open>Probe calls\<close>

datatype thread_call =
    WriteEntry xkpblocks_key "bytes option" "xfile option"
  | WriteReturn xkpblocks_key
  | BreadReturn xkpblocks_key "buffer_head option"
  | WriteDirty xkpblocks_key buffer_head

text \<open>The kretprobe of \<open>vfs_write\<close> calls its return handler only if the entry handler returned 0; the calls
  of a sequence are those that the kernel makes.\<close>

definition probe_step ::
  "(xkpblocks_key \<Rightarrow> nat) \<Rightarrow> bd_env \<Rightarrow> thread_call \<Rightarrow> kstate \<times> xkpblocks \<Rightarrow> fault + kstate \<times> xkpblocks" where
  "probe_step keyhash env c s =
     (let (k, x) = s in
      case c of
        WriteEntry key pages filp \<Rightarrow>
          (case vfs_write_entry_handler keyhash pages key filp k x of Inl f \<Rightarrow> Inl f | Inr (rv, x') \<Rightarrow> Inr (k, x'))
      | WriteReturn key \<Rightarrow> Inr (k, vfs_write_handler keyhash key x)
      | BreadReturn key bh \<Rightarrow> (case sb_bread_handler keyhash key bh x of Inl f \<Rightarrow> Inl f | Inr x' \<Rightarrow> Inr (k, x'))
      | WriteDirty key bh \<Rightarrow>
          (case write_dirty_buffer_pre_handler keyhash env key bh k x of Inl f \<Rightarrow> Inl f | Inr k' \<Rightarrow> Inr (k', x)))"

fun run_probes ::
  "(xkpblocks_key \<Rightarrow> nat) \<Rightarrow> bd_env \<Rightarrow> thread_call list \<Rightarrow> kstate \<times> xkpblocks \<Rightarrow> fault + kstate \<times> xkpblocks" where
  "run_probes keyhash env [] s = Inr s"
| "run_probes keyhash env (c # cs) s =
     (case probe_step keyhash env c s of Inl f \<Rightarrow> Inl f | Inr s' \<Rightarrow> run_probes keyhash env cs s')"

section \<open>The abstract probes\<close>

text \<open>Each thread has a stack: the contents of its innermost write first.\<close>

type_synonym stacks = "xkpblocks_key \<Rightarrow> (bytes \<times> u64) list"

definition stacks_of :: "(xkpblocks_key \<Rightarrow> nat) \<Rightarrow> xkpblocks \<Rightarrow> stacks" where
  "stacks_of keyhash x key =
     map (\<lambda>n. (xblock n, xblocknum n)) (filter (\<lambda>n. xkey n = key) (xkpblocks_ht x (keyhash key)))"

text \<open>Whether a write is on the file system and on a device that is being recorded.\<close>

definition write_watched :: "xfile option \<Rightarrow> kstate \<Rightarrow> fault + bool" where
  "write_watched filp k =
     (case file_sb filp of
        None \<Rightarrow> Inr False
      | Some sb \<Rightarrow>
          if s_magic sb \<noteq> SINGLEFILEFS_MAGIC then Inr False
          else (case s_bdev sb of None \<Rightarrow> Inr False | Some bdev \<Rightarrow> bdsnap_test_device bdev k))"

definition spec_step :: "bd_env \<Rightarrow> thread_call \<Rightarrow> kstate \<times> stacks \<Rightarrow> fault + kstate \<times> stacks" where
  "spec_step env c s =
     (let (k, m) = s in
      case c of
        WriteEntry key pages filp \<Rightarrow>
          (case write_watched filp k of
             Inl f \<Rightarrow> Inl f
           | Inr tracked \<Rightarrow>
               (case pages of
                  Some buf \<Rightarrow> Inr (k, if tracked then m(key := (buf, 0) # m key) else m)
                | None \<Rightarrow> Inr (k, m)))
      | WriteReturn key \<Rightarrow> Inr (k, m(key := tl (m key)))
      | BreadReturn key bh \<Rightarrow>
          (case m key of
             [] \<Rightarrow> Inr (k, m)
           | (blk, nr) # rest \<Rightarrow>
               (case bh of
                  None \<Rightarrow> Inl NullDeref
                | Some bh \<Rightarrow>
                    if b_size bh > SINGLEFILEFS_BLOCK_SIZE then Inl OutOfBounds
                    else Inr (k, m(key := (take (b_size bh) (b_data bh) @ drop (b_size bh) blk, b_blocknr bh) # rest))))
      | WriteDirty key bh \<Rightarrow>
          (case m key of
             [] \<Rightarrow> Inr (k, m)
           | (blk, nr) # rest \<Rightarrow>
               (case b_bdev bh of
                  None \<Rightarrow> Inr (k, m)
                | Some bdev \<Rightarrow>
                    if b_size bh \<noteq> SINGLEFILEFS_BLOCK_SIZE then Inl BugOn
                    else (case capture_block env bdev blk (b_blocknr bh) (of_nat SINGLEFILEFS_BLOCK_SIZE) k of
                        Inl f \<Rightarrow> Inl f | Inr (ret, k') \<Rightarrow> Inr (k', m)))))"

fun run_spec :: "bd_env \<Rightarrow> thread_call list \<Rightarrow> kstate \<times> stacks \<Rightarrow> fault + kstate \<times> stacks" where
  "run_spec env [] s = Inr s"
| "run_spec env (c # cs) s = (case spec_step env c s of Inl f \<Rightarrow> Inl f | Inr s' \<Rightarrow> run_spec env cs s')"

section \<open>The table refines the stacks\<close>

lemma find_filter: "find P xs = (case filter P xs of [] \<Rightarrow> None | y # ys \<Rightarrow> Some y)"
  by (induction xs) auto

lemma filter_remove_first:
  "filter (\<lambda>n. xkey n = key') (remove_first key ns) =
    (if key' = key then tl (filter (\<lambda>n. xkey n = key) ns) else filter (\<lambda>n. xkey n = key') ns)"
  by (induction ns) auto

lemma filter_update_first:
  assumes "\<And>n. xkey (f n) = xkey n"
  shows "filter (\<lambda>n. xkey n = key') (update_first key f ns) =
    (if key' = key then (case filter (\<lambda>n. xkey n = key) ns of [] \<Rightarrow> [] | n # rest \<Rightarrow> f n # rest)
     else filter (\<lambda>n. xkey n = key') ns)"
  by (induction ns) (auto simp: assms)

lemma search_stacks:
  "search_threadentry keyhash key x =
    (case filter (\<lambda>n. xkey n = key) (xkpblocks_ht x (keyhash key)) of [] \<Rightarrow> None | n # rest \<Rightarrow> Some n)"
  by (simp add: search_threadentry_def find_filter)

text \<open>The table operations on the stacks: a new node, the removal and the change of the first node of a key.\<close>

lemma stacks_push:
  "stacks_of keyhash (x\<lparr>xkpblocks_ht := (xkpblocks_ht x)(keyhash key := \<lparr>xkey = key, xblock = b, xblocknum = nr\<rparr> #
      xkpblocks_ht x (keyhash key))\<rparr>) = (stacks_of keyhash x)(key := (b, nr) # stacks_of keyhash x key)"
  by (auto simp: stacks_of_def fun_eq_iff)

lemma stacks_pop:
  "stacks_of keyhash (vfs_write_handler keyhash key x) = (stacks_of keyhash x)(key := tl (stacks_of keyhash x key))"
  by (auto simp: vfs_write_handler_def remove_threadentry_def stacks_of_def fun_eq_iff filter_remove_first map_tl
      search_stacks split: list.splits)

lemma stacks_read:
  "stacks_of keyhash (record_read keyhash key bh x) =
    (case stacks_of keyhash x key of
       [] \<Rightarrow> stacks_of keyhash x
     | (blk, nr) # rest \<Rightarrow> (stacks_of keyhash x)(key := (take (b_size bh) (b_data bh) @ drop (b_size bh) blk, b_blocknr bh) # rest))"
  by (auto simp: record_read_def stacks_of_def fun_eq_iff filter_update_first split: list.splits)

lemma probe_step_refines:
  "map_sum id (\<lambda>(k, x). (k, stacks_of keyhash x)) (probe_step keyhash env c (k, x)) = spec_step env c (k, stacks_of keyhash x)"
proof (cases c)
  case (WriteEntry key pages filp)
  then show ?thesis
    by (auto simp: probe_step_def spec_step_def vfs_write_entry_handler_def write_watched_def stacks_push
        split: option.splits sum.splits bool.splits)
next
  case (WriteReturn key)
  then show ?thesis by (simp add: probe_step_def spec_step_def stacks_pop)
next
  case (BreadReturn key bh)
  show ?thesis
  proof (cases "filter (\<lambda>n. xkey n = key) (xkpblocks_ht x (keyhash key))")
    case Nil
    then show ?thesis using BreadReturn
      by (simp add: probe_step_def spec_step_def sb_bread_handler_def search_stacks stacks_of_def[of _ _ key])
  next
    case (Cons n rest)
    have "stacks_of keyhash x key = (xblock n, xblocknum n) # map (\<lambda>n. (xblock n, xblocknum n)) rest"
      using Cons by (simp add: stacks_of_def)
    moreover have "search_threadentry keyhash key x = Some n" using Cons by (simp add: search_stacks)
    ultimately show ?thesis using BreadReturn
      by (auto simp: probe_step_def spec_step_def sb_bread_handler_def stacks_read[unfolded record_read_def] split: option.splits)
  qed
next
  case (WriteDirty key bh)
  show ?thesis
  proof (cases "filter (\<lambda>n. xkey n = key) (xkpblocks_ht x (keyhash key))")
    case Nil
    then show ?thesis using WriteDirty
      by (simp add: probe_step_def spec_step_def write_dirty_buffer_pre_handler_def search_stacks stacks_of_def[of _ _ key])
  next
    case (Cons n rest)
    have "stacks_of keyhash x key = (xblock n, xblocknum n) # map (\<lambda>n. (xblock n, xblocknum n)) rest"
      using Cons by (simp add: stacks_of_def)
    moreover have "search_threadentry keyhash key x = Some n" using Cons by (simp add: search_stacks)
    ultimately show ?thesis using WriteDirty
      by (auto simp: probe_step_def spec_step_def write_dirty_buffer_pre_handler_def capture_block_def
          split: option.splits sum.splits prod.splits)
  qed
qed

text \<open>C8: for every sequence of probe calls of any threads, and for every hash function, the probes and the
  abstract probes on one stack of entries per thread have the same faults, the same effects on the
  module, and the same entries: neither the buckets nor the other threads show.\<close>

theorem probes_refine_stacks:
  "map_sum id (\<lambda>(k, x). (k, stacks_of keyhash x)) (run_probes keyhash env cs (k, x)) = run_spec env cs (k, stacks_of keyhash x)"
proof (induction cs arbitrary: k x)
  case (Cons c cs)
  show ?case
  proof (cases "probe_step keyhash env c (k, x)")
    case (Inl f)
    then have "spec_step env c (k, stacks_of keyhash x) = Inl f"
      using probe_step_refines[of keyhash env c k x] by simp
    with Inl show ?thesis by simp
  next
    case (Inr s)
    obtain k' x' where s: "s = (k', x')" by (cases s)
    have "spec_step env c (k, stacks_of keyhash x) = Inr (k', stacks_of keyhash x')"
      using probe_step_refines[of keyhash env c k x] Inr s by simp
    with Inr s Cons.IH show ?thesis by simp
  qed
qed simp


section \<open>Interleaved writes\<close>

text \<open>The buffer events of several threads inside tracked writes, in the order in which they happen.\<close>

definition call_of :: "xkpblocks_key \<times> fs_event \<Rightarrow> thread_call" where
  "call_of e = (case snd e of BRead bh \<Rightarrow> BreadReturn (fst e) (Some bh) | BDirty bh \<Rightarrow> WriteDirty (fst e) bh)"

text \<open>The blocks handed over, with the thread that hands them over.\<close>

fun captured_by :: "(xkpblocks_key \<Rightarrow> bytes) \<Rightarrow> (xkpblocks_key \<times> fs_event) list \<Rightarrow> (xkpblocks_key \<times> u64 \<times> bytes) list" where
  "captured_by seen [] = []"
| "captured_by seen ((key, BRead bh) # es) = captured_by (seen(key := b_data bh)) es"
| "captured_by seen ((key, BDirty bh) # es) = (key, b_blocknr bh, seen key) # captured_by seen es"

definition events_of :: "xkpblocks_key \<Rightarrow> (xkpblocks_key \<times> fs_event) list \<Rightarrow> fs_event list" where
  "events_of key es = map snd (filter (\<lambda>e. fst e = key) es)"

text \<open>Every thread hands over what it would hand over alone.\<close>

lemma captured_by_thread:
  "map snd (filter (\<lambda>c. fst c = key) (captured_by seen es)) = captured_blocks (seen key) (events_of key es)"
  by (induction seen es rule: captured_by.induct) (auto simp: events_of_def fun_upd_same fun_upd_other simp del: fun_upd_apply)

lemma stacks_of_search:
  "stacks_of keyhash x key = (blk, nr) # rest \<Longrightarrow>
    \<exists>n. search_threadentry keyhash key x = Some n \<and> xblock n = blk"
  by (auto simp: stacks_of_def search_stacks split: list.splits)

lemma interleaved_run:
  assumes "device_open bdev oid data e ep w k" "wqs k w = Some q" "kmalloc_msw_ok env" "kmalloc_block_ok env"
    and "\<forall>(key, ev) \<in> set es. ev_ok bdev ev"
    and "\<forall>(key, ev) \<in> set es. \<exists>nr rest. stacks_of keyhash x key = (seen key, nr) # rest \<and> length (seen key) = SINGLEFILEFS_BLOCK_SIZE"
  shows "\<exists>x'. run_probes keyhash env (map call_of es) (k, x) =
    Inr (k\<lparr>wqs := (wqs k)(w \<mapsto> q @ map (snapshot_work data e (first_mount_date ep) \<circ> snd) (captured_by seen es))\<rparr>, x')"
  using assms
proof (induction seen es arbitrary: k x q rule: captured_by.induct)
  case (1 seen)
  then show ?case by (simp add: fun_upd_idem)
next
  case (2 seen key bh es)
  from 2(6) have bh: "b_size bh = SINGLEFILEFS_BLOCK_SIZE" "length (b_data bh) = SINGLEFILEFS_BLOCK_SIZE" by (auto simp: bh_ok_def)
  from 2(7) obtain nr rest where st: "stacks_of keyhash x key = (seen key, nr) # rest" "length (seen key) = SINGLEFILEFS_BLOCK_SIZE" by auto
  let ?x = "record_read keyhash key bh x"
  obtain n where "search_threadentry keyhash key x = Some n" using stacks_of_search[OF st(1)] by blast
  then have step: "probe_step keyhash env (call_of (key, BRead bh)) (k, x) = Inr (k, ?x)"
    using sb_bread_handler_entry[of keyhash key x n bh] bh by (simp add: probe_step_def call_of_def)
  have sx: "stacks_of keyhash ?x = (stacks_of keyhash x)(key := (b_data bh, b_blocknr bh) # rest)"
    using st bh by (simp add: stacks_read)
  have "\<exists>x'. run_probes keyhash env (map call_of es) (k, ?x) =
    Inr (k\<lparr>wqs := (wqs k)(w \<mapsto> q @ map (snapshot_work data e (first_mount_date ep) \<circ> snd) (captured_by (seen(key := b_data bh)) es))\<rparr>, x')"
    by (rule 2(1)[OF 2(2-5)]) (use 2(6,7) bh in \<open>auto simp: sx\<close>)
  then show ?case using step by (simp add: comp_def del: fun_upd_apply)
next
  case (3 seen key bh es)
  from 3(6) have bh: "bh_ok bdev bh" by auto
  from 3(7) obtain nr rest where st: "stacks_of keyhash x key = (seen key, nr) # rest" "length (seen key) = SINGLEFILEFS_BLOCK_SIZE" by auto
  obtain n where n: "search_threadentry keyhash key x = Some n" "xblock n = seen key" using stacks_of_search[OF st(1)] by blast
  let ?q = "q @ [snapshot_work data e (first_mount_date ep) (b_blocknr bh, seen key)]"
  let ?k = "k\<lparr>wqs := (wqs k)(w \<mapsto> ?q)\<rparr>"
  have step: "probe_step keyhash env (call_of (key, BDirty bh)) (k, x) = Inr (?k, x)"
    using dirty_step[OF 3(2,3) bh 3(4,5) n(1)] n(2) st(2) by (simp add: probe_step_def call_of_def)
  have o: "device_open bdev oid data e ep w ?k"
    using 3(2) by (simp add: device_open_def get_device_data_always_def split: mountinfo.splits)
  have "\<exists>x'. run_probes keyhash env (map call_of es) (?k, x) =
    Inr (?k\<lparr>wqs := (wqs ?k)(w \<mapsto> ?q @ map (snapshot_work data e (first_mount_date ep) \<circ> snd) (captured_by seen es))\<rparr>, x')"
    by (rule 3(1)[OF o _ 3(4,5)]) (use 3(6,7) in auto)
  then show ?case using step by (simp add: comp_def del: fun_upd_apply)
qed

text \<open>C9: when several threads write through the file system at the same time, then in any interleaving of
  their reads and dirtied buffers the probes queue one work per dirtied buffer, in that order, and the
  works of each thread are exactly those its own sequence of events gives: each dirtied block with
  the buffer that the same thread read last.\<close>

theorem interleaved_writes_capture:
  assumes "device_open bdev oid data e ep w k" "wqs k w = Some q" "kmalloc_msw_ok env" "kmalloc_block_ok env"
    and "\<forall>(key, ev) \<in> set es. ev_ok bdev ev"
    and "\<forall>(key, ev) \<in> set es. \<exists>nr rest. stacks_of keyhash x key = (seen key, nr) # rest \<and> length (seen key) = SINGLEFILEFS_BLOCK_SIZE"
  shows "(\<exists>x'. run_probes keyhash env (map call_of es) (k, x) = Inr (k\<lparr>wqs := (wqs k)(w \<mapsto>
      q @ map (snapshot_work data e (first_mount_date ep) \<circ> snd) (captured_by seen es))\<rparr>, x')) \<and>
    (\<forall>key. map snd (filter (\<lambda>c. fst c = key) (captured_by seen es)) = captured_blocks (seen key) (events_of key es))"
  using interleaved_run[OF assms] captured_by_thread by blast

text \<open>Two threads in one bucket; each writes one block, and their reads overlap.\<close>

definition two_threads :: xkpblocks where
  "two_threads = no_threads\<lparr>xkpblocks_ht := (\<lambda>_. [])(0 :=
     [\<lparr>xkey = (7, 1), xblock = replicate 4096 0, xblocknum = 0\<rparr>, \<lparr>xkey = (8, 1), xblock = replicate 4096 0, xblocknum = 0\<rparr>])\<rparr>"

theorem interleaved_writes_capture_witness:
  "\<exists>k' x' m m'. run_probes (\<lambda>_. 0) \<lparr>kmalloc_msw_ok = True, kmalloc_block_ok = True\<rparr>
      (map call_of [((7, 1), BRead (sample_bh 2 5)), ((8, 1), BRead (sample_bh 3 9)),
         ((7, 1), BDirty (sample_bh 2 6)), ((8, 1), BDirty (sample_bh 3 6))]) (mounted_device, two_threads) = Inr (k', x') \<and>
    wqs k' 0 = Some [SnapshotWork 2 m, SnapshotWork 2 m'] \<and>
    block_nr m = 2 \<and> block m = replicate 4096 5 \<and> block_nr m' = 3 \<and> block m' = replicate 4096 9"
proof -
  let ?bdev = "\<lparr>bd_dev = 0x800001, bd_lo_file_name = []\<rparr> :: block_device"
  let ?d = "\<lparr>wq_is_destroyed = False, od_wq = Some 0, od_e = Some 2, od_original_dev_name = ''/dev/sda1''\<rparr> :: object_data"
  let ?es = "[((7, 1), BRead (sample_bh 2 5)), ((8, 1), BRead (sample_bh 3 9)),
         ((7, 1), BDirty (sample_bh 2 6)), ((8, 1), BDirty (sample_bh 3 6))] :: (xkpblocks_key \<times> fs_event) list"
  let ?seen = "\<lambda>_ :: xkpblocks_key. replicate SINGLEFILEFS_BLOCK_SIZE 0 :: bytes"
  have o: "device_open ?bdev 1 ?d 2 sample_epoch 0 mounted_device" and q: "wqs mounted_device 0 = Some []"
    by (rule mounted_device_open)+
  have ev: "\<forall>(key, ev) \<in> set ?es. ev_ok ?bdev ev"
    by (simp add: bh_ok_def sample_bh_def SINGLEFILEFS_BLOCK_SIZE_def)
  have st: "\<forall>(key, ev) \<in> set ?es. \<exists>nr rest. stacks_of (\<lambda>_. 0) two_threads key = (?seen key, nr) # rest \<and>
      length (?seen key) = SINGLEFILEFS_BLOCK_SIZE"
    by (simp add: stacks_of_def two_threads_def SINGLEFILEFS_BLOCK_SIZE_def)
  obtain x' where "run_probes (\<lambda>_. 0) \<lparr>kmalloc_msw_ok = True, kmalloc_block_ok = True\<rparr> (map call_of ?es) (mounted_device, two_threads) =
      Inr (mounted_device\<lparr>wqs := (wqs mounted_device)(0 \<mapsto> [] @ map (snapshot_work ?d 2 (first_mount_date sample_epoch) \<circ> snd)
        (captured_by ?seen ?es))\<rparr>, x')"
    using interleaved_writes_capture[OF o q _ _ ev st, of "\<lparr>kmalloc_msw_ok = True, kmalloc_block_ok = True\<rparr>"] by auto
  then show ?thesis by (simp add: snapshot_work_def) (simp add: sample_bh_def)
qed

section \<open>Keys of tasks\<close>

text \<open>A key is the thread's number, sign-extended, and its start time; \<open>xxh64\<close> is applied to the 16 bytes of the
  key, and \<open>hash_bits\<close> of the kernel picks the bucket.\<close>

definition DEFINE_XKPBLOCKS_KEY :: "u32 \<Rightarrow> u64 \<Rightarrow> xkpblocks_key" where
  "DEFINE_XKPBLOCKS_KEY tid tstart = (scast tid, tstart)"

definition keyhashit :: "(bytes \<Rightarrow> u64 \<Rightarrow> u64) \<Rightarrow> xkpblocks_key \<Rightarrow> u64" where
  "keyhashit xxh64 key = xxh64 (u64_bytes (fst key) @ u64_bytes (snd key)) 0x123456789a9b9c9d"

lemma scast_u32_inj: "(scast t :: u64) = scast t' \<longleftrightarrow> t = (t' :: u32)"
proof
  have low: "(ucast (scast u :: u64) :: u32) = u" for u :: u32
  proof (rule bit_word_eqI)
    fix n assume n: "n < LENGTH(32)"
    show "bit (ucast (scast u :: u64) :: u32) n = bit u n"
    proof (cases "n = 31")
      case True
      show ?thesis unfolding True by (simp add: bit_simps)
    next
      case False
      with n have "n < 31" by simp
      then show ?thesis by (simp add: bit_simps)
    qed
  qed
  assume "(scast t :: u64) = scast t'"
  then show "t = t'" by (metis low)
qed simp

text \<open>Different threads, and a thread that has got the number of an older one, have different keys, and so
  separate entries, whatever their hashes are.\<close>

lemma task_entries_separate:
  assumes "(tid, tstart) \<noteq> (tid', tstart')"
  shows "stacks_of (\<lambda>key. hash_bits (keyhashit xxh64 key))
      (vfs_write_handler (\<lambda>key. hash_bits (keyhashit xxh64 key)) (DEFINE_XKPBLOCKS_KEY tid tstart) x)
      (DEFINE_XKPBLOCKS_KEY tid' tstart') =
    stacks_of (\<lambda>key. hash_bits (keyhashit xxh64 key)) x (DEFINE_XKPBLOCKS_KEY tid' tstart')"
  using assms by (auto simp: stacks_pop DEFINE_XKPBLOCKS_KEY_def scast_u32_inj)

end
