(* ===== verification/Loopdev.thy ===== *)
theory Loopdev
  imports Devices
begin

text \<open>
  Where the name of the backing file is read from (\<open>src/kernel/include/get-loop-backing-file.h\<close>). The loop
  driver keeps its structure private, so the header copies its first fields, in the variant of the
  kernel it is compiled for, and \<open>get_loop_backing_file\<close> reads the name at the offset the compiler gives
  that copy. \<open>Devices\<close> takes the name as a part of the block device; here the bytes of the driver's
  object are explicit, and the two agree when the driver has the name at the offset computed here.
\<close>

section \<open>Layout of structures\<close>

text \<open>The C types of the fields; \<open>ptr_size\<close> and the alignment of \<open>loff_t\<close> depend on the machine.\<close>

datatype cfield = CInt | CAtomic | CLoff | CPtr | CChars nat

record abi =
  ptr_size :: nat
  loff_align :: nat

definition x86_64 :: abi where "x86_64 = \<lparr>ptr_size = 8, loff_align = 8\<rparr>"
definition i386 :: abi where "i386 = \<lparr>ptr_size = 4, loff_align = 4\<rparr>"

fun field_size :: "abi \<Rightarrow> cfield \<Rightarrow> nat" where
  "field_size m CInt = 4"
| "field_size m CAtomic = 4"
| "field_size m CLoff = 8"
| "field_size m CPtr = ptr_size m"
| "field_size m (CChars n) = n"

fun field_align :: "abi \<Rightarrow> cfield \<Rightarrow> nat" where
  "field_align m CInt = 4"
| "field_align m CAtomic = 4"
| "field_align m CLoff = loff_align m"
| "field_align m CPtr = ptr_size m"
| "field_align m (CChars n) = 1"

definition align_up :: "nat \<Rightarrow> nat \<Rightarrow> nat" where
  "align_up a n = (n + (a - 1)) div a * a"

text \<open>The offsets of the fields of a structure whose first free byte is \<open>pos\<close>.\<close>

fun place :: "abi \<Rightarrow> nat \<Rightarrow> cfield list \<Rightarrow> nat list" where
  "place m pos [] = []"
| "place m pos (f # fs) =
     (let at = align_up (field_align m f) pos in at # place m (at + field_size m f) fs)"

section \<open>The header\<close>

definition KERNEL_VERSION :: "nat \<Rightarrow> nat \<Rightarrow> nat \<Rightarrow> nat" where
  "KERNEL_VERSION a b c = a * 65536 + b * 256 + min c 255"

text \<open>\<open>struct __my_loop_device\<close>; with an unknown kernel the header does not compile.\<close>

definition my_loop_device :: "nat \<Rightarrow> cfield list option" where
  "my_loop_device version =
     (if version < KERNEL_VERSION 2 5 74 then None
      else if KERNEL_VERSION 5 19 0 \<le> version then
        Some [CInt, CLoff, CLoff, CInt, CChars MY_LO_NAME_SIZE]
      else if KERNEL_VERSION 5 16 0 \<le> version \<and> version < KERNEL_VERSION 5 19 0 then
        Some [CInt, CAtomic, CLoff, CLoff, CInt, CChars MY_LO_NAME_SIZE]
      else if KERNEL_VERSION 4 2 0 \<le> version \<and> version < KERNEL_VERSION 5 16 0 then
        Some [CInt, CAtomic, CLoff, CLoff, CInt, CPtr, CChars MY_LO_NAME_SIZE]
      else
        Some [CInt, CInt, CLoff, CLoff, CInt, CPtr, CChars MY_LO_NAME_SIZE])"

text \<open>The macro: \<open>lo_file_name\<close>, the last field, of the object \<open>private_data\<close> points to. The object ends with
  the bytes that are there.\<close>

definition lo_file_name_at :: "abi \<Rightarrow> nat \<Rightarrow> nat option" where
  "lo_file_name_at m version = map_option (\<lambda>fs. last (place m 0 fs)) (my_loop_device version)"

definition read_lo_file_name :: "abi \<Rightarrow> nat \<Rightarrow> bytes \<Rightarrow> fault + string" where
  "read_lo_file_name m version private_data =
     (case lo_file_name_at m version of
        None \<Rightarrow> Inl OutOfBounds
      | Some off \<Rightarrow>
          if length private_data < off + MY_LO_NAME_SIZE then Inl OutOfBounds
          else Inr (map (\<lambda>b. char_of (unat b)) (take MY_LO_NAME_SIZE (drop off private_data))))"

text \<open>\<open>from_block_device_to_mountinfo\<close> on the bytes; \<open>strscpy\<close> stops at a NUL.\<close>

definition mountinfo_of_bytes :: "abi \<Rightarrow> nat \<Rightarrow> u32 \<Rightarrow> bytes \<Rightarrow> fault + mountinfo" where
  "mountinfo_of_bytes m version dev private_data =
     (if MAJOR dev = LOOP_MAJOR
      then map_sum id (\<lambda>buf. LoopDevice (strscpy (cstr buf) MY_LO_NAME_SIZE)) (read_lo_file_name m version private_data)
      else Inr (BlockDevice dev))"

section \<open>The offsets\<close>

text \<open>The structures before and after 5.19 differ in a field that on a 64-bit machine fits into the padding, so the
  name has the same place; on a 32-bit machine it moves.\<close>

lemma loop_name_offsets:
  "lo_file_name_at x86_64 version =
     (if version < KERNEL_VERSION 2 5 74 then None else Some (if KERNEL_VERSION 5 16 0 \<le> version then 28 else 40))"
  "lo_file_name_at i386 version =
     (if version < KERNEL_VERSION 2 5 74 then None
      else Some (if KERNEL_VERSION 5 19 0 \<le> version then 24 else if KERNEL_VERSION 5 16 0 \<le> version then 28 else 32))"
  by (auto simp: lo_file_name_at_def my_loop_device_def KERNEL_VERSION_def x86_64_def i386_def align_up_def Let_def)

section \<open>Properties\<close>

lemma cstr_of_bytes:
  assumes "is_cstr name"
  shows "cstr (map (\<lambda>b. char_of (unat b)) (map of_char name @ (0 :: u8) # rest)) = name"
proof -
  have "char_of (unat (of_char c :: u8)) = c" for c
  proof -
    have "unat (of_char c :: u8) = of_char c"
      using unat_of_nat[of "of_char c", where ?'a = 8] of_char_mod_256[of c, where ?'a = nat]
      by (simp only: of_nat_of_char) simp
    then show ?thesis by simp
  qed
  moreover have "char_of (unat (0 :: u8)) = NUL" by (simp add: NUL_def char_of_def)
  ultimately show ?thesis using assms by (simp add: comp_def)
qed

text \<open>C23: where the name is read, in numbers: on every supported kernel the probes read it at byte 28 of the driver's
  object on x86-64, or 40 before 5.16, and on i386 at byte 24, or 28 before 5.19 and 32 before 5.16. When the driver
  keeps its name there, the key of a mount is the one the rest of the module expects, whatever the other bytes of
  the object are; an object that ends before the 64 bytes of the name is read past its end.\<close>

theorem loop_name_read_back:
  assumes "KERNEL_VERSION 2 5 74 \<le> version"
    and "m = x86_64 \<and> off = (if KERNEL_VERSION 5 16 0 \<le> version then 28 else 40) \<or>
      m = i386 \<and> off = (if KERNEL_VERSION 5 19 0 \<le> version then 24 else if KERNEL_VERSION 5 16 0 \<le> version then 28 else 32)"
    and "take 64 (drop off private_data) = map of_char (bd_lo_file_name bdev) @ 0 # rest" "is_cstr (bd_lo_file_name bdev)"
  shows "mountinfo_of_bytes m version (bd_dev bdev) private_data =
    (if MAJOR (bd_dev bdev) = LOOP_MAJOR \<and> length private_data < off + 64 then Inl OutOfBounds
     else Inr (from_block_device_to_mountinfo bdev))"
proof -
  have "lo_file_name_at m version = Some off" using assms(1,2) by (auto simp: loop_name_offsets)
  then show ?thesis using assms(3) cstr_of_bytes[OF assms(4), of rest]
    by (simp add: mountinfo_of_bytes_def read_lo_file_name_def from_block_device_to_mountinfo_def get_loop_backing_file_def
        MY_LO_NAME_SIZE_def)
qed

text \<open>An object of a recent driver on x86-64, with other data before and behind the name.\<close>

theorem loop_name_read_back_witness:
  "mountinfo_of_bytes x86_64 (KERNEL_VERSION 6 8 0) 0x700001
     (replicate 28 7 @ map of_char ''/img'' @ 0 # replicate 59 9 @ replicate 40 5) = Inr (LoopDevice ''/img'')"
proof -
  let ?obj = "replicate 28 7 @ map of_char ''/img'' @ 0 # replicate 59 9 @ replicate 40 5 :: bytes"
  have "mountinfo_of_bytes x86_64 (KERNEL_VERSION 6 8 0) (bd_dev \<lparr>bd_dev = 0x700001, bd_lo_file_name = ''/img''\<rparr>) ?obj =
      (if MAJOR (bd_dev \<lparr>bd_dev = 0x700001, bd_lo_file_name = ''/img''\<rparr>) = LOOP_MAJOR \<and> length ?obj < 28 + 64 then Inl OutOfBounds
       else Inr (from_block_device_to_mountinfo \<lparr>bd_dev = 0x700001, bd_lo_file_name = ''/img''\<rparr>))"
    by (rule loop_name_read_back[where rest = "replicate 59 9"])
      (simp_all add: KERNEL_VERSION_def is_cstr_def NUL_def)
  then show ?thesis
    by (simp add: from_block_device_to_mountinfo_def get_loop_backing_file_def devno_defs MY_LO_NAME_SIZE_def)
qed

end
