(* ===== verification/Rhkeys.thy ===== *)
theory Rhkeys
  imports Devices
begin

text \<open>
  The keys of the two tables of devices (\<open>src/kernel/devices.c\<close>, \<open>blkdevs_ht_params\<close> and \<open>loops_ht_params\<close>).
  \<open>rhashtable\<close> is a library of the kernel: a client gives it a hash function for keys, one for objects and
  a comparison, and the table searches, among the objects in the chain of the key's hash, for the first
  one that compares equal. \<open>Devices\<close> takes the tables as association lists; this theory shows that the
  functions of the source keep the contract under which the two are the same, for every seed, every
  number of chains and every \<open>jhash\<close>.
\<close>

section \<open>Keys and objects\<close>

text \<open>\<open>strcmp\<close> of the kernel on strings without NUL.\<close>

fun strcmp :: "string \<Rightarrow> string \<Rightarrow> int" where
  "strcmp [] [] = 0"
| "strcmp [] (d # ds) = -1"
| "strcmp (c # cs) [] = 1"
| "strcmp (c # cs) (d # ds) =
     (if c \<noteq> d then (if (of_char c :: nat) < of_char d then -1 else 1) else strcmp cs ds)"

text \<open>The objects of the tables; \<open>value\<close> is the identifier of the device.\<close>

record blkdev_object =
  bo_key :: u32
  bo_value :: nat

record loop_object =
  lo_key :: string
  lo_value :: nat

type_synonym jhash = "string \<Rightarrow> nat \<Rightarrow> u32 \<Rightarrow> u32"

definition loop_object_key_hashfn :: "jhash \<Rightarrow> string \<Rightarrow> u32 \<Rightarrow> u32" where
  "loop_object_key_hashfn jhash data seed = jhash data (length data) seed"

definition loop_object_obj_hashfn :: "jhash \<Rightarrow> loop_object \<Rightarrow> u32 \<Rightarrow> u32" where
  "loop_object_obj_hashfn jhash lo seed = jhash (lo_key lo) (length (lo_key lo)) seed"

definition loop_object_obj_cmpfn :: "string \<Rightarrow> loop_object \<Rightarrow> int" where
  "loop_object_obj_cmpfn new_key obj = strcmp (lo_key obj) new_key"

text \<open>What a client passes to the table.\<close>

record ('k, 'o) rhashtable_params =
  hashfn :: "'k \<Rightarrow> u32 \<Rightarrow> u32"
  obj_hashfn :: "'o \<Rightarrow> u32 \<Rightarrow> u32"
  obj_cmpfn :: "'k \<Rightarrow> 'o \<Rightarrow> int"

definition loops_ht_params :: "jhash \<Rightarrow> (string, loop_object) rhashtable_params" where
  "loops_ht_params jhash =
     \<lparr>hashfn = loop_object_key_hashfn jhash, obj_hashfn = loop_object_obj_hashfn jhash, obj_cmpfn = loop_object_obj_cmpfn\<rparr>"

text \<open>With a \<open>key_len\<close> and no functions the table hashes and compares the bytes of the key at \<open>key_offset\<close>.\<close>

definition blkdevs_ht_params :: "(u32 \<Rightarrow> u32 \<Rightarrow> u32) \<Rightarrow> (u32, blkdev_object) rhashtable_params" where
  "blkdevs_ht_params hash_word =
     \<lparr>hashfn = hash_word, obj_hashfn = (\<lambda>o1. hash_word (bo_key o1)),
      obj_cmpfn = (\<lambda>key o1. if bo_key o1 = key then 0 else 1)\<rparr>"

section \<open>The contract of the table\<close>

text \<open>The chains of a table: every object lies in the chain of its hash. The search looks at one chain.\<close>

definition chain_of :: "nat \<Rightarrow> u32 \<Rightarrow> nat" where
  "chain_of nchains h = unat h mod nchains"

definition placed :: "('k, 'o) rhashtable_params \<Rightarrow> u32 \<Rightarrow> nat \<Rightarrow> (nat \<Rightarrow> 'o list) \<Rightarrow> bool" where
  "placed p seed nchains tbl \<longleftrightarrow> (\<forall>b. \<forall>o1 \<in> set (tbl b). chain_of nchains (obj_hashfn p o1 seed) = b)"

definition chain_search :: "('k, 'o) rhashtable_params \<Rightarrow> u32 \<Rightarrow> nat \<Rightarrow> (nat \<Rightarrow> 'o list) \<Rightarrow> 'k \<Rightarrow> 'o option" where
  "chain_search p seed nchains tbl key =
     find (\<lambda>o1. obj_cmpfn p key o1 = 0) (tbl (chain_of nchains (hashfn p key seed)))"

text \<open>The objects of a table whose chains hold the entries of an association list.\<close>

definition holds :: "('o \<Rightarrow> 'k) \<Rightarrow> ('o \<Rightarrow> nat) \<Rightarrow> (nat \<Rightarrow> 'o list) \<Rightarrow> ('k \<times> nat) list \<Rightarrow> bool" where
  "holds key_of val_of tbl t \<longleftrightarrow>
     (\<forall>key v. (key, v) \<in> set t \<longleftrightarrow> (\<exists>b. \<exists>o1 \<in> set (tbl b). key_of o1 = key \<and> val_of o1 = v))"

locale rhash_client =
  fixes p :: "('k, 'o) rhashtable_params"
    and key_of :: "'o \<Rightarrow> 'k"
    and val_of :: "'o \<Rightarrow> nat"
  assumes cmp_key: "obj_cmpfn p key o1 = 0 \<longleftrightarrow> key_of o1 = key"
    and hash_key: "obj_hashfn p o1 seed = hashfn p (key_of o1) seed"
begin

lemma search_finds:
  assumes "placed p seed nchains tbl"
  shows "chain_search p seed nchains tbl key = Some o1 \<Longrightarrow> o1 \<in> (\<Union>b. set (tbl b)) \<and> key_of o1 = key"
    and "chain_search p seed nchains tbl key = None \<Longrightarrow> o1 \<in> (\<Union>b. set (tbl b)) \<Longrightarrow> key_of o1 \<noteq> key"
proof -
  show "o1 \<in> (\<Union>b. set (tbl b)) \<and> key_of o1 = key" if "chain_search p seed nchains tbl key = Some o1"
  proof -
    from that have "o1 \<in> set (tbl (chain_of nchains (hashfn p key seed)))" "key_of o1 = key"
      by (auto simp: chain_search_def find_Some_iff cmp_key)
    then show ?thesis by blast
  qed
  show "key_of o1 \<noteq> key" if "chain_search p seed nchains tbl key = None" "o1 \<in> (\<Union>b. set (tbl b))"
  proof
    assume k: "key_of o1 = key"
    from that(2) obtain b where b: "o1 \<in> set (tbl b)" by blast
    with assms have "chain_of nchains (hashfn p key seed) = b" using k by (auto simp: placed_def hash_key)
    with that(1) b k show False by (auto simp: chain_search_def find_None_iff cmp_key)
  qed
qed

text \<open>The search of a placed table is the lookup in the association list.\<close>

lemma search_map_of:
  assumes pl: "placed p seed nchains tbl" and h: "holds key_of val_of tbl t" and d: "distinct (map fst t)"
  shows "map_option val_of (chain_search p seed nchains tbl key) = map_of t key"
proof (cases "chain_search p seed nchains tbl key")
  case None
  have "key \<notin> fst ` set t"
  proof
    assume "key \<in> fst ` set t"
    then obtain v where "(key, v) \<in> set t" by auto
    then obtain b o1 where "o1 \<in> set (tbl b)" "key_of o1 = key" using h[unfolded holds_def] by blast
    with search_finds(2)[OF pl None] show False by blast
  qed
  then have "map_of t key = None" by (simp add: map_of_eq_None_iff)
  then show ?thesis by (simp add: None)
next
  case (Some o1)
  with search_finds(1)[OF pl Some] obtain b where "o1 \<in> set (tbl b)" "key_of o1 = key" by blast
  then have "(key, val_of o1) \<in> set t" using h[unfolded holds_def] by blast
  with d show ?thesis by (simp add: Some)
qed

end

lemma strcmp_eq: "strcmp s t = 0 \<longleftrightarrow> s = t"
  by (induction s t rule: strcmp.induct) auto

text \<open>Both tables keep the contract.\<close>

interpretation loops: rhash_client "loops_ht_params jhash" lo_key lo_value for jhash
  by unfold_locales (simp_all add: loops_ht_params_def loop_object_obj_cmpfn_def strcmp_eq
      loop_object_obj_hashfn_def loop_object_key_hashfn_def)

interpretation blkdevs: rhash_client "blkdevs_ht_params hash_word" bo_key bo_value for hash_word
  by unfold_locales (simp_all add: blkdevs_ht_params_def)

section \<open>The lookup of devices\<close>

text \<open>The two tables with their chains.\<close>

record hashed =
  h_seed :: u32
  h_size :: nat
  h_loops :: "nat \<Rightarrow> loop_object list"
  h_blkdevs :: "nat \<Rightarrow> blkdev_object list"

text \<open>\<open>get_device_data_always\<close> on the chains.\<close>

definition hashed_device_data :: "jhash \<Rightarrow> (u32 \<Rightarrow> u32 \<Rightarrow> u32) \<Rightarrow> mountinfo \<Rightarrow> hashed \<Rightarrow> nat option" where
  "hashed_device_data jhash hash_word minfo h =
     (case minfo of
        BlockDevice d \<Rightarrow> map_option bo_value (chain_search (blkdevs_ht_params hash_word) (h_seed h) (h_size h) (h_blkdevs h) d)
      | LoopDevice s \<Rightarrow> map_option lo_value (chain_search (loops_ht_params jhash) (h_seed h) (h_size h) (h_loops h) s))"

definition hashed_of :: "jhash \<Rightarrow> (u32 \<Rightarrow> u32 \<Rightarrow> u32) \<Rightarrow> hashed \<Rightarrow> kstate \<Rightarrow> bool" where
  "hashed_of jhash hash_word h k \<longleftrightarrow>
     placed (blkdevs_ht_params hash_word) (h_seed h) (h_size h) (h_blkdevs h) \<and>
     placed (loops_ht_params jhash) (h_seed h) (h_size h) (h_loops h) \<and>
     holds bo_key bo_value (h_blkdevs h) (blkdevs_ht k) \<and> holds lo_key lo_value (h_loops h) (loops_ht k)"

text \<open>C18: the hash and comparison functions of both tables fit together: whatever \<open>jhash\<close>, the seed and the number
  of chains are, and in whatever order the objects lie in the chains of their hashes, the lookup that
  searches the one chain of a key's hash with the module's own functions finds a device exactly when,
  and with the same object as, the lookup in the association lists of \<open>Devices\<close>.\<close>

theorem hashed_lookup_refines:
  assumes "tables_ok k" "hashed_of jhash hash_word h k"
  shows "hashed_device_data jhash hash_word minfo h = get_device_data_always minfo k"
proof -
  have d: "distinct (map fst (blkdevs_ht k))" "distinct (map fst (loops_ht k))"
    using assms(1) by (simp_all add: tables_ok_def)
  note hs = assms(2)[unfolded hashed_of_def]
  show ?thesis
    using blkdevs.search_map_of[OF _ _ d(1)] loops.search_map_of[OF _ _ d(2)] hs
    by (auto simp: hashed_device_data_def get_device_data_always_def split: mountinfo.split)
qed

definition image_data :: object_data where
  "image_data = \<lparr>wq_is_destroyed = False, od_wq = Some 0, od_e = None, od_original_dev_name = ''/b''\<rparr>"

text \<open>Two image files in one chain of two, with a hash that looks at the length only.\<close>

theorem hashed_lookup_refines_witness:
  "hashed_device_data (\<lambda>s n seed. of_nat n) (\<lambda>d seed. d) (LoopDevice ''/b'')
     \<lparr>h_seed = 5, h_size = 2, h_loops = (\<lambda>_. [])(0 := [\<lparr>lo_key = ''/a'', lo_value = 1\<rparr>, \<lparr>lo_key = ''/b'', lo_value = 3\<rparr>]),
      h_blkdevs = (\<lambda>_. [])\<rparr> =
   get_device_data_always (LoopDevice ''/b'') ((started empty_vfs)\<lparr>objs := [1 \<mapsto> image_data, 3 \<mapsto> image_data], next_id := 4,
     loops_ht := [(''/b'', 3), (''/a'', 1)]\<rparr>)"
proof (rule hashed_lookup_refines)
  show "tables_ok ((started empty_vfs)\<lparr>objs := [1 \<mapsto> image_data, 3 \<mapsto> image_data], next_id := 4, loops_ht := [(''/b'', 3), (''/a'', 1)]\<rparr>)"
    by (auto simp: tables_ok_def start_defs)
  show "hashed_of (\<lambda>s n seed. of_nat n) (\<lambda>d seed. d)
     \<lparr>h_seed = 5, h_size = 2, h_loops = (\<lambda>_. [])(0 := [\<lparr>lo_key = ''/a'', lo_value = 1\<rparr>, \<lparr>lo_key = ''/b'', lo_value = 3\<rparr>]),
      h_blkdevs = (\<lambda>_. [])\<rparr>
     ((started empty_vfs)\<lparr>objs := [1 \<mapsto> image_data, 3 \<mapsto> image_data], next_id := 4, loops_ht := [(''/b'', 3), (''/a'', 1)]\<rparr>)"
    by (auto simp: hashed_of_def placed_def holds_def chain_of_def loops_ht_params_def blkdevs_ht_params_def
        loop_object_obj_hashfn_def start_defs split: if_splits)
qed

end
