(* ===== verification/Onefilefs.thy ===== *)
theory Onefilefs
  imports Singlefilefs "HOL-Library.Signed_Division"
begin

text \<open>
  The single-file file system, \<open>demo/SINGLEFILE-FS\<close>: the one whose writes the module's probes watch.
  Block 0 of the device is the superblock, block 1 the inode of the only file, the blocks from 2 on
  its data. The state is the buffer cache of the device (the contents of every block) and the size of
  the file in the cached inode. An operation reads a block with \<open>sb_bread\<close>, which may fail
  (\<open>bread_ok\<close>), and hands a changed one to \<open>write_dirty_buffer\<close>; both are logged as the events the
  probes of \<open>Singlefilefs\<close> see. Each operation runs under the inode's lock: it is one step here.
\<close>

section \<open>Layout\<close>

definition ONEFILEFS_MAGIC :: u64 where "ONEFILEFS_MAGIC = 0x42424242"

definition DEFAULT_BLOCK_SIZE :: nat where "DEFAULT_BLOCK_SIZE = 4096"

definition SB_BLOCK_NUMBER :: u64 where "SB_BLOCK_NUMBER = 0"

definition SINGLEFILEFS_INODES_BLOCK_NUMBER :: u64 where "SINGLEFILEFS_INODES_BLOCK_NUMBER = 1"

definition FILENAME_MAXLEN :: nat where "FILENAME_MAXLEN = 255"

definition SINGLEFILEFS_ROOT_INODE_NUMBER :: u64 where "SINGLEFILEFS_ROOT_INODE_NUMBER = 10"

definition SINGLEFILEFS_FILE_INODE_NUMBER :: u64 where "SINGLEFILEFS_FILE_INODE_NUMBER = 1"

definition UNIQUE_FILE_NAME :: string where "UNIQUE_FILE_NAME = ''the-file''"

declare DEFAULT_BLOCK_SIZE_def [layout_defs] SINGLEFILEFS_BLOCK_SIZE_def [layout_defs]
  SB_BLOCK_NUMBER_def [layout_defs] SINGLEFILEFS_INODES_BLOCK_NUMBER_def [layout_defs]

text \<open>The fields of \<open>struct onefilefs_sb_info\<close> and \<open>struct onefilefs_inode\<close> the code uses, by their
  offsets. \<open>mode_t\<close> has four bytes, followed by four of padding.\<close>

definition sb_info_magic :: "bytes \<Rightarrow> u64" where "sb_info_magic bdata = bytes_u64 (take 8 (drop 8 bdata))"

definition sb_info_max_file_size :: "bytes \<Rightarrow> u64" where
  "sb_info_max_file_size bdata = bytes_u64 (take 8 (drop 40 bdata))"

definition inode_file_size :: "bytes \<Rightarrow> u64" where "inode_file_size bdata = bytes_u64 (take 8 (drop 24 bdata))"

definition set_inode_file_size :: "u64 \<Rightarrow> bytes \<Rightarrow> bytes" where
  "set_inode_file_size new_size bdata = write_at 24 (u64_bytes new_size) bdata"

record onefilefs =
  disk :: "u64 \<Rightarrow> bytes"
  i_size :: u64

text \<open>\<open>*off % DEFAULT_BLOCK_SIZE\<close> and \<open>*off / DEFAULT_BLOCK_SIZE + 2\<close>: signed operations that truncate,
  the second one stored in an \<open>int\<close> and widened again to \<open>sector_t\<close>.\<close>

definition block_offset :: "u64 \<Rightarrow> u64" where
  "block_offset off = of_int (sint off smod int DEFAULT_BLOCK_SIZE)"

definition block_index :: "u64 \<Rightarrow> u64" where
  "block_index off = scast (of_int (sint off sdiv int DEFAULT_BLOCK_SIZE + 2) :: u32)"

definition the_bh :: "block_device \<Rightarrow> u64 \<Rightarrow> bytes \<Rightarrow> buffer_head" where
  "the_bh bdev nr bdata =
     \<lparr>b_data = bdata, b_size = DEFAULT_BLOCK_SIZE, b_blocknr = nr, b_bdev = Some bdev\<rparr>"

text \<open>\<open>copy_from_user\<close> from a buffer whose accessible bytes are \<open>ubuf\<close>: what cannot be read is zeroed and
  counted. \<open>copy_to_user\<close> counts what does not fit into \<open>room\<close> accessible bytes.\<close>

definition copy_from_user :: "bytes \<Rightarrow> nat \<Rightarrow> bytes \<times> nat" where
  "copy_from_user ubuf n = (take n ubuf @ replicate (n - length ubuf) 0, n - length ubuf)"

definition copy_to_user :: "nat \<Rightarrow> bytes \<Rightarrow> bytes \<times> nat" where
  "copy_to_user room d = (take room d, length d - room)"

section \<open>File operations\<close>

text \<open>The results: the return value, the new file position, the bytes read or the new state, and the
  buffers touched.\<close>

definition onefilefs_read ::
  "block_device \<Rightarrow> (u64 \<Rightarrow> bool) \<Rightarrow> nat \<Rightarrow> u64 \<Rightarrow> u64 \<Rightarrow> onefilefs \<Rightarrow>
     fault + int \<times> u64 \<times> bytes \<times> fs_event list" where
  "onefilefs_read bdev bread_ok room len off fs =
     (let file_size = i_size fs in
      if off \<ge> file_size then Inr (0, off, [], [])
      else
        let len = (if off + len > file_size then file_size - off else len);
            offset = block_offset off;
            len = (if offset + len > of_nat DEFAULT_BLOCK_SIZE then of_nat DEFAULT_BLOCK_SIZE - offset else len);
            block_to_read = block_index off
        in if \<not> bread_ok block_to_read then Inr (- EIO, off, [], [])
           else if unat offset + unat len > DEFAULT_BLOCK_SIZE then Inl OutOfBounds
           else
             let bdata = disk fs block_to_read;
                 (out, ret) = copy_to_user room (take (unat len) (drop (unat offset) bdata))
             in Inr (int (unat len - ret), off + (len - of_nat ret), out, [BRead (the_bh bdev block_to_read bdata)]))"

text \<open>A failing read of the superblock locks the inode a second time instead of unlocking it.\<close>

definition onefilefs_write ::
  "block_device \<Rightarrow> (u64 \<Rightarrow> bool) \<Rightarrow> bytes \<Rightarrow> u64 \<Rightarrow> u64 \<Rightarrow> onefilefs \<Rightarrow>
     fault + int \<times> u64 \<times> onefilefs \<times> fs_event list" where
  "onefilefs_write bdev bread_ok ubuf len off fs =
     (let file_size = i_size fs in
      if \<not> bread_ok SB_BLOCK_NUMBER then Inl Hang
      else
        let sb_disk = disk fs SB_BLOCK_NUMBER;
            max_file_size = sb_info_max_file_size sb_disk;
            ev0 = BRead (the_bh bdev SB_BLOCK_NUMBER sb_disk)
        in if off > max_file_size then Inr (- ENOMEM, off, fs, [ev0])
           else if off > file_size then Inr (0, off, fs, [ev0])
           else
             let len = (if off + len > max_file_size then max_file_size - off else len);
                 offset = block_offset off;
                 len = (if offset + len > of_nat DEFAULT_BLOCK_SIZE then of_nat DEFAULT_BLOCK_SIZE - offset else len);
                 block_to_write = block_index off
             in if \<not> bread_ok block_to_write then Inr (- EIO, off, fs, [ev0])
                else if unat offset + unat len > DEFAULT_BLOCK_SIZE then Inl OutOfBounds
                else
                  let bdata = disk fs block_to_write;
                      (d, ret) = copy_from_user ubuf (unat len);
                      new_data = write_at (unat offset) d bdata;
                      off = off + (len - of_nat ret);
                      rv = int (unat len - ret);
                      fs = fs\<lparr>disk := (disk fs)(block_to_write := new_data)\<rparr>;
                      evs = [ev0, BRead (the_bh bdev block_to_write bdata), BDirty (the_bh bdev block_to_write new_data)]
                  in if sint (i_size fs) < sint off
                     then
                       let fs = fs\<lparr>i_size := off\<rparr> in
                       if \<not> bread_ok SINGLEFILEFS_INODES_BLOCK_NUMBER then Inr (- EIO, off, fs, evs)
                       else
                         let inode_block = disk fs SINGLEFILEFS_INODES_BLOCK_NUMBER;
                             new_inode_block = set_inode_file_size off inode_block
                         in Inr (rv, off, fs\<lparr>disk := (disk fs)(SINGLEFILEFS_INODES_BLOCK_NUMBER := new_inode_block)\<rparr>,
                                 evs @ [BRead (the_bh bdev SINGLEFILEFS_INODES_BLOCK_NUMBER inode_block),
                                        BDirty (the_bh bdev SINGLEFILEFS_INODES_BLOCK_NUMBER new_inode_block)])
                     else Inr (rv, off, fs, evs))"

definition SEEK_SET :: int where "SEEK_SET = 0"

definition onefilefs_seek :: "onefilefs \<Rightarrow> u64 \<Rightarrow> int \<Rightarrow> u64 \<Rightarrow> int \<times> u64" where
  "onefilefs_seek fs off command f_pos =
     (if sint (i_size fs) < sint off \<or> command \<noteq> SEEK_SET then (- EINVAL, f_pos) else (sint off, off))"

text \<open>\<open>onefilefs_lookup\<close>. \<open>iget\<close> is the result of \<open>iget_locked\<close>: nothing, or whether the inode is new. A
  result is an error, NULL or the child dentry; \<open>lk_dentry_refs\<close> and \<open>lk_inode_refs\<close> count the references taken
  and \<open>lk_inode\<close> is the size of the file the inode attached to the dentry has, if one was attached.\<close>

datatype lookup_ret = LookupErr int | LookupNull | LookupChild

record lookup_result =
  lk_ret :: lookup_ret
  lk_dentry_refs :: nat
  lk_inode_refs :: nat
  lk_inode :: "u64 option"

definition onefilefs_lookup :: "(u64 \<Rightarrow> bool) \<Rightarrow> bool option \<Rightarrow> string \<Rightarrow> onefilefs \<Rightarrow> lookup_result" where
  "onefilefs_lookup bread_ok iget name fs =
     (let none = \<lparr>lk_ret = LookupNull, lk_dentry_refs = 0, lk_inode_refs = 0, lk_inode = None\<rparr> in
      if name \<noteq> UNIQUE_FILE_NAME then none
      else (case iget of
        None \<Rightarrow> none\<lparr>lk_ret := LookupErr (- ENOMEM)\<rparr>
      | Some False \<Rightarrow> none\<lparr>lk_ret := LookupChild, lk_inode_refs := 1\<rparr>
      | Some True \<Rightarrow>
          if \<not> bread_ok SINGLEFILEFS_INODES_BLOCK_NUMBER then none\<lparr>lk_ret := LookupErr (- EIO)\<rparr>
          else none\<lparr>lk_ret := LookupChild, lk_dentry_refs := 1, lk_inode_refs := 1,
                    lk_inode := Some (inode_file_size (disk fs SINGLEFILEFS_INODES_BLOCK_NUMBER))\<rparr>))"

section \<open>Directory and superblock\<close>

text \<open>\<open>onefilefs_iterate\<close> emits at most \<open>.\<close>, \<open>..\<close> and the file; \<open>room\<close> is the number of entries \<open>dir_emit\<close> still
  accepts. The result: the new position and the arguments of the successful calls of \<open>dir_emit\<close>, the name,
  its length as told to \<open>dir_emit\<close>, and the inode number.\<close>

type_synonym dirent = "string \<times> nat \<times> u64"

definition iterate_from :: "nat \<Rightarrow> dirent \<Rightarrow> nat \<times> nat \<times> dirent list \<Rightarrow> (nat \<times> nat \<times> dirent list) option" where
  "iterate_from p entry s =
     (let (pos, room, out) = s in
      if pos = p then (if room = 0 then None else Some (pos + 1, room - 1, out @ [entry])) else Some s)"

definition onefilefs_iterate :: "nat \<Rightarrow> nat \<Rightarrow> nat \<times> dirent list" where
  "onefilefs_iterate room pos =
     (if pos \<ge> 2 + 1 then (pos, [])
      else (case iterate_from 0 (''.'', FILENAME_MAXLEN, SINGLEFILEFS_ROOT_INODE_NUMBER) (pos, room, []) of
        None \<Rightarrow> (pos, [])
      | Some s1 \<Rightarrow>
          (case iterate_from 1 (''..'', FILENAME_MAXLEN, 1) s1 of
             None \<Rightarrow> (fst s1, snd (snd s1))
           | Some s2 \<Rightarrow>
               (case iterate_from 2 (UNIQUE_FILE_NAME, FILENAME_MAXLEN, SINGLEFILEFS_FILE_INODE_NUMBER) s2 of
                  None \<Rightarrow> (fst s2, snd (snd s2))
                | Some s3 \<Rightarrow> (fst s3, snd (snd s3))))))"

text \<open>\<open>bh\<close> is the result of \<open>sb_bread\<close> on the superblock; the test after it looks at \<open>sb\<close>, which is not NULL.\<close>

abbreviation (input) EBADF :: int where "EBADF \<equiv> 9"

definition singlefilefs_fill_super :: "bytes option \<Rightarrow> bool \<Rightarrow> bool \<Rightarrow> fault + int" where
  "singlefilefs_fill_super bh iget_ok make_root_ok =
     (case bh of
        None \<Rightarrow> Inl NullDeref
      | Some bdata \<Rightarrow>
          if sb_info_magic bdata \<noteq> ONEFILEFS_MAGIC then Inr (- EBADF)
          else if \<not> iget_ok then Inr (- ENOMEM)
          else if \<not> make_root_ok then Inr (- ENOMEM)
          else Inr 0)"

section \<open>Making a file system\<close>

text \<open>The bytes \<open>singlefilemakefs.c\<close> packs. \<open>junk\<close> are the bytes of the fields it leaves uninitialised.\<close>

definition default_body :: bytes where
  "default_body = map of_char (''Wathever content you would like.'' @ [CHR 0x0A])"

definition mkfs_max_file_size :: "int \<Rightarrow> u64" where
  "mkfs_max_file_size st_size = of_int ((st_size sdiv int DEFAULT_BLOCK_SIZE - 2) * int DEFAULT_BLOCK_SIZE)"

definition mkfs_sb :: "bytes \<Rightarrow> int \<Rightarrow> bytes" where
  "mkfs_sb junk st_size =
     u64_bytes 1 @ u64_bytes ONEFILEFS_MAGIC @ u64_bytes (of_nat DEFAULT_BLOCK_SIZE) @ take 16 junk @
     u64_bytes (mkfs_max_file_size st_size) @ drop 16 junk"

definition mkfs_inode :: "bytes \<Rightarrow> bytes" where
  "mkfs_inode junk =
     take 4 (u64_bytes 0x8000) @ take 4 junk @ u64_bytes 1 @ take 8 (drop 4 junk) @ u64_bytes (of_nat (length default_body))"

text \<open>One \<open>write\<close> of the tool: the result \<open>r\<close> of the system call, and the device and position after it. The tool
  goes on if everything was written.\<close>

definition mkfs_write :: "int \<Rightarrow> bytes \<Rightarrow> nat \<times> bytes \<Rightarrow> (int \<times> bytes) + (nat \<times> bytes)" where
  "mkfs_write r d s =
     (let (pos, dev) = s; dev' = write_at pos (take (nat r) d) dev in
      if r \<noteq> int (length d) then Inl (r, dev') else Inr (pos + length d, dev'))"

definition mkfs_main ::
  "bytes \<Rightarrow> bytes \<Rightarrow> bytes option \<Rightarrow> bool \<Rightarrow> int option \<Rightarrow> (nat \<Rightarrow> int) \<Rightarrow> bytes \<Rightarrow> int \<times> bytes" where
  "mkfs_main sb_junk inode_junk block_padding open_ok fstat_res wres dev =
     (if \<not> open_ok then (- 1, dev) else
      case fstat_res of None \<Rightarrow> (- 1, dev) | Some st_size \<Rightarrow>
     (case mkfs_write (wres 0) (mkfs_sb sb_junk st_size) (0, dev) of
        Inl (r, dev1) \<Rightarrow> (r, dev1)
      | Inr s1 \<Rightarrow>
          (case mkfs_write (wres 1) (mkfs_inode inode_junk) s1 of
             Inl (r, dev2) \<Rightarrow> (- 1, dev2)
           | Inr s2 \<Rightarrow>
               (case block_padding of
                  None \<Rightarrow> (- 1, snd s2)
                | Some pad \<Rightarrow>
                    (case mkfs_write (wres 2) pad s2 of
                       Inl (r, dev3) \<Rightarrow> (- 1, dev3)
                     | Inr s3 \<Rightarrow>
                         (case mkfs_write (wres 3) default_body s3 of
                            Inl (r, dev4) \<Rightarrow> (- 1, dev4)
                          | Inr s4 \<Rightarrow> (0, snd s4)))))))"

section \<open>Arithmetic of a write\<close>

text \<open>A file system on a device of \<open>n\<close> blocks: every block has its size, the file fits and its limit lies on
  the device, whose block numbers fit an \<open>int\<close>.\<close>

definition onefs_ok :: "nat \<Rightarrow> onefilefs \<Rightarrow> bool" where
  "onefs_ok n fs \<longleftrightarrow> (\<forall>b. length (disk fs b) = DEFAULT_BLOCK_SIZE) \<and> 2 \<le> n \<and> n < 2 ^ 31 - 1 \<and>
     unat (sb_info_max_file_size (disk fs SB_BLOCK_NUMBER)) \<le> (n - 2) * DEFAULT_BLOCK_SIZE \<and>
     i_size fs \<le> sb_info_max_file_size (disk fs SB_BLOCK_NUMBER)"

definition data_block :: "nat \<Rightarrow> u64" where "data_block i = of_nat (i div DEFAULT_BLOCK_SIZE + 2)"

lemma sdiv_nonneg: "int a sdiv int b = int (a div b)"
  by (cases "a = 0"; cases "b = 0") (simp_all add: signed_divide_int_def sgn_if zdiv_int)

lemma smod_nonneg: "int a smod int b = int (a mod b)"
  by (simp add: signed_modulo_int_def sdiv_nonneg minus_div_mult_eq_mod flip: of_nat_mult of_nat_diff)
    (simp add: zmod_int)

lemma sint_small: "unat off < 2 ^ 63 \<Longrightarrow> sint (off :: u64) = int (unat off)"
  using sint_of_nat64[of "unat off"] by simp

lemma block_offset_eq:
  assumes "unat off < 2 ^ 63"
  shows "block_offset off = of_nat (unat off mod DEFAULT_BLOCK_SIZE)"
  by (simp only: block_offset_def sint_small[OF assms] smod_nonneg of_int_of_nat_eq)

lemma block_index_eq:
  assumes "unat off < (2 ^ 31 - 3) * DEFAULT_BLOCK_SIZE"
  shows "block_index off = data_block (unat off)"
proof -
  let ?i = "unat off div DEFAULT_BLOCK_SIZE + 2"
  have small: "unat off < 2 ^ 63" using assms by (simp add: DEFAULT_BLOCK_SIZE_def)
  have eq: "of_int (sint off sdiv int DEFAULT_BLOCK_SIZE + 2) = (of_nat ?i :: u32)"
    unfolding sint_small[OF small] sdiv_nonneg by (metis of_int_of_nat_eq of_nat_add of_nat_numeral)
  have i: "?i < 2 ^ 31" using assms by (simp add: DEFAULT_BLOCK_SIZE_def div_less_iff_less_mult)
  have "sint (of_nat ?i :: u32) = int ?i" by (rule sint_of_nat32[OF i])
  then show ?thesis by (simp only: block_index_def eq data_block_def scast_eq of_int_of_nat_eq)
qed

section \<open>What a write does\<close>

lemma unat_clamp:
  assumes "unat (a :: u64) + unat b < 2 ^ 64" "a \<le> m"
  shows "unat (if a + b > m then m - a else b) = min (unat b) (unat m - unat a)"
proof -
  have "unat (a + b) = unat a + unat b" using assms(1) by (simp add: unat_word_ariths)
  moreover have "unat (m - a) = unat m - unat a" using assms(2) by (rule unat_sub)
  ultimately show ?thesis using assms(2) by (auto simp: word_less_nat_alt word_le_nat_alt)
qed

text \<open>The bytes of one write: up to the limit of the file and the end of the block.\<close>

definition write_span :: "onefilefs \<Rightarrow> nat \<Rightarrow> nat \<Rightarrow> nat" where
  "write_span fs off len =
     min (min len (unat (sb_info_max_file_size (disk fs SB_BLOCK_NUMBER)) - off))
       (DEFAULT_BLOCK_SIZE - off mod DEFAULT_BLOCK_SIZE)"

definition put_data :: "nat \<Rightarrow> bytes \<Rightarrow> onefilefs \<Rightarrow> onefilefs" where
  "put_data off d fs =
     fs\<lparr>disk := (disk fs)(data_block off :=
       write_at (off mod DEFAULT_BLOCK_SIZE) d (disk fs (data_block off)))\<rparr>"

definition put_size :: "u64 \<Rightarrow> onefilefs \<Rightarrow> onefilefs" where
  "put_size off fs =
     fs\<lparr>i_size := off, disk := (disk fs)(SINGLEFILEFS_INODES_BLOCK_NUMBER :=
       set_inode_file_size off (disk fs SINGLEFILEFS_INODES_BLOCK_NUMBER))\<rparr>"

text \<open>The events of reading block \<open>b\<close> and dirtying it.\<close>

definition touch :: "block_device \<Rightarrow> u64 \<Rightarrow> bytes \<Rightarrow> bytes \<Rightarrow> fs_event list" where
  "touch bdev b old new = [BRead (the_bh bdev b old), BDirty (the_bh bdev b new)]"

definition sb_read :: "block_device \<Rightarrow> onefilefs \<Rightarrow> fs_event" where
  "sb_read bdev fs = BRead (the_bh bdev SB_BLOCK_NUMBER (disk fs SB_BLOCK_NUMBER))"

lemma max_file_size_bound:
  assumes "onefs_ok n fs"
  shows "unat (sb_info_max_file_size (disk fs SB_BLOCK_NUMBER)) < (2 ^ 31 - 3) * DEFAULT_BLOCK_SIZE"
proof -
  have "(n - 2) * DEFAULT_BLOCK_SIZE < (2 ^ 31 - 3) * DEFAULT_BLOCK_SIZE"
    using assms by (intro mult_less_mono1) (auto simp: onefs_ok_def DEFAULT_BLOCK_SIZE_def)
  moreover have "unat (sb_info_max_file_size (disk fs SB_BLOCK_NUMBER)) \<le> (n - 2) * DEFAULT_BLOCK_SIZE"
    using assms by (simp add: onefs_ok_def)
  ultimately show ?thesis by (rule le_less_trans[rotated])
qed

lemma unat_of_nat_add:
  "unat (off :: u64) + c < 2 ^ 64 \<Longrightarrow> unat (off + of_nat c) = unat off + c"
  by (simp add: unat_word_ariths unat_of_nat64)

lemma onefilefs_write_eq:
  assumes ok: "onefs_ok n fs" and len: "unat len < 2 ^ 63" and b0: "bread_ok SB_BLOCK_NUMBER"
    and off: "off \<le> i_size fs"
  shows "onefilefs_write bdev bread_ok ubuf len off fs =
    (let p = write_span fs (unat off) (unat len); c = min p (length ubuf); d = fst (copy_from_user ubuf p);
         b = data_block (unat off); fs1 = put_data (unat off) d fs; off' = off + of_nat c;
         evs = sb_read bdev fs # touch bdev b (disk fs b) (disk fs1 b)
     in if \<not> bread_ok b then Inr (- EIO, off, fs, [sb_read bdev fs])
        else if unat (i_size fs) < unat off'
        then (if \<not> bread_ok SINGLEFILEFS_INODES_BLOCK_NUMBER then Inr (- EIO, off', fs1\<lparr>i_size := off'\<rparr>, evs)
              else Inr (int c, off', put_size off' fs1,
                evs @ touch bdev SINGLEFILEFS_INODES_BLOCK_NUMBER (disk fs1 SINGLEFILEFS_INODES_BLOCK_NUMBER)
                  (disk (put_size off' fs1) SINGLEFILEFS_INODES_BLOCK_NUMBER)))
        else Inr (int c, off', fs1, evs))"
proof -
  let ?max = "sb_info_max_file_size (disk fs SB_BLOCK_NUMBER)" and ?B = DEFAULT_BLOCK_SIZE
  let ?o = "unat off mod ?B" and ?p = "write_span fs (unat off) (unat len)"
  note bound = max_file_size_bound[OF ok]
  have max: "off \<le> ?max" using ok off by (auto simp: onefs_ok_def)
  then have offb: "unat off < (2 ^ 31 - 3) * ?B" using bound by (simp add: word_le_nat_alt)
  then have small: "unat off < 2 ^ 63" by (simp add: DEFAULT_BLOCK_SIZE_def)
  define len1 where "len1 = (if off + len > ?max then ?max - off else len)"
  have len1: "unat len1 = min (unat len) (unat ?max - unat off)"
    unfolding len1_def using small len by (intro unat_clamp[OF _ max]) simp
  define len2 where "len2 = (if of_nat ?o + len1 > of_nat ?B then of_nat ?B - of_nat ?o else len1)"
  have uo: "unat (of_nat ?o :: u64) = ?o" "unat (of_nat ?B :: u64) = ?B" "?o < ?B"
    by (simp_all add: unat_of_nat64 DEFAULT_BLOCK_SIZE_def less_trans[OF mod_less_divisor])
  have "unat (of_nat ?o :: u64) + unat len1 < 2 ^ 64"
    using uo len len1 by (simp add: DEFAULT_BLOCK_SIZE_def)
  moreover have "of_nat ?o \<le> (of_nat ?B :: u64)" using uo by (simp add: word_le_nat_alt)
  ultimately have "unat len2 = min (unat len1) (?B - ?o)" unfolding len2_def using uo by (subst unat_clamp) simp_all
  then have len2: "unat len2 = ?p" by (simp only: len1 write_span_def)
  have fit: "?o + ?p \<le> ?B" using uo by (simp add: write_span_def)
  have sz: "unat (i_size fs) < 2 ^ 63"
    using ok bound by (simp add: onefs_ok_def word_le_nat_alt DEFAULT_BLOCK_SIZE_def)
  let ?c = "min ?p (length ubuf)"
  have c: "len2 - of_nat (?p - length ubuf) = of_nat ?c"
  proof -
    have "len2 = of_nat ?p" by (simp flip: len2)
    then show ?thesis by (cases "?p \<le> length ubuf") (simp_all add: of_nat_diff)
  qed
  have "unat off + ?c < 2 ^ 63" using offb fit by (simp add: DEFAULT_BLOCK_SIZE_def)
  then have off': "unat (off + of_nat ?c) < 2 ^ 63" by (simp add: unat_of_nat_add)
  have cmp: "sint (i_size fs) < sint (off + of_nat ?c) \<longleftrightarrow> unat (i_size fs) < unat (off + of_nat ?c)"
    unfolding sint_small[OF sz] sint_small[OF off'] by (rule of_nat_less_iff)
  have not1: "\<not> off > ?max" "\<not> off > i_size fs" using max off by simp_all
  have cnt: "int (?p - (?p - length ubuf)) = int ?c" by simp
  show ?thesis
    unfolding onefilefs_write_def Let_def block_offset_eq[OF small] block_index_eq[OF offb] uo(1)
      len1_def[symmetric] len2_def[symmetric] copy_from_user_def prod.case fst_conv len2 c cnt
    using b0 not1 fit by (simp add: put_data_def put_size_def touch_def sb_read_def cmp)
qed

section \<open>Captured blocks\<close>

lemma unat_data_block: "i < 2 ^ 63 \<Longrightarrow> unat (data_block i) = i div DEFAULT_BLOCK_SIZE + 2"
  unfolding data_block_def by (rule unat_of_nat64) (simp add: DEFAULT_BLOCK_SIZE_def)

lemma data_block_neq:
  assumes "i < 2 ^ 63"
  shows "data_block i \<noteq> SB_BLOCK_NUMBER" "data_block i \<noteq> SINGLEFILEFS_INODES_BLOCK_NUMBER"
    "SB_BLOCK_NUMBER \<noteq> SINGLEFILEFS_INODES_BLOCK_NUMBER"
  using unat_data_block[OF assms] by (auto simp: layout_defs)

lemma off_small:
  assumes "onefs_ok n fs" "off \<le> i_size fs"
  shows "unat off < 2 ^ 63"
  using max_file_size_bound[OF assms(1)] assms by (simp add: onefs_ok_def word_le_nat_alt DEFAULT_BLOCK_SIZE_def)

lemma length_copied [simp]: "length (fst (copy_from_user ubuf p)) = p"
  by (simp add: copy_from_user_def)

lemma bh_ok_the_bh: "length d = DEFAULT_BLOCK_SIZE \<Longrightarrow> bh_ok bdev (the_bh bdev b d)"
  by (simp add: bh_ok_def the_bh_def layout_defs)

lemma captured_touch [simp]:
  "captured_blocks z (touch bdev b old new @ evs) = (b, old) # captured_blocks old evs"
  "captured_blocks z (touch bdev b old new) = [(b, old)]"
  "captured_blocks z (sb_read bdev fs # evs) = captured_blocks (disk fs SB_BLOCK_NUMBER) evs"
  by (simp_all add: touch_def sb_read_def the_bh_def)

text \<open>What the events of one write are, and that the device stays well-formed.\<close>

definition write_traced :: "block_device \<Rightarrow> (u64 \<Rightarrow> bool) \<Rightarrow> nat \<Rightarrow> onefilefs \<Rightarrow> onefilefs \<Rightarrow> fs_event list \<Rightarrow> bool" where
  "write_traced bdev bread_ok n fs fs' evs \<longleftrightarrow>
     onefs_ok n fs' \<and> (\<forall>ev \<in> set evs. ev_ok bdev ev) \<and> length evs \<le> 5 \<and>
     (\<forall>z. captured_blocks z evs = captured_blocks [] evs) \<and>
     (\<forall>z. \<forall>(b, d) \<in> set (captured_blocks z evs). bread_ok b \<and> d = disk fs b) \<and>
     (\<forall>z b. b \<notin> fst ` set (captured_blocks z evs) \<longrightarrow> disk fs' b = disk fs b)"

lemma onefs_ok_put_data:
  assumes "onefs_ok n fs" "off < 2 ^ 63" "off mod DEFAULT_BLOCK_SIZE + length d \<le> DEFAULT_BLOCK_SIZE"
  shows "onefs_ok n (put_data off d fs)"
  using assms data_block_neq[OF assms(2)]
  by (auto simp: onefs_ok_def put_data_def length_write_at_inside)

lemma length_set_inode_file_size [simp]:
  "length b = DEFAULT_BLOCK_SIZE \<Longrightarrow> length (set_inode_file_size s b) = DEFAULT_BLOCK_SIZE"
  by (simp add: set_inode_file_size_def length_write_at_inside DEFAULT_BLOCK_SIZE_def)

lemma onefs_ok_put_size:
  assumes "onefs_ok n fs" "off \<le> sb_info_max_file_size (disk fs SB_BLOCK_NUMBER)"
  shows "onefs_ok n (put_size off fs)" "onefs_ok n (fs\<lparr>i_size := off\<rparr>)"
  using assms by (auto simp: onefs_ok_def put_size_def layout_defs)

lemma span_fits:
  "off mod DEFAULT_BLOCK_SIZE + write_span fs off len \<le> DEFAULT_BLOCK_SIZE"
  using mod_less_divisor[of DEFAULT_BLOCK_SIZE off] by (simp add: write_span_def DEFAULT_BLOCK_SIZE_def)

lemma span_below_max:
  "off \<le> unat (sb_info_max_file_size (disk fs SB_BLOCK_NUMBER)) \<Longrightarrow>
   off + write_span fs off len \<le> unat (sb_info_max_file_size (disk fs SB_BLOCK_NUMBER))"
  by (simp add: write_span_def)

lemma onefilefs_write_beyond:
  assumes "bread_ok SB_BLOCK_NUMBER" "\<not> off \<le> i_size fs"
  shows "onefilefs_write bdev bread_ok ubuf len off fs =
    Inr (if off > sb_info_max_file_size (disk fs SB_BLOCK_NUMBER) then - ENOMEM else 0, off, fs, [sb_read bdev fs])"
proof -
  have "off > i_size fs" using assms(2) by simp
  then show ?thesis using assms(1) by (simp add: onefilefs_write_def sb_read_def Let_def)
qed

lemma onefilefs_write_traced:
  assumes ok: "onefs_ok n fs" and len: "unat len < 2 ^ 63" and b0: "bread_ok SB_BLOCK_NUMBER"
  shows "\<exists>rv off' fs' evs. onefilefs_write bdev bread_ok ubuf len off fs = Inr (rv, off', fs', evs) \<and>
    write_traced bdev bread_ok n fs fs' evs"
proof (cases "off \<le> i_size fs")
  case False
  have "bh_ok bdev (the_bh bdev b (disk fs b))" for b using ok by (simp add: onefs_ok_def bh_ok_the_bh)
  with False ok show ?thesis
    by (simp add: onefilefs_write_beyond[where bread_ok = bread_ok, OF b0] write_traced_def sb_read_def)
next
  case True
  let ?p = "write_span fs (unat off) (unat len)" and ?b = "data_block (unat off)"
  let ?d = "fst (copy_from_user ubuf ?p)" and ?c = "min ?p (length ubuf)"
  let ?fs1 = "put_data (unat off) ?d fs" and ?off' = "off + of_nat ?c"
  note small = off_small[OF ok True]
  note neq = data_block_neq[OF small]
  have ok1: "onefs_ok n ?fs1" by (rule onefs_ok_put_data[OF ok small]) (simp add: span_fits)
  have max: "unat off \<le> unat (sb_info_max_file_size (disk fs SB_BLOCK_NUMBER))"
    using ok True by (simp add: onefs_ok_def word_le_nat_alt)
  have off': "unat ?off' = unat off + ?c"
    using small span_fits[of "unat off" fs "unat len"] by (intro unat_of_nat_add) (simp add: DEFAULT_BLOCK_SIZE_def)
  have "?off' \<le> sb_info_max_file_size (disk ?fs1 SB_BLOCK_NUMBER)"
    using span_below_max[OF max, of "unat len"] neq by (simp add: word_le_nat_alt off' put_data_def)
  note ok2 = onefs_ok_put_size[OF ok1 this]
  have bhs: "length (disk fs b) = DEFAULT_BLOCK_SIZE" "length (disk ?fs1 b) = DEFAULT_BLOCK_SIZE"
    "length (disk (put_size ?off' ?fs1) b) = DEFAULT_BLOCK_SIZE" for b
    using ok ok1 ok2 by (simp_all add: onefs_ok_def)
  have five: "length (touch bdev b old new) = 2" for b old new by (simp add: touch_def)
  have ev: "\<forall>ev \<in> set (sb_read bdev fs # touch bdev ?b (disk fs ?b) (disk ?fs1 ?b)). ev_ok bdev ev"
    "\<forall>ev \<in> set (touch bdev b (disk ?fs1 b) (disk (put_size ?off' ?fs1) b)). ev_ok bdev ev" for b
    by (simp_all add: sb_read_def touch_def bh_ok_the_bh bhs)
  have same: "b \<noteq> ?b \<Longrightarrow> disk ?fs1 b = disk fs b"
    "b \<noteq> SINGLEFILEFS_INODES_BLOCK_NUMBER \<Longrightarrow> disk (put_size ?off' ?fs1) b = disk ?fs1 b" for b
    by (simp_all add: put_data_def put_size_def)
  have inode: "disk ?fs1 SINGLEFILEFS_INODES_BLOCK_NUMBER = disk fs SINGLEFILEFS_INODES_BLOCK_NUMBER"
    using neq by (intro same) simp
  let ?evs = "sb_read bdev fs # touch bdev ?b (disk fs ?b) (disk ?fs1 ?b)"
  let ?evs' = "?evs @ touch bdev SINGLEFILEFS_INODES_BLOCK_NUMBER (disk ?fs1 SINGLEFILEFS_INODES_BLOCK_NUMBER)
                 (disk (put_size ?off' ?fs1) SINGLEFILEFS_INODES_BLOCK_NUMBER)"
  have t0: "write_traced bdev bread_ok n fs fs [sb_read bdev fs]"
    using ok ev by (simp add: write_traced_def sb_read_def[of bdev fs])
  have t1: "write_traced bdev bread_ok n fs ?fs1 ?evs" "write_traced bdev bread_ok n fs (?fs1\<lparr>i_size := ?off'\<rparr>) ?evs"
    if "bread_ok ?b"
    using that ok1 ok2 ev same by (simp_all add: write_traced_def five)
  have t2: "write_traced bdev bread_ok n fs (put_size ?off' ?fs1) ?evs'"
    if "bread_ok ?b" "bread_ok SINGLEFILEFS_INODES_BLOCK_NUMBER"
  proof -
    have cap: "captured_blocks z ?evs' = [(?b, disk fs ?b), (SINGLEFILEFS_INODES_BLOCK_NUMBER, disk ?fs1 SINGLEFILEFS_INODES_BLOCK_NUMBER)]" for z
      by (simp add: touch_def sb_read_def the_bh_def)
    have "\<forall>ev \<in> set ?evs'. ev_ok bdev ev" using ev by auto
    then show ?thesis unfolding write_traced_def cap using that ok2(1) same inode five by simp
  qed
  show ?thesis
    unfolding onefilefs_write_eq[where bread_ok = bread_ok, OF ok len b0 True] Let_def
    using t0 t1 t2 by simp
qed

text \<open>The blocks a write at \<open>off\<close> writes and marks dirty: the data block it falls into and, when the file has grown, the
  block of the inode; none when the write starts behind the end of the file, and only those that can be read.\<close>

definition blocks_written :: "(u64 \<Rightarrow> bool) \<Rightarrow> u64 \<Rightarrow> onefilefs \<Rightarrow> onefilefs \<Rightarrow> u64 list" where
  "blocks_written bread_ok off fs fs' =
     (if off \<le> i_size fs \<and> bread_ok (data_block (unat off))
      then data_block (unat off) #
        (if i_size fs < i_size fs' \<and> bread_ok SINGLEFILEFS_INODES_BLOCK_NUMBER then [SINGLEFILEFS_INODES_BLOCK_NUMBER] else [])
      else [])"

lemma onefilefs_write_blocks:
  assumes ok: "onefs_ok n fs" and len: "unat len < 2 ^ 63" and b0: "bread_ok SB_BLOCK_NUMBER"
    and w: "onefilefs_write bdev bread_ok ubuf len off fs = Inr (rv, off', fs', evs)"
  shows "captured_blocks z evs = map (\<lambda>b. (b, disk fs b)) (blocks_written bread_ok off fs fs')"
proof (cases "off \<le> i_size fs")
  case False
  then show ?thesis using w onefilefs_write_beyond[where bread_ok = bread_ok, OF b0 False, of bdev ubuf len]
    by (auto simp: blocks_written_def sb_read_def)
next
  case True
  note neq = data_block_neq[OF off_small[OF ok True]]
  have inode: "disk (put_data (unat off) d fs) SINGLEFILEFS_INODES_BLOCK_NUMBER = disk fs SINGLEFILEFS_INODES_BLOCK_NUMBER" for d
    using neq by (simp add: put_data_def)
  have sz: "i_size (put_data o' d fs) = i_size fs" "i_size (put_size off1 fs1) = off1" for o' d off1 fs1
    by (simp_all add: put_data_def put_size_def)
  show ?thesis
    using w inode sz True unfolding onefilefs_write_eq[where bread_ok = bread_ok, OF ok len b0 True] Let_def
    by (auto simp: blocks_written_def word_less_nat_alt sb_read_def[of bdev fs] split: if_splits)
qed

text \<open>C7: what a write hands to the probes: whatever the offset, the length and the user's buffer, a write
  to a well-formed file system with a readable superblock returns, keeps the file system well-formed, and the
  probes capture exactly the blocks it writes and marks dirty, in this order, each once and with its contents
  before the write: the data block and, when the file grows, the inode's (\<open>blocks_written\<close>; a data block is
  captured also when the bytes written are those it has). Every block whose contents change is among them.\<close>

theorem write_captures_preimages:
  assumes "onefs_ok n fs" "unat len < 2 ^ 63" "bread_ok SB_BLOCK_NUMBER"
  shows "\<exists>rv off' fs' evs. onefilefs_write bdev bread_ok ubuf len off fs = Inr (rv, off', fs', evs) \<and>
    onefs_ok n fs' \<and> (\<forall>ev \<in> set evs. ev_ok bdev ev) \<and>
    (\<forall>z. captured_blocks z evs = map (\<lambda>b. (b, disk fs b)) (blocks_written bread_ok off fs fs')) \<and>
    (\<forall>b. b \<notin> set (blocks_written bread_ok off fs fs') \<longrightarrow> disk fs' b = disk fs b)"
proof -
  from onefilefs_write_traced[where bread_ok = bread_ok, OF assms]
  obtain rv off' fs' evs where w: "onefilefs_write bdev bread_ok ubuf len off fs = Inr (rv, off', fs', evs)"
    and t: "write_traced bdev bread_ok n fs fs' evs" by blast
  note blocks = onefilefs_write_blocks[where bread_ok = bread_ok, OF assms w]
  from t blocks have "\<forall>b. b \<notin> set (blocks_written bread_ok off fs fs') \<longrightarrow> disk fs' b = disk fs b"
    by (simp add: write_traced_def image_image)
  with w t blocks show ?thesis by (simp add: write_traced_def)
qed

definition sample_onefs :: onefilefs where
  "sample_onefs = \<lparr>disk = (\<lambda>b. if b = SB_BLOCK_NUMBER then mkfs_sb (replicate 4064 0) 40960 else replicate 4096 0),
     i_size = 33\<rparr>"

lemma sample_max_file_size: "sb_info_max_file_size (disk sample_onefs SB_BLOCK_NUMBER) = 32768"
  by (simp add: sample_onefs_def sb_info_max_file_size_def mkfs_sb_def mkfs_max_file_size_def DEFAULT_BLOCK_SIZE_def
      signed_divide_int_def)

lemma sample_onefs_ok: "onefs_ok 10 sample_onefs"
proof -
  have "length (disk sample_onefs b) = DEFAULT_BLOCK_SIZE" for b
    by (simp add: sample_onefs_def mkfs_sb_def DEFAULT_BLOCK_SIZE_def)
  then show ?thesis using sample_max_file_size
    by (simp add: onefs_ok_def DEFAULT_BLOCK_SIZE_def) (simp add: sample_onefs_def)
qed

theorem write_captures_preimages_witness:
  "\<exists>rv off' fs' evs. onefilefs_write \<lparr>bd_dev = 1, bd_lo_file_name = []\<rparr> (\<lambda>_. True) [1, 2, 3] 3 0 sample_onefs =
     Inr (rv, off', fs', evs) \<and> onefs_ok 10 fs' \<and>
     captured_blocks [] evs = map (\<lambda>b. (b, disk sample_onefs b)) (blocks_written (\<lambda>_. True) 0 sample_onefs fs')"
  using write_captures_preimages[OF sample_onefs_ok, of 3 "\<lambda>_. True" "\<lparr>bd_dev = 1, bd_lo_file_name = []\<rparr>" "[1, 2, 3]" 0]
  by force

section \<open>The file\<close>

definition file_byte :: "onefilefs \<Rightarrow> nat \<Rightarrow> u8" where
  "file_byte fs i = disk fs (data_block i) ! (i mod DEFAULT_BLOCK_SIZE)"

definition file_view :: "onefilefs \<Rightarrow> bytes" where
  "file_view fs = map (file_byte fs) [0..<unat (i_size fs)]"

lemma data_block_eq_iff:
  assumes "i < 2 ^ 63" "j < 2 ^ 63"
  shows "data_block i = data_block j \<longleftrightarrow> i div DEFAULT_BLOCK_SIZE = j div DEFAULT_BLOCK_SIZE"
proof
  assume "data_block i = data_block j"
  then have "unat (data_block i) = unat (data_block j)" by simp
  then show "i div DEFAULT_BLOCK_SIZE = j div DEFAULT_BLOCK_SIZE" 
    unfolding unat_data_block[OF assms(1)] unat_data_block[OF assms(2)] by simp
qed (simp add: data_block_def)

lemma nth_write_at_inside:
  assumes "pos + length d \<le> length bs" "i < length bs"
  shows "write_at pos d bs ! i = (if pos \<le> i \<and> i < pos + length d then d ! (i - pos) else bs ! i)"
  using assms by (auto simp: write_at_inside nth_append)

lemma same_block_offset:
  assumes "i div DEFAULT_BLOCK_SIZE = j div DEFAULT_BLOCK_SIZE"
  shows "i mod DEFAULT_BLOCK_SIZE + j = j mod DEFAULT_BLOCK_SIZE + i"
  using div_mult_mod_eq[of i DEFAULT_BLOCK_SIZE, unfolded assms] div_mult_mod_eq[of j DEFAULT_BLOCK_SIZE] by linarith

lemma same_block_between:
  assumes "off \<le> i" "i < off + m" "off mod DEFAULT_BLOCK_SIZE + m \<le> DEFAULT_BLOCK_SIZE"
  shows "i div DEFAULT_BLOCK_SIZE = off div DEFAULT_BLOCK_SIZE"
proof -
  have "i = off div DEFAULT_BLOCK_SIZE * DEFAULT_BLOCK_SIZE + (off mod DEFAULT_BLOCK_SIZE + (i - off))"
    using assms(1) div_mult_mod_eq[of off DEFAULT_BLOCK_SIZE] by simp
  moreover have "off mod DEFAULT_BLOCK_SIZE + (i - off) < DEFAULT_BLOCK_SIZE" using assms by simp
  ultimately show ?thesis by (metis div_mult_self3 div_less add.right_neutral add.commute less_nat_zero_code)
qed

lemma file_byte_put_data:
  assumes "\<forall>b. length (disk fs b) = DEFAULT_BLOCK_SIZE" "off < 2 ^ 63" "i < 2 ^ 63"
    and "off mod DEFAULT_BLOCK_SIZE + length d \<le> DEFAULT_BLOCK_SIZE"
  shows "file_byte (put_data off d fs) i = (if off \<le> i \<and> i < off + length d then d ! (i - off) else file_byte fs i)"
proof (cases "i div DEFAULT_BLOCK_SIZE = off div DEFAULT_BLOCK_SIZE")
  case True
  let ?o = "off mod DEFAULT_BLOCK_SIZE" and ?i = "i mod DEFAULT_BLOCK_SIZE"
  note eq = same_block_offset[OF True]
  have b: "data_block i = data_block off" using True assms by (simp add: data_block_eq_iff)
  have "?i < DEFAULT_BLOCK_SIZE" by (simp add: DEFAULT_BLOCK_SIZE_def)
  then have "write_at ?o d (disk fs (data_block off)) ! ?i =
      (if ?o \<le> ?i \<and> ?i < ?o + length d then d ! (?i - ?o) else disk fs (data_block off) ! ?i)"
    using assms(1,4) by (intro nth_write_at_inside) simp_all
  moreover have "(?o \<le> ?i \<and> ?i < ?o + length d) = (off \<le> i \<and> i < off + length d)" using eq by auto
  moreover have "off \<le> i \<Longrightarrow> ?i - ?o = i - off" using eq by auto
  ultimately show ?thesis by (simp add: file_byte_def put_data_def b)
next
  case False
  then have "data_block i \<noteq> data_block off" using assms by (simp add: data_block_eq_iff)
  moreover have "\<not> (off \<le> i \<and> i < off + length d)" using False same_block_between[OF _ _ assms(4)] by blast
  ultimately show ?thesis by (auto simp: file_byte_def put_data_def)
qed

lemma file_byte_put_size: "i < 2 ^ 63 \<Longrightarrow> file_byte (put_size s fs) i = file_byte fs i"
  using data_block_neq(2)[of i] by (simp add: file_byte_def put_size_def)

lemma file_view_put_data:
  assumes "onefs_ok n fs" "off \<le> unat (i_size fs)" "off mod DEFAULT_BLOCK_SIZE + length d \<le> DEFAULT_BLOCK_SIZE"
    and "s < 2 ^ 63" "unat (i_size fs) \<le> s" "s = max (unat (i_size fs)) (off + length d)"
  shows "map (file_byte (put_data off d fs)) [0..<s] = write_at off d (file_view fs)"
proof (rule nth_equalityI)
  have len: "length (write_at off d (file_view fs)) = s" using assms(2,6)
    by (auto simp: write_at_def file_view_def)
  then show "length (map (file_byte (put_data off d fs)) [0..<s]) = length (write_at off d (file_view fs))" by simp
  fix i assume "i < length (map (file_byte (put_data off d fs)) [0..<s])"
  then have i: "i < s" "i < 2 ^ 63" using assms(4) by simp_all
  have "write_at off d (file_view fs) ! i =
      (if off \<le> i \<and> i < off + length d then d ! (i - off) else file_byte fs i)"
    using i(1) assms(2,6) by (auto simp: write_at_def file_view_def nth_append not_less)
  then show "map (file_byte (put_data off d fs)) [0..<s] ! i = write_at off d (file_view fs) ! i"
    using file_byte_put_data[OF _ _ i(2) assms(3), of fs] assms(1,2,4,5) i by (simp add: onefs_ok_def)
qed

lemma onefilefs_write_refines:
  assumes ok: "onefs_ok n fs" and len: "unat len < 2 ^ 63" and b: "\<forall>b. bread_ok b" and off: "off \<le> i_size fs"
    and buf: "unat len \<le> length ubuf"
  defines "r \<equiv> write_span fs (unat off) (unat len)"
  shows "\<exists>fs' evs. onefilefs_write bdev bread_ok ubuf len off fs = Inr (int r, off + of_nat r, fs', evs) \<and>
    onefs_ok n fs' \<and> unat (off + of_nat r) = unat off + r \<and>
    disk fs' SB_BLOCK_NUMBER = disk fs SB_BLOCK_NUMBER \<and> off + of_nat r \<le> i_size fs' \<and>
    file_view fs' = write_at (unat off) (take r ubuf) (file_view fs)"
proof -
  let ?d = "fst (copy_from_user ubuf r)" and ?off' = "off + of_nat r"
  let ?fs1 = "put_data (unat off) ?d fs"
  have "r \<le> unat len" by (simp add: r_def write_span_def)
  then have d: "?d = take r ubuf" and min: "min r (length ubuf) = r" using buf by (simp_all add: copy_from_user_def)
  have fit: "unat off mod DEFAULT_BLOCK_SIZE + r \<le> DEFAULT_BLOCK_SIZE" by (simp add: r_def span_fits)
  note small = off_small[OF ok off] off_small[OF ok order_refl]
  have off': "unat ?off' = unat off + r"
    using small fit by (intro unat_of_nat_add) (simp add: DEFAULT_BLOCK_SIZE_def)
  have max: "unat off + r \<le> unat (sb_info_max_file_size (disk fs SB_BLOCK_NUMBER))"
    unfolding r_def using ok off by (intro span_below_max) (auto simp: onefs_ok_def word_le_nat_alt)
  have max': "unat off + r < 2 ^ 63"
    using le_less_trans[OF max max_file_size_bound[OF ok]] by (simp add: DEFAULT_BLOCK_SIZE_def)
  note neq = data_block_neq[OF small(1)]
  have ok1: "onefs_ok n ?fs1" by (rule onefs_ok_put_data[OF ok small(1)]) (simp add: fit)
  have sb: "disk ?fs1 SB_BLOCK_NUMBER = disk fs SB_BLOCK_NUMBER" using neq by (simp add: put_data_def)
  have ok2: "onefs_ok n (put_size ?off' ?fs1)"
    by (rule onefs_ok_put_size[OF ok1]) (simp add: sb word_le_nat_alt off' max)
  note wr = onefilefs_write_eq[where bread_ok = bread_ok and ubuf = ubuf, OF ok len _ off, folded r_def, unfolded Let_def min]
  have view: "map (file_byte ?fs1) [0..<s] = write_at (unat off) ?d (file_view fs)"
    if "s = max (unat (i_size fs)) (unat off + r)" for s
    using small(2) max' that fit off
    by (intro file_view_put_data[OF ok]) (simp_all add: word_le_nat_alt)
  show ?thesis
  proof (cases "unat (i_size fs) < unat ?off'")
    case True
    have "file_view (put_size ?off' ?fs1) = map (file_byte ?fs1) [0..<unat off + r]"
      using max' by (simp add: file_view_def put_size_def[of ?off'] off' file_byte_put_size[unfolded put_size_def])
    also have "\<dots> = write_at (unat off) ?d (file_view fs)" by (rule view) (use True off' in simp)
    finally have "file_view (put_size ?off' ?fs1) = write_at (unat off) (take r ubuf) (file_view fs)" by (simp only: d)
    then show ?thesis using True b ok2 off' sb neq by (simp add: wr) (simp add: put_size_def)
  next
    case False
    have "file_view ?fs1 = map (file_byte ?fs1) [0..<unat (i_size fs)]" by (simp add: file_view_def put_data_def)
    also have "\<dots> = write_at (unat off) ?d (file_view fs)" by (rule view) (use False off' in simp)
    finally have "file_view ?fs1 = write_at (unat off) (take r ubuf) (file_view fs)" by (simp only: d)
    then show ?thesis using False b ok1 off' sb
      by (simp add: wr word_le_nat_alt[of ?off']) (simp add: put_data_def)
  qed
qed

lemma onefilefs_read_eq:
  fixes off :: u64
  assumes ok: "onefs_ok n fs" and len: "unat len < 2 ^ 63" and b: "\<forall>b. bread_ok b" and room: "unat len \<le> room"
  defines "r \<equiv> min (min (unat len) (unat (i_size fs) - unat off)) (DEFAULT_BLOCK_SIZE - unat off mod DEFAULT_BLOCK_SIZE)"
  shows "\<exists>evs. onefilefs_read bdev bread_ok room len off fs =
    Inr (int r, off + of_nat r, take r (drop (unat off) (file_view fs)), evs)"
proof (cases "off \<ge> i_size fs")
  case True
  then show ?thesis by (simp add: onefilefs_read_def r_def word_le_nat_alt)
next
  case False
  let ?B = DEFAULT_BLOCK_SIZE
  let ?o = "unat off mod ?B"
  from False have off: "off \<le> i_size fs" and lt: "off < i_size fs" by simp_all
  note small = off_small[OF ok off]
  have offb: "unat off < (2 ^ 31 - 3) * ?B"
    using max_file_size_bound[OF ok] ok off by (auto simp: onefs_ok_def word_le_nat_alt)
  define len1 where "len1 = (if off + len > i_size fs then i_size fs - off else len)"
  have len1: "unat len1 = min (unat len) (unat (i_size fs) - unat off)"
    unfolding len1_def using small len by (intro unat_clamp[OF _ off]) simp
  define len2 where "len2 = (if of_nat ?o + len1 > of_nat ?B then of_nat ?B - of_nat ?o else len1)"
  have uo: "unat (of_nat ?o :: u64) = ?o" "unat (of_nat ?B :: u64) = ?B" "?o < ?B"
    by (simp_all add: unat_of_nat64 DEFAULT_BLOCK_SIZE_def less_trans[OF mod_less_divisor])
  have "unat (of_nat ?o :: u64) + unat len1 < 2 ^ 64" using uo len len1 by (simp add: DEFAULT_BLOCK_SIZE_def)
  moreover have "of_nat ?o \<le> (of_nat ?B :: u64)" using uo by (simp add: word_le_nat_alt)
  ultimately have "unat len2 = min (unat len1) (?B - ?o)" unfolding len2_def using uo by (subst unat_clamp) simp_all
  then have len2: "unat len2 = r" by (simp only: len1 r_def)
  have fit: "?o + r \<le> ?B" using uo by (simp add: r_def)
  have blk: "length (disk fs (data_block (unat off))) = ?B" using ok by (simp add: onefs_ok_def)
  have data: "take r (drop ?o (disk fs (data_block (unat off)))) = take r (drop (unat off) (file_view fs))"
  proof (rule nth_equalityI)
    show "length (take r (drop ?o (disk fs (data_block (unat off))))) = length (take r (drop (unat off) (file_view fs)))"
      using fit blk by (simp add: file_view_def r_def)
    fix i assume "i < length (take r (drop ?o (disk fs (data_block (unat off)))))"
    then have i: "i < r" by simp
    have "(unat off + i) div ?B = unat off div ?B" using i fit by (intro same_block_between[of _ _ r]) simp_all
    then have "data_block (unat off + i) = data_block (unat off)" "(unat off + i) mod ?B = ?o + i"
      using same_block_offset[of "unat off + i" "unat off"] by (simp_all add: data_block_def)
    moreover have "unat off + i < unat (i_size fs)" using i by (simp add: r_def less_diff_conv add.commute)
    ultimately show "take r (drop ?o (disk fs (data_block (unat off)))) ! i = take r (drop (unat off) (file_view fs)) ! i"
      using i fit blk by (simp add: file_view_def file_byte_def)
  qed
  have "r \<le> room" using room by (simp add: r_def)
  moreover have "length (take r (drop (unat off) (file_view fs))) = r" using lt by (auto simp: file_view_def r_def)
  moreover have "len2 = of_nat r" by (simp flip: len2)
  ultimately show ?thesis
    unfolding onefilefs_read_def Let_def block_offset_eq[OF small] block_index_eq[OF offb] uo(1)
      len1_def[symmetric] len2_def[symmetric] copy_to_user_def prod.case len2 data
    using b fit False by simp
qed

text \<open>C15: the file system refines a file, a sequence of bytes: a write within the file that finds its blocks
  readable puts the first \<open>r\<close> bytes of the user's buffer at the offset, extending the file if it must, where
  \<open>r\<close> is the length cut at the limit of the file and the end of the block, and reading at any offset then
  returns the bytes of the new file there, again up to the end of the block.\<close>

theorem onefilefs_refines_file:
  assumes "onefs_ok n fs" "unat len < 2 ^ 63" "\<forall>b. bread_ok b" "off \<le> i_size fs" "unat len \<le> length ubuf"
    and "unat len' < 2 ^ 63" "unat len' \<le> room"
  shows "\<exists>r fs' evs. r = write_span fs (unat off) (unat len) \<and>
    onefilefs_write bdev bread_ok ubuf len off fs = Inr (int r, off + of_nat r, fs', evs) \<and>
    file_view fs' = write_at (unat off) (take r ubuf) (file_view fs) \<and>
    (\<exists>r' evs'. r' = min (min (unat len') (length (file_view fs') - unat off')) (DEFAULT_BLOCK_SIZE - unat off' mod DEFAULT_BLOCK_SIZE) \<and>
      onefilefs_read bdev bread_ok room len' off' fs' =
        Inr (int r', off' + of_nat r', take r' (drop (unat off') (file_view fs')), evs'))"
proof -
  let ?r = "write_span fs (unat off) (unat len)"
  obtain fs' evs where w: "onefilefs_write bdev bread_ok ubuf len off fs = Inr (int ?r, off + of_nat ?r, fs', evs)"
      "onefs_ok n fs'" "file_view fs' = write_at (unat off) (take ?r ubuf) (file_view fs)"
    using onefilefs_write_refines[where bread_ok = bread_ok, OF assms(1-5)] by blast
  have "length (file_view fs') = unat (i_size fs')" by (simp add: file_view_def)
  with w onefilefs_read_eq[where bread_ok = bread_ok, OF w(2) assms(6,3,7)] show ?thesis by metis
qed

lemma sample_file_view: "file_view sample_onefs = replicate 33 0"
proof (rule nth_equalityI)
  have size: "unat (i_size sample_onefs) = 33" by (simp add: sample_onefs_def)
  then show "length (file_view sample_onefs) = length (replicate 33 (0 :: u8))" by (simp add: file_view_def)
  fix i assume "i < length (file_view sample_onefs)"
  then have i: "i < 33" by (simp add: file_view_def size)
  then have "data_block i \<noteq> SB_BLOCK_NUMBER" by (intro data_block_neq) simp
  then show "file_view sample_onefs ! i = replicate 33 0 ! i"
    using i by (simp add: file_view_def size file_byte_def) (simp add: sample_onefs_def DEFAULT_BLOCK_SIZE_def)
qed

theorem onefilefs_refines_file_witness:
  "\<exists>fs' evs evs'. onefilefs_write \<lparr>bd_dev = 1, bd_lo_file_name = []\<rparr> (\<lambda>_. True) [1, 2, 3] 3 33 sample_onefs =
      Inr (3, 36, fs', evs) \<and> file_view fs' = replicate 33 0 @ [1, 2, 3] \<and>
    onefilefs_read \<lparr>bd_dev = 1, bd_lo_file_name = []\<rparr> (\<lambda>_. True) 10 10 32 fs' = Inr (4, 36, [0, 1, 2, 3], evs')"
proof -
  let ?dev = "\<lparr>bd_dev = 1, bd_lo_file_name = []\<rparr> :: block_device"
  have span: "write_span sample_onefs (unat (33 :: u64)) (unat (3 :: u64)) = 3"
    by (simp add: write_span_def sample_max_file_size DEFAULT_BLOCK_SIZE_def)
  have le: "(33 :: u64) \<le> i_size sample_onefs" by (simp add: sample_onefs_def)
  have "\<exists>r fs' evs. r = 3 \<and>
    onefilefs_write ?dev (\<lambda>_. True) [1, 2, 3] 3 33 sample_onefs = Inr (int r, 33 + of_nat r, fs', evs) \<and>
    file_view fs' = write_at (unat (33 :: u64)) (take r [1, 2, 3]) (file_view sample_onefs) \<and>
    (\<exists>r' evs'. r' = min (min (unat (10 :: u64)) (length (file_view fs') - unat (32 :: u64)))
        (DEFAULT_BLOCK_SIZE - unat (32 :: u64) mod DEFAULT_BLOCK_SIZE) \<and>
      onefilefs_read ?dev (\<lambda>_. True) 10 10 32 fs' =
        Inr (int r', 32 + of_nat r', take r' (drop (unat (32 :: u64)) (file_view fs')), evs'))"
    using onefilefs_refines_file[OF sample_onefs_ok _ _ le, of 3 "\<lambda>_. True" "[1, 2, 3]" 10 10 ?dev 32] span by simp
  then obtain fs' evs r' evs' where
    w: "onefilefs_write ?dev (\<lambda>_. True) [1, 2, 3] 3 33 sample_onefs = Inr (3, 36, fs', evs)"
    and v: "file_view fs' = write_at 33 [1, 2, 3] (file_view sample_onefs)"
    and r': "r' = min (min 10 (length (file_view fs') - 32)) (DEFAULT_BLOCK_SIZE - 32 mod DEFAULT_BLOCK_SIZE)"
    and r: "onefilefs_read ?dev (\<lambda>_. True) 10 10 32 fs' = Inr (int r', 32 + of_nat r', take r' (drop 32 (file_view fs')), evs')"
    by auto
  have v': "file_view fs' = replicate 33 0 @ [1, 2, 3]" by (simp add: v sample_file_view write_at_def)
  then have "r' = 4" by (simp add: r' DEFAULT_BLOCK_SIZE_def)
  with w r v' show ?thesis by simp
qed

section \<open>The other operations\<close>

text \<open>two errors of the device are fatal: when the superblock cannot be read, a write deadlocks on the
  inode's lock (\<open>inode_lock\<close> where \<open>inode_unlock\<close> is meant), whatever it was asked to do, and mounting
  dereferences NULL (the test after \<open>sb_bread\<close> looks at \<open>sb\<close>); every other failing block read gives \<open>-EIO\<close>
  and captures nothing.\<close>

theorem onefilefs_superblock_error:
  assumes "onefs_ok n fs" "unat len < 2 ^ 63" "off \<le> i_size fs"
  shows "(\<not> bread_ok SB_BLOCK_NUMBER \<longrightarrow> onefilefs_write bdev bread_ok ubuf len off fs = Inl Hang) \<and>
    singlefilefs_fill_super None iget_ok make_root_ok = Inl NullDeref \<and>
    (bread_ok SB_BLOCK_NUMBER \<and> \<not> bread_ok (data_block (unat off)) \<longrightarrow>
      (\<exists>evs. onefilefs_write bdev bread_ok ubuf len off fs = Inr (- EIO, off, fs, evs) \<and> (\<forall>z. captured_blocks z evs = [])))"
proof -
  have "captured_blocks z [sb_read bdev fs] = []" for z by (simp add: sb_read_def)
  then show ?thesis
    using onefilefs_write_eq[where bread_ok = bread_ok, OF assms(1,2) _ assms(3), of bdev ubuf]
    by (simp add: Let_def) (simp add: onefilefs_write_def singlefilefs_fill_super_def)
qed

theorem onefilefs_superblock_error_witness:
  "onefilefs_write \<lparr>bd_dev = 1, bd_lo_file_name = []\<rparr> (\<lambda>b. b \<noteq> 0) [1, 2, 3] 3 0 sample_onefs = Inl Hang"
  using onefilefs_superblock_error[OF sample_onefs_ok, of 3 0 "\<lambda>b. b \<noteq> 0"] by (simp add: SB_BLOCK_NUMBER_def)

text \<open>Calling \<open>onefilefs_iterate\<close> again and again, with buffers that accept \<open>rooms\<close> entries.\<close>

definition dir_entries :: "dirent list" where
  "dir_entries = [(''.'', FILENAME_MAXLEN, SINGLEFILEFS_ROOT_INODE_NUMBER), (''..'', FILENAME_MAXLEN, 1),
     (UNIQUE_FILE_NAME, FILENAME_MAXLEN, SINGLEFILEFS_FILE_INODE_NUMBER)]"

fun readdir :: "nat list \<Rightarrow> nat \<Rightarrow> dirent list" where
  "readdir [] pos = []"
| "readdir (room # rooms) pos = (let (pos', out) = onefilefs_iterate room pos in out @ readdir rooms pos')"

lemma onefilefs_iterate_eq:
  "pos \<le> 3 \<Longrightarrow> onefilefs_iterate room pos = (min 3 (pos + room), take room (drop pos dir_entries))"
  by (cases room; cases "room - 1"; cases "room - 2")
    (auto simp: onefilefs_iterate_def iterate_from_def dir_entries_def Let_def numeral_eq_Suc le_Suc_eq)

lemma readdir_from:
  "pos \<le> 3 \<Longrightarrow> readdir rooms pos = take (sum_list rooms) (drop pos dir_entries)"
proof (induction rooms arbitrary: pos)
  case (Cons r rooms)
  have l: "length dir_entries = 3" by (simp add: dir_entries_def)
  show ?case
  proof (cases "pos + r \<le> 3")
    case True
    then show ?thesis using Cons by (simp add: onefilefs_iterate_eq take_add add.commute min_def)
  next
    case False
    then show ?thesis using Cons l by (simp add: onefilefs_iterate_eq)
  qed
qed simp

text \<open>listing the directory emits \<open>.\<close>, \<open>..\<close> and the file once each and in this order, however the entries
  are split over the calls: calls that accept the numbers \<open>rooms\<close> of entries emit the first
  \<open>sum_list rooms\<close> of the three, and nothing after them. Each is emitted with \<open>FILENAME_MAXLEN\<close> as the length of
  its name, more than the bytes of the name and its NUL, so that \<open>dir_emit\<close> reads beyond it.\<close>

theorem onefilefs_readdir:
  "readdir rooms 0 = take (sum_list rooms) dir_entries \<and>
   map fst dir_entries = [''.'', ''..'', ''the-file''] \<and>
   list_all (\<lambda>(name, namelen, ino). length name + 1 < namelen) dir_entries"
  by (simp add: readdir_from) (simp add: dir_entries_def UNIQUE_FILE_NAME_def FILENAME_MAXLEN_def)

section \<open>A new file system\<close>

text \<open>The file system on a device of \<open>n\<close> blocks, as it is after mounting and looking up the file.\<close>

definition load_onefs :: "nat \<Rightarrow> bytes \<Rightarrow> onefilefs" where
  "load_onefs n dev =
     \<lparr>disk = (\<lambda>b. if unat b < n then dev_block DEFAULT_BLOCK_SIZE dev (unat b) else replicate DEFAULT_BLOCK_SIZE 0),
      i_size = inode_file_size (dev_block DEFAULT_BLOCK_SIZE dev 1)\<rparr>"

lemma mkfs_sb_fields:
  "sb_info_magic (mkfs_sb junk st) = ONEFILEFS_MAGIC"
  "length junk = 4064 \<Longrightarrow> sb_info_max_file_size (mkfs_sb junk st) = mkfs_max_file_size st"
  "length junk = 4064 \<Longrightarrow> length (mkfs_sb junk st) = 4096"
  by (simp_all add: sb_info_magic_def sb_info_max_file_size_def mkfs_sb_def)

lemma mkfs_inode_fields:
  assumes "length junk = 12"
  shows "inode_file_size (mkfs_inode junk @ r) = 33" "length (mkfs_inode junk) = 32"
  using assms by (simp_all add: inode_file_size_def mkfs_inode_def default_body_def)

lemma mkfs_write_next:
  assumes "r = int (length d)" "pos = length pre" "length d \<le> length rest"
  shows "mkfs_write r d (pos, pre @ rest) = Inr (length (pre @ d), (pre @ d) @ drop (length d) rest)"
  using assms by (simp add: mkfs_write_def write_at_inside)

lemma mkfs_main_writes:
  assumes "length sb_junk = 4064" "length inode_junk = 12" "length pad = 4064" "8225 \<le> length dev"
    and "wres 0 = 4096" "wres 1 = 32" "wres 2 = 4064" "wres 3 = 33"
  shows "mkfs_main sb_junk inode_junk (Some pad) True (Some st) wres dev =
    (0, mkfs_sb sb_junk st @ mkfs_inode inode_junk @ pad @ default_body @ drop 8225 dev)"
proof -
  let ?sb = "mkfs_sb sb_junk st" and ?in = "mkfs_inode inode_junk"
  have l: "length default_body = 33" "length ?sb = 4096" "length ?in = 32"
    using assms by (simp_all add: default_body_def mkfs_sb_fields mkfs_inode_fields)
  have "mkfs_write (wres 0) ?sb (0, [] @ dev) = Inr (length ([] @ ?sb), ([] @ ?sb) @ drop (length ?sb) dev)"
    using assms l by (intro mkfs_write_next) simp_all
  moreover have "mkfs_write (wres 1) ?in (length ?sb, ?sb @ drop 4096 dev) =
      Inr (length (?sb @ ?in), (?sb @ ?in) @ drop (length ?in) (drop 4096 dev))"
    using assms l by (intro mkfs_write_next) simp_all
  moreover have "mkfs_write (wres 2) pad (length (?sb @ ?in), (?sb @ ?in) @ drop 4128 dev) =
      Inr (length ((?sb @ ?in) @ pad), ((?sb @ ?in) @ pad) @ drop (length pad) (drop 4128 dev))"
    using assms l by (intro mkfs_write_next) simp_all
  moreover have "mkfs_write (wres 3) default_body (length ((?sb @ ?in) @ pad), ((?sb @ ?in) @ pad) @ drop 8192 dev) =
      Inr (length (((?sb @ ?in) @ pad) @ default_body), (((?sb @ ?in) @ pad) @ default_body) @ drop (length default_body) (drop 8192 dev))"
    using assms l by (intro mkfs_write_next) simp_all
  ultimately show ?thesis using assms l by (simp add: mkfs_main_def)
qed

lemma mkfs_max_file_size_eq:
  assumes "2 \<le> n" "n < 2 ^ 31"
  shows "unat (mkfs_max_file_size (int (n * DEFAULT_BLOCK_SIZE))) = (n - 2) * DEFAULT_BLOCK_SIZE"
proof -
  have "(int (n * DEFAULT_BLOCK_SIZE) sdiv int DEFAULT_BLOCK_SIZE - 2) * int DEFAULT_BLOCK_SIZE = int ((n - 2) * DEFAULT_BLOCK_SIZE)"
    using assms(1) unfolding sdiv_nonneg by (simp add: DEFAULT_BLOCK_SIZE_def of_nat_diff)
  then have "mkfs_max_file_size (int (n * DEFAULT_BLOCK_SIZE)) = of_nat ((n - 2) * DEFAULT_BLOCK_SIZE)"
    by (simp only: mkfs_max_file_size_def of_int_of_nat_eq)
  then show ?thesis using assms by (simp add: unat_of_nat64 DEFAULT_BLOCK_SIZE_def del: of_nat_mult)
qed

lemma length_dev_block: "(i + 1) * z \<le> length dev \<Longrightarrow> length (dev_block z dev i) = z"
  by (simp add: dev_block_def algebra_simps)

text \<open>C29: making a file system on an image of \<open>n\<close> blocks, when no call fails, leaves an image that can be
  mounted and is well-formed: its limit is the image's size less the two blocks of metadata, and its file
  holds the default text. On a block device, whose \<open>st_size\<close> is 0, the limit wraps around and lies far
  beyond the device.\<close>

theorem mkfs_mountable:
  assumes "length sb_junk = 4064" "length inode_junk = 12" "length pad = 4064"
    and "length dev = n * DEFAULT_BLOCK_SIZE" "3 \<le> n" "n < 2 ^ 31 - 1"
    and "wres 0 = 4096" "wres 1 = 32" "wres 2 = 4064" "wres 3 = 33"
  shows "(\<exists>dev'. mkfs_main sb_junk inode_junk (Some pad) True (Some (int (length dev))) wres dev = (0, dev') \<and>
      length dev' = length dev \<and>
      singlefilefs_fill_super (Some (dev_block DEFAULT_BLOCK_SIZE dev' 0)) True True = Inr 0 \<and>
      onefs_ok n (load_onefs n dev') \<and>
      unat (sb_info_max_file_size (dev_block DEFAULT_BLOCK_SIZE dev' 0)) = (n - 2) * DEFAULT_BLOCK_SIZE \<and>
      file_view (load_onefs n dev') = default_body) \<and>
    mkfs_max_file_size 0 = 2 ^ 64 - 8192"
proof (intro conjI exI)
  let ?dev' = "mkfs_sb sb_junk (int (length dev)) @ mkfs_inode inode_junk @ pad @ default_body @ drop 8225 dev"
  let ?fs = "load_onefs n ?dev'"
  note fields = mkfs_sb_fields(1) mkfs_sb_fields(2,3)[OF assms(1)] mkfs_inode_fields[OF assms(2)]
  have body: "length default_body = 33" by (simp add: default_body_def)
  have big: "8225 \<le> length dev" using assms(4,5) by (simp add: DEFAULT_BLOCK_SIZE_def)
  show "mkfs_main sb_junk inode_junk (Some pad) True (Some (int (length dev))) wres dev = (0, ?dev')"
    by (rule mkfs_main_writes[OF assms(1-3) big assms(7-10)])
  show len: "length ?dev' = length dev" using big by (simp add: fields assms(3) body)
  have b0: "dev_block DEFAULT_BLOCK_SIZE ?dev' 0 = mkfs_sb sb_junk (int (length dev))"
    by (simp add: dev_block_def DEFAULT_BLOCK_SIZE_def fields)
  show "singlefilefs_fill_super (Some (dev_block DEFAULT_BLOCK_SIZE ?dev' 0)) True True = Inr 0"
    unfolding b0 by (simp add: singlefilefs_fill_super_def fields)
  show max: "unat (sb_info_max_file_size (dev_block DEFAULT_BLOCK_SIZE ?dev' 0)) = (n - 2) * DEFAULT_BLOCK_SIZE"
    unfolding b0 using mkfs_max_file_size_eq[of n] assms(4,5,6) by (simp add: fields)
  have "dev_block DEFAULT_BLOCK_SIZE ?dev' 1 = mkfs_inode inode_junk @ pad"
    by (simp add: dev_block_def DEFAULT_BLOCK_SIZE_def fields assms(3))
  then have size: "i_size ?fs = 33" by (simp add: load_onefs_def fields)
  have blocks: "length (disk ?fs b) = DEFAULT_BLOCK_SIZE" for b
  proof (cases "unat b < n")
    case True
    then have "(unat b + 1) * DEFAULT_BLOCK_SIZE \<le> n * DEFAULT_BLOCK_SIZE" by (intro mult_right_mono) simp_all
    then have "length (dev_block DEFAULT_BLOCK_SIZE ?dev' (unat b)) = DEFAULT_BLOCK_SIZE"
      unfolding trans[OF len assms(4), symmetric] by (rule length_dev_block)
    with True show ?thesis by (simp add: load_onefs_def)
  qed (simp add: load_onefs_def)
  have d0: "disk ?fs SB_BLOCK_NUMBER = dev_block DEFAULT_BLOCK_SIZE ?dev' 0"
    using assms(5) by (simp add: load_onefs_def SB_BLOCK_NUMBER_def)
  show "onefs_ok n ?fs"
    using assms(5,6) max blocks size unfolding onefs_ok_def d0 word_le_nat_alt
    by (simp add: DEFAULT_BLOCK_SIZE_def)
  have "disk ?fs (data_block i) = dev_block DEFAULT_BLOCK_SIZE ?dev' 2" if "i < 33" for i
  proof -
    have "unat (data_block i) = 2" using that unat_data_block[of i] by (simp add: DEFAULT_BLOCK_SIZE_def)
    then show ?thesis using assms(5) by (simp add: load_onefs_def)
  qed
  moreover have "dev_block DEFAULT_BLOCK_SIZE ?dev' 2 ! i = default_body ! i" if "i < 33" for i
    using that by (simp add: dev_block_def DEFAULT_BLOCK_SIZE_def fields assms(3) body nth_append)
  ultimately have "file_byte ?fs i = default_body ! i" if "i < 33" for i
    using that by (simp add: file_byte_def DEFAULT_BLOCK_SIZE_def)
  then show "file_view ?fs = default_body" by (intro nth_equalityI) (simp_all add: file_view_def size body)
  show "mkfs_max_file_size 0 = 2 ^ 64 - 8192" by (simp add: mkfs_max_file_size_def DEFAULT_BLOCK_SIZE_def signed_divide_int_def)
qed

theorem mkfs_mountable_witness:
  "\<exists>dev'. mkfs_main (replicate 4064 7) (replicate 12 7) (Some (replicate 4064 7)) True
      (Some (int (length (replicate (5 * DEFAULT_BLOCK_SIZE) (0 :: u8))))) (\<lambda>i. [4096, 32, 4064, 33] ! i)
      (replicate (5 * DEFAULT_BLOCK_SIZE) 0) = (0, dev') \<and> onefs_ok 5 (load_onefs 5 dev')"
proof -
  let ?wres = "\<lambda>i. [4096, 32, 4064, 33 :: int] ! i"
  have "length (replicate 4064 (7 :: u8)) = 4064" "length (replicate 12 (7 :: u8)) = 12"
    "length (replicate (5 * DEFAULT_BLOCK_SIZE) (0 :: u8)) = 5 * DEFAULT_BLOCK_SIZE" "?wres 0 = 4096" "?wres 1 = 32"
    "?wres 2 = 4064" "?wres 3 = 33" by simp_all
  from mkfs_mountable[of _ _ _ _ 5 ?wres, OF this(1,2,1,3) _ _ this(4-7)] show ?thesis by auto
qed

text \<open>The size on the device is the size in the cached inode after every complete write.\<close>

definition synced :: "onefilefs \<Rightarrow> bool" where
  "synced fs \<longleftrightarrow> inode_file_size (disk fs SINGLEFILEFS_INODES_BLOCK_NUMBER) = i_size fs"

lemma inode_file_size_set:
  "length b = DEFAULT_BLOCK_SIZE \<Longrightarrow> inode_file_size (set_inode_file_size s b) = s"
  by (simp add: inode_file_size_def set_inode_file_size_def write_at_inside DEFAULT_BLOCK_SIZE_def)

text \<open>a lookup after a remount finds the file at the size the writes gave it: a write that finds its
  blocks readable keeps the size on the device up to date, and the lookup of a new inode attaches an inode
  of this size with one reference each to the dentry and the inode. For an inode that is still cached the
  lookup returns the dentry without a reference and with no inode attached.\<close>

theorem lookup_after_write:
  assumes "onefs_ok n fs" "unat len < 2 ^ 63" "\<forall>b. bread_ok b" "off \<le> i_size fs" "synced fs"
    and "onefilefs_write bdev bread_ok ubuf len off fs = Inr (rv, off', fs', evs)"
  shows "synced fs' \<and>
    onefilefs_lookup bread_ok (Some True) UNIQUE_FILE_NAME fs' =
      \<lparr>lk_ret = LookupChild, lk_dentry_refs = 1, lk_inode_refs = 1, lk_inode = Some (i_size fs')\<rparr> \<and>
    onefilefs_lookup bread_ok (Some False) UNIQUE_FILE_NAME fs' =
      \<lparr>lk_ret = LookupChild, lk_dentry_refs = 0, lk_inode_refs = 1, lk_inode = None\<rparr>"
proof -
  let ?d = "fst (copy_from_user ubuf (write_span fs (unat off) (unat len)))"
  have b: "bread_ok SB_BLOCK_NUMBER" using assms(3) by simp
  note small = off_small[OF assms(1,4)]
  have ok1: "onefs_ok n (put_data (unat off) ?d fs)"
    by (rule onefs_ok_put_data[OF assms(1) small]) (simp add: span_fits)
  have "synced (put_data (unat off) ?d fs)"
    using assms(5) data_block_neq[OF small] by (simp add: synced_def put_data_def)
  moreover have "synced (put_size s (put_data (unat off) ?d fs))" for s
    using ok1 by (simp add: synced_def put_size_def inode_file_size_set onefs_ok_def)
  ultimately have "synced fs'"
    using assms(6) onefilefs_write_eq[where bread_ok = bread_ok, OF assms(1,2) b assms(4), of bdev ubuf] assms(3)
    by (auto simp: Let_def split: if_splits)
  then show ?thesis using assms(3) by (simp add: onefilefs_lookup_def synced_def)
qed

theorem lookup_after_write_witness:
  "\<exists>rv off' fs' evs. onefilefs_write \<lparr>bd_dev = 1, bd_lo_file_name = []\<rparr> (\<lambda>_. True) [1, 2, 3] 3 0
      (sample_onefs\<lparr>i_size := 0\<rparr>) = Inr (rv, off', fs', evs) \<and>
    lk_inode (onefilefs_lookup (\<lambda>_. True) (Some True) UNIQUE_FILE_NAME fs') = Some (i_size fs')"
proof -
  let ?fs = "sample_onefs\<lparr>i_size := 0\<rparr>" and ?dev = "\<lparr>bd_dev = 1, bd_lo_file_name = []\<rparr> :: block_device"
  have ok: "onefs_ok 10 ?fs" using sample_onefs_ok by (simp add: onefs_ok_def)
  have "take 8 (drop 24 (replicate 4096 (0 :: u8))) = replicate 8 0" by simp
  then have sy: "synced ?fs"
    by (simp add: synced_def sample_onefs_def layout_defs
        inode_file_size_def bytes_u64_def numeral_eq_Suc del: take_replicate drop_replicate)
  obtain rv off' fs' evs where "onefilefs_write ?dev (\<lambda>_. True) [1, 2, 3] 3 0 ?fs = Inr (rv, off', fs', evs)"
    using onefilefs_write_traced[where bread_ok = "\<lambda>_. True" and len = 3 and bdev = ?dev and ubuf = "[1, 2, 3]" and off = 0, OF ok]
    by auto
  with lookup_after_write[OF ok _ _ _ sy this] show ?thesis by simp
qed

end
