(* ===== verification/Demomod.thy ===== *)
theory Demomod
  imports Onefilefs
begin

text \<open>
  The module of the single-file file system (\<open>demo/SINGLEFILE-FS/singlefilefs_src.c\<close>): registration of the
  file system type, mounting and the end of a superblock, with the kernel's \<open>register_filesystem\<close>,
  \<open>mount_bdev\<close> and \<open>kill_block_super\<close> as parameters.
\<close>

section \<open>The module\<close>

text \<open>What \<open>mount_bdev\<close> gets to fill a superblock: the superblock's block 0 as read, and whether the root inode
  and the root dentry can be made.\<close>

type_synonym fill_super = "bytes option \<Rightarrow> bool \<Rightarrow> bool \<Rightarrow> fault + int"

text \<open>\<open>onefilefs_type\<close>.\<close>

record ('sb, 'w) file_system_type =
  fs_name :: string
  fs_requires_dev :: bool
  fs_mount :: "u64 \<Rightarrow> string \<Rightarrow> 'w \<Rightarrow> fault + (int + 'sb) \<times> 'w"
  fs_kill_sb :: "'sb \<Rightarrow> 'w \<Rightarrow> 'w"

definition singlefilefs_kill_superblock :: "('sb \<Rightarrow> 'w \<Rightarrow> 'w) \<Rightarrow> 'sb \<Rightarrow> 'w \<Rightarrow> 'w" where
  "singlefilefs_kill_superblock kill_block_super s w = kill_block_super s w"

text \<open>The result of \<open>mount_bdev\<close>, an error pointer or the root, is passed on.\<close>

definition singlefilefs_mount ::
  "(u64 \<Rightarrow> string \<Rightarrow> fill_super \<Rightarrow> 'w \<Rightarrow> fault + (int + 'sb) \<times> 'w) \<Rightarrow> u64 \<Rightarrow> string \<Rightarrow> 'w \<Rightarrow> fault + (int + 'sb) \<times> 'w" where
  "singlefilefs_mount mount_bdev flags dev_name w = mount_bdev flags dev_name singlefilefs_fill_super w"

definition onefilefs_type ::
  "(u64 \<Rightarrow> string \<Rightarrow> fill_super \<Rightarrow> 'w \<Rightarrow> fault + (int + 'sb) \<times> 'w) \<Rightarrow> ('sb \<Rightarrow> 'w \<Rightarrow> 'w) \<Rightarrow> ('sb, 'w) file_system_type" where
  "onefilefs_type mount_bdev kill_block_super =
     \<lparr>fs_name = ''singlefilefs'', fs_requires_dev = True, fs_mount = singlefilefs_mount mount_bdev,
      fs_kill_sb = singlefilefs_kill_superblock kill_block_super\<rparr>"

definition singlefilefs_init ::
  "(('sb, 'w) file_system_type \<Rightarrow> 'r \<Rightarrow> int \<times> 'r) \<Rightarrow> ('sb, 'w) file_system_type \<Rightarrow> 'r \<Rightarrow> int \<times> 'r" where
  "singlefilefs_init register_filesystem t r = register_filesystem t r"

text \<open>The result of \<open>unregister_filesystem\<close> is only logged.\<close>

definition singlefilefs_exit ::
  "(('sb, 'w) file_system_type \<Rightarrow> 'r \<Rightarrow> int \<times> 'r) \<Rightarrow> ('sb, 'w) file_system_type \<Rightarrow> 'r \<Rightarrow> 'r" where
  "singlefilefs_exit unregister_filesystem t r = snd (unregister_filesystem t r)"

section \<open>Mounting\<close>

text \<open>When \<open>mount_bdev\<close> gives the superblock that was filled or the error of filling it, a device mounts exactly
  when block 0 holds the magic number and the root can be made, and a block 0 that cannot be read crashes the
  mount.\<close>

lemma demo_mount:
  assumes "\<And>fill. mount_bdev flags dev_name fill w =
      (case fill bh i_ok d_ok of Inl f \<Rightarrow> Inl f | Inr rv \<Rightarrow> Inr (if rv = 0 then Inr sb else Inl rv, w))"
  shows "fs_mount (onefilefs_type mount_bdev kill_block_super) flags dev_name w =
    (case bh of
       None \<Rightarrow> Inl NullDeref
     | Some bdata \<Rightarrow> Inr (if sb_info_magic bdata \<noteq> ONEFILEFS_MAGIC then Inl (- EBADF)
         else if i_ok \<and> d_ok then Inr sb else Inl (- ENOMEM), w))"
  by (auto simp: onefilefs_type_def singlefilefs_mount_def assms singlefilefs_fill_super_def split: option.split)

end
