(* ===== verification/Restore.thy ===== *)
theory Restore
  imports Snapblocks "HOL-Library.Char_ord"
begin

text \<open>
  The restore tool, \<open>src/user/restore.c\<close>: command line options, the loop over the records of a
  snapblocks file with its questions on standard input, and the write-back of raw blocks. Both files
  are regular (an image file grows when written beyond its end); the offsets of the two descriptors
  are explicit. \<open>rs_env\<close> says which system calls fail. The loop follows the offsets of the file and
  need not end: \<open>None\<close> is "does not return".
\<close>

section \<open>Options\<close>

record restore_opts =
  snapblocks_path :: "string option"
  device_path :: "string option"
  restore_only_blknum :: u64
  restore_all :: bool
  ask :: bool

definition default_opts :: restore_opts where
  "default_opts = \<lparr>snapblocks_path = None, device_path = None, restore_only_blknum = 0,
     restore_all = True, ask = True\<rparr>"

text \<open>\<open>strtoull(arg, NULL, 10)\<close>: spaces, a sign, digits; \<open>None\<close> for \<open>ERANGE\<close>. A minus sign negates
  the value in \<open>uint64_t\<close>, and without digits the value is 0.\<close>

definition is_c_space :: "char \<Rightarrow> bool" where
  "is_c_space c \<longleftrightarrow> c \<in> {CHR '' '', CHR 0x09, CHR 0x0A, CHR 0x0B, CHR 0x0C, CHR 0x0D}"

definition is_c_digit :: "char \<Rightarrow> bool" where
  "is_c_digit c \<longleftrightarrow> 48 \<le> (of_char c :: nat) \<and> (of_char c :: nat) \<le> 57"

definition digits_value :: "string \<Rightarrow> nat" where
  "digits_value s = foldl (\<lambda>acc c. 10 * acc + (of_char c - 48)) 0 s"

definition strtoull :: "string \<Rightarrow> u64 option" where
  "strtoull arg =
     (let s = dropWhile is_c_space arg;
          neg = (s \<noteq> [] \<and> hd s = CHR ''-'');
          t = (if s \<noteq> [] \<and> hd s \<in> {CHR ''-'', CHR ''+''} then tl s else s);
          v = digits_value (takeWhile is_c_digit t)
      in if v \<ge> 2 ^ 64 then None else Some (if neg then - of_nat v else of_nat v))"

definition to_u64 :: "string \<Rightarrow> u64 option" where "to_u64 arg = strtoull arg"

text \<open>The results of \<open>getopt\<close>: the option character and its argument. \<open>Inl b\<close> is an exit of the
  program, with success if \<open>b\<close>.\<close>

fun parse_opts :: "(char \<times> string) list \<Rightarrow> restore_opts \<Rightarrow> bool + restore_opts" where
  "parse_opts [] cfg = Inr cfg"
| "parse_opts ((ch, optarg) # opts) cfg =
     (if ch = CHR ''h'' then Inl True
      else if ch = CHR ''s'' then parse_opts opts (cfg\<lparr>snapblocks_path := Some optarg\<rparr>)
      else if ch = CHR ''f'' then parse_opts opts (cfg\<lparr>device_path := Some optarg\<rparr>)
      else if ch = CHR ''n'' then
        (case to_u64 optarg of
           None \<Rightarrow> Inl False
         | Some u \<Rightarrow> parse_opts opts (cfg\<lparr>restore_only_blknum := u, restore_all := False\<rparr>))
      else if ch = CHR ''o'' then parse_opts opts (cfg\<lparr>restore_all := False\<rparr>)
      else if ch = CHR ''a'' then parse_opts opts (cfg\<lparr>restore_all := True\<rparr>)
      else if ch = CHR ''p'' then parse_opts opts (cfg\<lparr>ask := True\<rparr>)
      else if ch = CHR ''c'' then parse_opts opts (cfg\<lparr>ask := False\<rparr>)
      else parse_opts opts cfg)"

section \<open>Files\<close>

record rs_env =
  malloc_ok :: "u64 \<Rightarrow> bool"
  read_err :: "nat \<Rightarrow> bool"
  write_res_of :: "nat \<Rightarrow> int"
  full_writes :: bool

text \<open>\<open>lseek(fd, off, SEEK_CUR)\<close> with an unsigned 64-bit argument, its result unchecked: the position
  stays where it was if the target is negative or out of range.\<close>

definition seek_cur :: "u64 \<Rightarrow> nat \<Rightarrow> nat" where
  "seek_cur off pos = (let p = int pos + sint off in if 0 \<le> p \<and> p < 2 ^ 63 then nat p else pos)"

definition seek_set :: "u64 \<Rightarrow> nat \<Rightarrow> nat" where
  "seek_set off pos = (if 0 \<le> sint off then unat off else pos)"

definition seek_nexthdr :: "snapblock_file_hdr \<Rightarrow> nat \<Rightarrow> nat" where
  "seek_nexthdr h pos = seek_cur (hdr_payld_off h + hdr_payldsiz h - of_nat sizeof_hdr) pos"

section \<open>Restoring\<close>

record rs_state =
  snaps_pos :: nat
  device_pos :: nat
  device :: bytes
  rs_stdin :: string

text \<open>\<open>Inl\<close>: the program exits with a failure, with the device as it is then.\<close>

definition do_restore_rawblocks ::
  "rs_env \<Rightarrow> bytes \<Rightarrow> snapblock_file_hdr \<Rightarrow> rs_state \<Rightarrow> bytes + rs_state" where
  "do_restore_rawblocks env snaps h s =
     (let s1 = s\<lparr>snaps_pos := seek_cur (hdr_payld_off h - of_nat sizeof_hdr) (snaps_pos s)\<rparr>;
          nbytes = hdr_payldsiz h
      in if \<not> malloc_ok env nbytes
         then Inr (s1\<lparr>snaps_pos := seek_cur (hdr_payldsiz h) (snaps_pos s1)\<rparr>)
         else if read_err env (snaps_pos s1)
         then Inr (s1\<lparr>snaps_pos := seek_cur (hdr_payldsiz h) (snaps_pos s1)\<rparr>)
         else
           let buf = take (unat nbytes) (drop (snaps_pos s1) snaps) in
           if length buf \<noteq> unat nbytes then Inl (device s1)
           else
             let dpos = seek_set (hdr_blknr h * nbytes) (device_pos s1);
                 werr = (if full_writes env then int (length buf) else write_res_of env dpos);
                 dev = write_at dpos (take (nat werr) buf) (device s1)
             in if werr \<noteq> int (unat nbytes) then Inl dev
                else Inr (s1\<lparr>snaps_pos := snaps_pos s1 + length buf, device_pos := dpos + length buf, device := dev\<rparr>))"

definition restore_by_type ::
  "rs_env \<Rightarrow> bytes \<Rightarrow> snapblock_file_hdr \<Rightarrow> rs_state \<Rightarrow> bytes + rs_state" where
  "restore_by_type env snaps h s =
     (if hdr_payld_type h = SNAPBLOCK_PAYLOAD_TYPE_RAW then do_restore_rawblocks env snaps h s
      else Inr (s\<lparr>snaps_pos := seek_nexthdr h (snaps_pos s)\<rparr>))"

text \<open>\<open>fgets(ans, n, stdin)\<close>: at most \<open>n - 1\<close> characters, up to and including a newline; the rest of
  a longer line stays in the stream.\<close>

fun fgets :: "nat \<Rightarrow> string \<Rightarrow> string \<times> string" where
  "fgets 0 inp = ([], inp)"
| "fgets (Suc 0) inp = ([], inp)"
| "fgets (Suc (Suc n)) [] = ([], [])"
| "fgets (Suc (Suc n)) (c # inp) =
     (if c = CHR 0x0A then ([c], inp) else let (a, r) = fgets (Suc n) inp in (c # a, r))"

definition yes_answer :: string where "yes_answer = ''yes'' @ [CHR 0x0A]"

definition ask_user :: "restore_opts \<Rightarrow> string \<Rightarrow> bool \<times> string" where
  "ask_user opts inp =
     (if ask opts then let (ans, rest) = fgets 10 inp in (cstr ans = yes_answer, rest) else (True, inp))"

partial_function (option) restore_loop ::
  "rs_env \<Rightarrow> restore_opts \<Rightarrow> bytes \<Rightarrow> rs_state \<Rightarrow> (bool \<times> bytes) option" where
  "restore_loop env opts snaps s =
     (if read_err env (snaps_pos s) then Some (True, device s)
      else if length (take sizeof_hdr (drop (snaps_pos s) snaps)) \<noteq> sizeof_hdr then Some (True, device s)
      else
        let h = decode_hdr (take sizeof_hdr (drop (snaps_pos s) snaps));
            s1 = s\<lparr>snaps_pos := snaps_pos s + sizeof_hdr\<rparr>
        in if hdr_magic h \<noteq> SNAPBLOCK_MAGIC then Some (True, device s1)
           else if \<not> restore_all opts \<and> restore_only_blknum opts \<noteq> hdr_blknr h
           then restore_loop env opts snaps (s1\<lparr>snaps_pos := seek_nexthdr h (snaps_pos s1)\<rparr>)
           else
             let (go, inp) = ask_user opts (rs_stdin s1); s2 = s1\<lparr>rs_stdin := inp\<rparr> in
             if \<not> go then restore_loop env opts snaps (s2\<lparr>snaps_pos := seek_nexthdr h (snaps_pos s2)\<rparr>)
             else (case restore_by_type env snaps h s2 of
               Inl dev \<Rightarrow> Some (False, dev)
             | Inr s3 \<Rightarrow>
                 if \<not> restore_all opts \<and> restore_only_blknum opts = hdr_blknr h then Some (True, device s3)
                 else restore_loop env opts snaps s3))"

text \<open>The whole program: exit status and the device. \<open>open_file\<close> gives the contents of a file that can
  be opened.\<close>

definition do_restore ::
  "rs_env \<Rightarrow> restore_opts \<Rightarrow> bytes option \<Rightarrow> bytes \<Rightarrow> bool \<Rightarrow> string \<Rightarrow> (bool \<times> bytes) option" where
  "do_restore env opts snaps dev device_open_ok inp =
     (case snaps of
        None \<Rightarrow> Some (False, dev)
      | Some snaps \<Rightarrow>
          if \<not> device_open_ok then Some (False, dev)
          else restore_loop env opts snaps \<lparr>snaps_pos = 0, device_pos = 0, device = dev, rs_stdin = inp\<rparr>)"

definition restore_main ::
  "rs_env \<Rightarrow> (char \<times> string) list \<Rightarrow> (string \<Rightarrow> bytes option) \<Rightarrow> (string \<Rightarrow> bool) \<Rightarrow> bytes \<Rightarrow> string \<Rightarrow>
     (bool \<times> bytes) option" where
  "restore_main env args open_file device_open_ok dev inp =
     (case parse_opts args default_opts of
        Inl ok \<Rightarrow> Some (ok, dev)
      | Inr opts \<Rightarrow>
          (case (snapblocks_path opts, device_path opts) of
             (Some sp, Some dp) \<Rightarrow> do_restore env opts (open_file sp) dev (device_open_ok dp) inp
           | _ \<Rightarrow> Some (False, dev)))"


section \<open>The loop on a file of records\<close>

definition write_rec :: "u64 \<times> bytes \<Rightarrow> bytes \<Rightarrow> bytes" where
  "write_rec r dev = write_at (unat (fst r) * length (snd r)) (snd r) dev"

text \<open>The records that are restored, in order, for given options and answers.\<close>

fun chosen :: "restore_opts \<Rightarrow> string \<Rightarrow> (u64 \<times> bytes) list \<Rightarrow> (u64 \<times> bytes) list" where
  "chosen opts inp [] = []"
| "chosen opts inp (r # rs) =
     (if \<not> restore_all opts \<and> restore_only_blknum opts \<noteq> fst r then chosen opts inp rs
      else let (go, inp') = ask_user opts inp in
        if \<not> go then chosen opts inp' rs
        else if \<not> restore_all opts then [r] else r # chosen opts inp' rs)"

definition rs_env_ok :: "rs_env \<Rightarrow> bool" where
  "rs_env_ok env \<longleftrightarrow> (\<forall>n. malloc_ok env n) \<and> (\<forall>p. \<not> read_err env p) \<and> full_writes env"

text \<open>Every block lies in the first \<open>2 ^ 63\<close> bytes of the device, the range of \<open>off_t\<close>.\<close>

definition record_fits :: "u64 \<times> bytes \<Rightarrow> bool" where
  "record_fits r \<longleftrightarrow> unat (fst r) * length (snd r) < 2 ^ 63"

lemma seek_cur_forward:
  assumes "pos + n < 2 ^ 63"
  shows "seek_cur (of_nat n) pos = pos + n"
proof -
  have "sint (of_nat n :: u64) = int n" using assms by (intro sint_of_nat64) simp
  then show ?thesis using assms by (simp add: seek_cur_def Let_def nat_int_add) 
qed

lemma seek_set_block:
  assumes "record_fits (b, d)" "length d < 2 ^ 63"
  shows "seek_set (b * of_nat (length d)) pos = unat b * length d"
proof -
  have "b * of_nat (length d) = (of_nat (unat b * length d) :: u64)" by simp
  moreover have "sint (of_nat (unat b * length d) :: u64) = int (unat b * length d)"
    using assms(1) by (intro sint_of_nat64) (simp add: record_fits_def)
  moreover have "unat (of_nat (unat b * length d) :: u64) = unat b * length d"
    using assms(1) by (intro unat_of_nat64) (simp add: record_fits_def)
  ultimately show ?thesis by (simp add: seek_set_def)
qed

lemma restore_record:
  assumes "rs_env_ok env" "record_fits (b, d)" "length pre + 40 + length d < 2 ^ 63"
    and "snaps_pos s = length pre + 40"
  shows "restore_by_type env (pre @ encode_record (b, d) @ rest) (DEFINE_SNAPBLOCK_FILE_HDR b (of_nat (length d))) s =
    Inr (s\<lparr>snaps_pos := length pre + 40 + length d, device_pos := unat b * length d + length d,
           device := write_rec (b, d) (device s)\<rparr>)"
proof -
  have pos: "seek_cur 0 (length pre + 40) = length pre + 40"
    using seek_cur_forward[of "length pre + 40" 0] assms(3) by simp
  have u: "unat (of_nat (length d) :: u64) = length d" using assms(3) by (intro unat_of_nat64) simp
  have dp: "seek_set (b * of_nat (length d)) p = unat b * length d" for p
    by (rule seek_set_block[OF assms(2)]) (use assms(3) in simp)
  show ?thesis
    using assms(1,4) pos u dp
    by (simp add: restore_by_type_def do_restore_rawblocks_def DEFINE_SNAPBLOCK_FILE_HDR_def Let_def
        rs_env_ok_def encode_record_def write_rec_def)
qed

lemma seek_nexthdr_record:
  assumes "length pre + 40 + length d < 2 ^ 63"
  shows "seek_nexthdr (DEFINE_SNAPBLOCK_FILE_HDR b (of_nat (length d))) (length pre + 40) = length pre + 40 + length d"
proof -
  have eq: "(40 + of_nat (length d) - 40 :: u64) = of_nat (length d)" by simp
  show ?thesis using seek_cur_forward[of "length pre + 40" "length d"] assms
    by (simp add: seek_nexthdr_def DEFINE_SNAPBLOCK_FILE_HDR_def eq)
qed

lemma restore_loop_step:
  assumes "take sizeof_hdr (drop (snaps_pos s) snaps) = encode_hdr h" "hdr_magic h = SNAPBLOCK_MAGIC" "rs_env_ok env"
  shows "restore_loop env opts snaps s =
    (if \<not> restore_all opts \<and> restore_only_blknum opts \<noteq> hdr_blknr h
     then restore_loop env opts snaps (s\<lparr>snaps_pos := seek_nexthdr h (snaps_pos s + sizeof_hdr)\<rparr>)
     else
       let (go, inp) = ask_user opts (rs_stdin s) in
       if \<not> go then restore_loop env opts snaps
         (s\<lparr>rs_stdin := inp, snaps_pos := seek_nexthdr h (snaps_pos s + sizeof_hdr)\<rparr>)
       else (case restore_by_type env snaps h (s\<lparr>snaps_pos := snaps_pos s + sizeof_hdr, rs_stdin := inp\<rparr>) of
         Inl dev \<Rightarrow> Some (False, dev)
       | Inr s3 \<Rightarrow>
           if \<not> restore_all opts \<and> restore_only_blknum opts = hdr_blknr h then Some (True, device s3)
           else restore_loop env opts snaps s3))"
proof -
  have "length (take sizeof_hdr (drop (snaps_pos s) snaps)) = sizeof_hdr" by (simp only: assms(1) length_encode_hdr)
  moreover have "\<not> read_err env (snaps_pos s)" using assms(3) by (simp add: rs_env_ok_def)
  ultimately show ?thesis
    by (subst restore_loop.simps) (simp add: assms(1,2) Let_def split_def del: length_take cong: if_cong sum.case_cong)
qed

lemma restore_loop_records:
  assumes "rs_env_ok env" "\<forall>r \<in> set rs. record_fits r" "length (pre @ encode_records rs) < 2 ^ 63"
    and "snaps_pos s = length pre"
  shows "restore_loop env opts (pre @ encode_records rs) s = Some (True, fold write_rec (chosen opts (rs_stdin s) rs) (device s))"
  using assms
proof (induction rs arbitrary: pre s)
  case Nil
  then show ?case by (subst restore_loop.simps) (simp add: rs_env_ok_def)
next
  case (Cons r rs)
  obtain b d where r: "r = (b, d)" by (cases r)
  let ?h = "DEFINE_SNAPBLOCK_FILE_HDR b (of_nat (length d))"
  let ?snaps = "pre @ encode_record (b, d) @ encode_records rs"
  let ?pre = "pre @ encode_record (b, d)"
  have len: "length pre + 40 + length d < 2 ^ 63"
    using Cons.prems(3) by (simp add: r length_encode_record)
  have lp: "length ?pre = length pre + 40 + length d" by (simp add: length_encode_record)
  have hd: "take sizeof_hdr (drop (length pre) ?snaps) = encode_hdr ?h"
    by (simp add: encode_record_def)
  have IH: "restore_loop env opts ?snaps s' = Some (True, fold write_rec (chosen opts (rs_stdin s') rs) (device s'))"
    if "snaps_pos s' = length pre + 40 + length d" for s'
  proof -
    have "restore_loop env opts (?pre @ encode_records rs) s' =
        Some (True, fold write_rec (chosen opts (rs_stdin s') rs) (device s'))"
    proof (rule Cons.IH[OF Cons.prems(1)])
      show "\<forall>r \<in> set rs. record_fits r" using Cons.prems(2) by simp
      show "length (?pre @ encode_records rs) < 2 ^ 63" using Cons.prems(3) by (simp add: r)
      show "snaps_pos s' = length ?pre" by (simp only: lp that)
    qed
    then show ?thesis by simp
  qed
  note next_pos = seek_nexthdr_record[OF len, of b]
  have rec: "restore_by_type env ?snaps ?h s' = Inr (s'\<lparr>snaps_pos := length pre + 40 + length d,
      device_pos := unat b * length d + length d, device := write_rec (b, d) (device s')\<rparr>)"
    if "snaps_pos s' = length pre + 40" for s'
    using restore_record[OF Cons.prems(1) _ len that] Cons.prems(2) by (simp add: r)
  obtain go inp where au: "ask_user opts (rs_stdin s) = (go, inp)" by (cases "ask_user opts (rs_stdin s)")
  have magic: "hdr_magic ?h = SNAPBLOCK_MAGIC" "hdr_blknr ?h = b" by (simp_all add: DEFINE_SNAPBLOCK_FILE_HDR_def)
  have hd': "take sizeof_hdr (drop (snaps_pos s) ?snaps) = encode_hdr ?h" using hd by (simp only: Cons.prems(4))
  note step = restore_loop_step[OF hd' magic(1) Cons.prems(1), of opts, unfolded magic(2) Cons.prems(4) next_pos]
  have "restore_loop env opts ?snaps s = Some (True, fold write_rec (chosen opts (rs_stdin s) ((b, d) # rs)) (device s))"
  proof (cases "\<not> restore_all opts \<and> restore_only_blknum opts \<noteq> b")
    case True
    then show ?thesis by (subst step) (simp add: IH del: append_assoc)
  next
    case False
    show ?thesis
    proof (cases go)
      case go: True
      show ?thesis using False au go by (subst step) (auto simp: IH rec simp del: append_assoc)
    next
      case go: False
      show ?thesis using False au go by (subst step) (auto simp: IH simp del: append_assoc)
    qed
  qed
  then show ?case by (simp add: r)
qed

text \<open>C10: on a file of complete raw records the tool returns, and writes back exactly the records its
  options and the answers on standard input choose, in the order of the file, each at its block
  number times its size.\<close>

theorem do_restore_writes_chosen:
  assumes "rs_env_ok env" "\<forall>r \<in> set rs. record_fits r" "length (encode_records rs) < 2 ^ 63"
  shows "do_restore env opts (Some (encode_records rs)) dev True inp =
    Some (True, fold write_rec (chosen opts inp rs) dev)"
  using restore_loop_records[OF assms(1,2), of "[]"] assms(3) by (simp add: do_restore_def)

definition good_rs_env :: rs_env where
  "good_rs_env = \<lparr>malloc_ok = (\<lambda>_. True), read_err = (\<lambda>_. False), write_res_of = (\<lambda>_. 0), full_writes = True\<rparr>"

lemma good_rs_env_ok: "rs_env_ok good_rs_env"
  by (simp add: good_rs_env_def rs_env_ok_def)

theorem do_restore_writes_chosen_witness:
  "do_restore good_rs_env (default_opts\<lparr>restore_only_blknum := 1, restore_all := False\<rparr>)
     (Some (encode_records [(0, [1, 2]), (1, [3, 4])])) [9, 9, 9, 9] True yes_answer = Some (True, [9, 9, 3, 4])"
proof -
  have len: "length (encode_records [(0, [1, 2]), (1, [3, 4])]) < 2 ^ 63" by (simp add: length_encode_record)
  have fits: "\<forall>r \<in> set [(0, [1, 2]), (1, [3, 4])]. record_fits r" by (simp add: record_fits_def)
  have "ask_user (default_opts\<lparr>restore_only_blknum := 1, restore_all := False\<rparr>) yes_answer = (True, [])"
    by (simp add: ask_user_def default_opts_def yes_answer_def numeral_eq_Suc cstr_def NUL_def)
  then have ch: "chosen (default_opts\<lparr>restore_only_blknum := 1, restore_all := False\<rparr>) yes_answer [(0, [1, 2]), (1, [3, 4])] = [(1, [3, 4])]"
    by (simp add: default_opts_def)
  show ?thesis
    unfolding do_restore_writes_chosen[OF good_rs_env_ok fits len] ch
    by (simp add: write_rec_def write_at_def)
qed

text \<open>A question can be answered by the rest of the line before: \<open>fgets\<close> takes nine characters of a
  long answer and leaves the others in the stream.\<close>

lemma fgets_full:
  "length s = Suc n \<Longrightarrow> CHR 0x0A \<notin> set s \<Longrightarrow> fgets (Suc (Suc n)) (s @ t) = (s, t)"
proof (induction n arbitrary: s)
  case 0
  then show ?case by (cases s) auto
next
  case (Suc n)
  then obtain c s' where "s = c # s'" by (cases s) auto
  with Suc show ?case by auto
qed

lemma chosen_long_answer:
  assumes "length junk = 9" "CHR 0x0A \<notin> set junk" "ask opts" "restore_all opts"
  shows "chosen opts (junk @ yes_answer) [r1, r2] = [r2]"
proof -
  have "fgets 10 (junk @ yes_answer) = (junk, yes_answer)"
    using fgets_full[of junk 8 yes_answer] assms(1,2) by (simp add: numeral_eq_Suc)
  moreover have "cstr junk \<noteq> yes_answer"
  proof
    assume "cstr junk = yes_answer"
    then have "CHR 0x0A \<in> set (cstr junk)" by (simp add: yes_answer_def)
    then show False using assms(2) by (auto simp: cstr_def dest: set_takeWhileD)
  qed
  moreover have "fgets 10 yes_answer = (yes_answer, [])" "cstr yes_answer = yes_answer"
    by (simp_all add: yes_answer_def numeral_eq_Suc cstr_def NUL_def)
  ultimately show ?thesis using assms(3,4) by (simp add: ask_user_def)
qed

text \<open>on a file of two records, an answer of nine characters before "yes" and a newline, which a user
  types for the first record, skips that record and restores the second one without waiting for an
  answer to its question.\<close>

theorem long_answer_confirms_next:
  assumes "length junk = 9" "CHR 0x0A \<notin> set junk" "ask opts" "restore_all opts" "rs_env_ok env"
    and "record_fits r1" "record_fits r2" "length (encode_records [r1, r2]) < 2 ^ 63"
  shows "do_restore env opts (Some (encode_records [r1, r2])) dev True (junk @ yes_answer) =
    Some (True, write_rec r2 dev)"
  using restore_loop_records[OF assms(5), of "[r1, r2]" "[]"] assms(6-8) chosen_long_answer[OF assms(1-4), of r1 r2]
  by (simp add: do_restore_def del: chosen.simps encode_records_simps)

theorem long_answer_confirms_next_witness:
  "do_restore good_rs_env default_opts (Some (encode_records [(0, [1]), (1, [2])])) [8, 9] True (''noooooooo'' @ yes_answer) =
   Some (True, write_rec (1, [2]) [8, 9])"
  by (rule long_answer_confirms_next)
    (simp_all add: default_opts_def good_rs_env_ok record_fits_def length_encode_record)

end
