(* ===== verification/Tracked.thy ===== *)
theory Tracked
  imports Onefilefs Restore
begin

text \<open>
  Tracked writes: a \<open>vfs_write\<close> on the single-file file system with the probes around it, the contract under
  which the blocks handed over undo a sequence of writes, and the image the restore tool makes of them.
\<close>

section \<open>Tracked writes\<close>

text \<open>One \<open>vfs_write\<close> on the file with the probes installed. Returning 1 from the entry handler skips the
  return handler only; the other two probes run anyway.\<close>

record write_req =
  wr_bread :: "u64 \<Rightarrow> bool"
  wr_buf :: bytes
  wr_len :: u64
  wr_off :: u64
  wr_key :: xkpblocks_key
  wr_pages :: "bytes option"

definition tracked_write ::
  "(xkpblocks_key \<Rightarrow> nat) \<Rightarrow> bd_env \<Rightarrow> block_device \<Rightarrow> xfile \<Rightarrow> write_req \<Rightarrow> onefilefs \<times> kstate \<times> xkpblocks \<Rightarrow>
     fault + onefilefs \<times> kstate \<times> xkpblocks" where
  "tracked_write keyhash env bdev filp req s =
     (let (fs, k, x) = s in
      case vfs_write_entry_handler keyhash (wr_pages req) (wr_key req) (Some filp) k x of
        Inl f \<Rightarrow> Inl f
      | Inr (skip, x1) \<Rightarrow>
          (case onefilefs_write bdev (wr_bread req) (wr_buf req) (wr_len req) (wr_off req) fs of
             Inl f \<Rightarrow> Inl f
           | Inr (rv, off', fs', evs) \<Rightarrow>
               (case run_session keyhash env (wr_key req) evs (k, x1) of
                  Inl f \<Rightarrow> Inl f
                | Inr (k', x2) \<Rightarrow>
                    Inr (fs', k', if skip = 0 then vfs_write_handler keyhash (wr_key req) x2 else x2))))"

definition filp_on :: "block_device \<Rightarrow> xfile \<Rightarrow> bool" where
  "filp_on bdev filp \<longleftrightarrow> (\<exists>sb. file_sb (Some filp) = Some sb \<and> s_magic sb = SINGLEFILEFS_MAGIC \<and> s_bdev sb = Some bdev)"

text \<open>What is asked of a request: its length is one \<open>vfs_write\<close> accepts, the superblock and only blocks of the
  device can be read, the page of the entry could be allocated.\<close>

definition req_ok :: "nat \<Rightarrow> write_req \<Rightarrow> bool" where
  "req_ok n req \<longleftrightarrow> unat (wr_len req) < 2 ^ 63 \<and> wr_bread req SB_BLOCK_NUMBER \<and>
     (\<forall>b. wr_bread req b \<longrightarrow> unat b < n) \<and>
     (\<exists>buf. wr_pages req = Some buf \<and> length buf = SINGLEFILEFS_BLOCK_SIZE)"

section \<open>Writes that hand over what they overwrite\<close>

text \<open>\<open>R\<close> describes how \<open>s\<close> differs from \<open>s0\<close>: it holds the old contents of every block that changed.\<close>

definition undo_log :: "('s \<Rightarrow> u64 \<Rightarrow> bytes) \<Rightarrow> nat \<Rightarrow> 's \<Rightarrow> (u64 \<times> bytes) list \<Rightarrow> 's \<Rightarrow> bool" where
  "undo_log content n s0 R s \<longleftrightarrow> (\<forall>(b, d) \<in> set R. unat b < n \<and> d = content s0 b) \<and>
     (\<forall>b. b \<notin> fst ` set R \<longrightarrow> content s b = content s0 b)"

text \<open>A sequence of steps, each with the blocks it hands over.\<close>

fun run_steps :: "('r \<Rightarrow> 's \<Rightarrow> 's \<times> (u64 \<times> bytes) list) \<Rightarrow> 'r list \<Rightarrow> 's \<Rightarrow> 's \<times> (u64 \<times> bytes) list" where
  "run_steps step [] s = (s, [])"
| "run_steps step (r # rs) s =
     (let (s1, L1) = step r s; (s2, L2) = run_steps step rs s1 in (s2, L1 @ L2))"

lemma undo_log_Nil: "undo_log content n s [] s"
  by (simp add: undo_log_def)

lemma fold_log_add_keys: "fst ` set (fold log_add L R) = fst ` set R \<union> fst ` set L"
  by (induction L arbitrary: R) (auto simp: log_add_keys)

lemma fold_log_add_new: "r \<in> set (fold log_add L R) \<Longrightarrow> r \<in> set R \<or> r \<in> set L \<and> fst r \<notin> fst ` set R"
proof (induction L arbitrary: R)
  case (Cons l L)
  then have "r \<in> set (log_add l R) \<or> r \<in> set L \<and> fst r \<notin> fst ` set (log_add l R)" by simp
  moreover have "r \<in> set (log_add l R) \<Longrightarrow> r \<in> set R \<or> r = l \<and> fst r \<notin> fst ` set R"
    by (auto simp: log_add_def split: if_splits)
  ultimately show ?case unfolding log_add_keys by auto
qed simp

text \<open>
  What the snapshot service asks of a file system: a step hands over every block it changes, with the
  contents from before the step. The first block logged under each number then undoes any sequence of steps.
\<close>

locale preimage_steps =
  fixes ok :: "'s \<Rightarrow> bool"
    and content :: "'s \<Rightarrow> u64 \<Rightarrow> bytes"
    and bound :: nat
    and acceptable :: "'r \<Rightarrow> bool"
    and step :: "'r \<Rightarrow> 's \<Rightarrow> 's \<times> (u64 \<times> bytes) list"
  assumes step_ok: "ok s \<Longrightarrow> acceptable r \<Longrightarrow> ok (fst (step r s))"
    and step_old: "ok s \<Longrightarrow> acceptable r \<Longrightarrow> (b, d) \<in> set (snd (step r s)) \<Longrightarrow> unat b < bound \<and> d = content s b"
    and step_frame: "ok s \<Longrightarrow> acceptable r \<Longrightarrow> b \<notin> fst ` set (snd (step r s)) \<Longrightarrow>
          content (fst (step r s)) b = content s b"
begin

lemma undo_step:
  assumes "undo_log content bound s0 R s" "ok s" "acceptable r"
  shows "undo_log content bound s0 (fold log_add (snd (step r s)) R) (fst (step r s))"
  unfolding undo_log_def
proof (intro conjI ballI allI impI)
  fix x assume "x \<in> set (fold log_add (snd (step r s)) R)"
  from fold_log_add_new[OF this] assms(1) step_old[OF assms(2,3)]
  show "case x of (b, d) \<Rightarrow> unat b < bound \<and> d = content s0 b" by (force simp: undo_log_def)
next
  fix b assume "b \<notin> fst ` set (fold log_add (snd (step r s)) R)"
  then show "content (fst (step r s)) b = content s0 b"
    using assms(1) step_frame[OF assms(2,3)] by (auto simp: fold_log_add_keys undo_log_def)
qed

lemma run_ok: "ok s \<Longrightarrow> \<forall>r \<in> set rs. acceptable r \<Longrightarrow> ok (fst (run_steps step rs s))"
proof (induction rs arbitrary: s)
  case (Cons r rs)
  then have "ok (fst (step r s))" by (simp add: step_ok)
  with Cons show ?case by (simp add: split_def Let_def)
qed simp

lemma run_undo:
  assumes "undo_log content bound s0 R s" "ok s" "\<forall>r \<in> set rs. acceptable r"
  shows "undo_log content bound s0 (fold log_add (snd (run_steps step rs s)) R) (fst (run_steps step rs s))"
  using assms
proof (induction rs arbitrary: R s)
  case (Cons r rs)
  let ?s = "fst (step r s)" and ?R = "fold log_add (snd (step r s)) R"
  have "undo_log content bound s0 ?R ?s" "ok ?s" using Cons.prems by (simp_all add: undo_step step_ok)
  then have "undo_log content bound s0 (fold log_add (snd (run_steps step rs ?s)) ?R) (fst (run_steps step rs ?s))"
    using Cons.prems(3) by (intro Cons.IH) simp_all
  then show ?case by (simp add: split_def Let_def)
qed simp

lemma run_log:
  assumes "(b, d) \<in> set (snd (run_steps step rs s))" "ok s" "\<forall>r \<in> set rs. acceptable r"
  shows "\<exists>s'. ok s' \<and> d = content s' b"
  using assms
proof (induction rs arbitrary: s)
  case (Cons r rs)
  have "ok (fst (step r s))" using Cons.prems by (simp add: step_ok)
  then show ?case using Cons step_old[of s r b d] by (auto simp: split_def Let_def)
qed simp

end

text \<open>The single-file file system keeps this contract.\<close>

definition fs_step :: "block_device \<Rightarrow> write_req \<Rightarrow> onefilefs \<Rightarrow> onefilefs \<times> (u64 \<times> bytes) list" where
  "fs_step bdev req fs =
     (case onefilefs_write bdev (wr_bread req) (wr_buf req) (wr_len req) (wr_off req) fs of
        Inl f \<Rightarrow> (fs, [])
      | Inr (rv, off', fs', evs) \<Rightarrow> (fs', captured_blocks [] evs))"

lemma fs_step_traced:
  assumes "onefs_ok n fs" "req_ok n req"
  shows "\<exists>rv off' evs.
    onefilefs_write bdev (wr_bread req) (wr_buf req) (wr_len req) (wr_off req) fs = Inr (rv, off', fst (fs_step bdev req fs), evs) \<and>
    write_traced bdev (wr_bread req) n fs (fst (fs_step bdev req fs)) evs \<and> (\<forall>z. captured_blocks z evs = snd (fs_step bdev req fs))"
proof -
  have "unat (wr_len req) < 2 ^ 63" "wr_bread req SB_BLOCK_NUMBER" using assms(2) by (auto simp: req_ok_def)
  from onefilefs_write_traced[where bread_ok = "wr_bread req", OF assms(1) this]
  obtain rv off' fs' evs where w: "onefilefs_write bdev (wr_bread req) (wr_buf req) (wr_len req) (wr_off req) fs = Inr (rv, off', fs', evs)"
    "write_traced bdev (wr_bread req) n fs fs' evs" by blast
  then have "fs_step bdev req fs = (fs', captured_blocks [] evs)" by (simp add: fs_step_def)
  with w show ?thesis by (simp add: write_traced_def)
qed

interpretation ofs: preimage_steps "onefs_ok n" disk n "req_ok n" "fs_step bdev" for n bdev
proof
  fix fs req assume a: "onefs_ok n fs" "req_ok n req"
  from fs_step_traced[OF a, of bdev]
  obtain evs where t: "write_traced bdev (wr_bread req) n fs (fst (fs_step bdev req fs)) evs"
    and c: "\<forall>z. captured_blocks z evs = snd (fs_step bdev req fs)" by (elim exE conjE)
  note t = t[unfolded write_traced_def c[rule_format]]
  show "onefs_ok n (fst (fs_step bdev req fs))" by (rule conjunct1[OF t])
  have old: "\<forall>(b, d) \<in> set (snd (fs_step bdev req fs)). wr_bread req b \<and> d = disk fs b"
    using t by (elim conjE allE)
  have bound: "\<forall>b. wr_bread req b \<longrightarrow> unat b < n" using a(2) unfolding req_ok_def by (elim conjE)
  show "unat b < n \<and> d = disk fs b" if "(b, d) \<in> set (snd (fs_step bdev req fs))" for b d
    using bspec[OF old that] bound by simp
  show "disk (fst (fs_step bdev req fs)) b = disk fs b" if "b \<notin> fst ` set (snd (fs_step bdev req fs))" for b
    using conjunct2[OF conjunct2[OF conjunct2[OF conjunct2[OF conjunct2[OF t]]]]] that by (elim allE) (erule mp)
qed

section \<open>The probes under a sequence of writes\<close>

lemma length_captured: "length (captured_blocks z evs) \<le> length evs"
  by (induction z evs rule: captured_blocks.induct) auto

lemma tracked_write_step:
  assumes dev: "device_open bdev oid data e ep w k" "wqs k w = Some q"
    and env: "kmalloc_msw_ok env" "kmalloc_block_ok env" and filp: "filp_on bdev filp"
    and req: "req_ok n req" and ok: "onefs_ok n fs"
  shows "(\<exists>x'. tracked_write keyhash env bdev filp req (fs, k, x) = Inr (fst (fs_step bdev req fs),
      k\<lparr>wqs := (wqs k)(w \<mapsto> q @ map (snapshot_work data e (first_mount_date ep)) (snd (fs_step bdev req fs)))\<rparr>, x')) \<and>
    length (snd (fs_step bdev req fs)) \<le> 5"
proof -
  obtain buf where buf: "wr_pages req = Some buf" "length buf = SINGLEFILEFS_BLOCK_SIZE"
    using req by (auto simp: req_ok_def)
  obtain rv off' evs where
    wr: "onefilefs_write bdev (wr_bread req) (wr_buf req) (wr_len req) (wr_off req) fs = Inr (rv, off', fst (fs_step bdev req fs), evs)"
    and tr: "write_traced bdev (wr_bread req) n fs (fst (fs_step bdev req fs)) evs"
    and cap: "\<forall>z. captured_blocks z evs = snd (fs_step bdev req fs)" using fs_step_traced[OF ok req, of bdev] by blast
  let ?key = "wr_key req"
  let ?node = "\<lparr>xkey = ?key, xblock = buf, xblocknum = 0\<rparr>"
  let ?x1 = "x\<lparr>xkpblocks_ht := (xkpblocks_ht x)(keyhash ?key := ?node # xkpblocks_ht x (keyhash ?key))\<rparr>"
  have "bdsnap_test_device bdev k = Inr True"
    using dev(1) by (simp add: device_open_def bdsnap_test_device_def bdsnap_search_device_def)
  then have entry: "vfs_write_entry_handler keyhash (wr_pages req) ?key (Some filp) k x = Inr (0, ?x1)"
    using filp buf(1) by (auto simp: filp_on_def vfs_write_entry_handler_def)
  have found: "search_threadentry keyhash ?key ?x1 = Some ?node" by (simp add: search_threadentry_def)
  have evs: "\<forall>ev \<in> set evs. ev_ok bdev ev" using tr by (simp add: write_traced_def)
  obtain x' where "run_session keyhash env ?key evs (k, ?x1) =
    Inr (k\<lparr>wqs := (wqs k)(w \<mapsto> q @ map (snapshot_work data e (first_mount_date ep)) (snd (fs_step bdev req fs)))\<rparr>, x')"
    using session_captures[OF dev evs env found] buf(2) by (auto simp: cap)
  moreover have "length (snd (fs_step bdev req fs)) \<le> 5"
    using tr order_trans[OF length_captured, of evs 5 "[]"] by (simp add: cap write_traced_def)
  ultimately show ?thesis by (simp add: tracked_write_def entry wr del: fun_upd_apply)
qed

lemma device_open_queue:
  "device_open bdev oid data e ep w k \<Longrightarrow> device_open bdev oid data e ep w (k\<lparr>wqs := (wqs k)(w \<mapsto> q)\<rparr>)"
  by (simp add: device_open_def get_device_data_always_def split: mountinfo.splits)

section \<open>Images\<close>

definition image_of :: "nat \<Rightarrow> onefilefs \<Rightarrow> bytes" where
  "image_of n fs = concat (map (\<lambda>i. disk fs (of_nat i)) [0..<n])"

lemma length_image:
  "\<forall>b. length (disk fs b) = z \<Longrightarrow> length (image_of n fs) = n * z"
  by (induction n) (simp_all add: image_of_def)

lemma dev_block_image:
  assumes "\<forall>b. length (disk fs b) = z" "i < n"
  shows "dev_block z (image_of n fs) i = disk fs (of_nat i)"
  using assms(2)
proof (induction n)
  case (Suc n)
  have eq: "image_of (Suc n) fs = image_of n fs @ disk fs (of_nat n)" by (simp add: image_of_def)
  have len: "length (image_of n fs) = n * z" by (rule length_image[OF assms(1)])
  show ?case
  proof (cases "i = n")
    case True
    then show ?thesis using assms(1) by (simp add: eq dev_block_def len)
  next
    case False
    with Suc.prems have "i < n" by simp
    then have "(i + 1) * z \<le> n * z" by (intro mult_right_mono) simp_all
    with Suc.IH[OF \<open>i < n\<close>] show ?thesis by (simp add: eq dev_block_def len algebra_simps)
  qed
qed simp

lemma bytes_eqI_blocks:
  assumes "length xs = n * z" "length ys = n * z" "\<And>i. i < n \<Longrightarrow> dev_block z xs i = dev_block z ys i"
  shows "xs = ys"
proof (rule nth_equalityI)
  fix j assume "j < length xs"
  then have j: "j < n * z" by (simp add: assms(1))
  then have z: "0 < z" by (cases z) auto
  have i: "j div z < n" using j z by (simp add: div_less_iff_less_mult)
  have nth: "us ! j = dev_block z us (j div z) ! (j mod z)" if "length us = n * z" for us
  proof -
    have "j div z * z \<le> length us" using j that div_times_less_eq_dividend[of j z] by linarith
    then show ?thesis using z by (simp add: dev_block_def)
  qed
  show "xs ! j = ys ! j" unfolding nth[OF assms(1)] nth[OF assms(2)] assms(3)[OF i] ..
qed (simp add: assms)

lemma fold_write_rec:
  assumes "length dev = n * z" "0 < z" "\<forall>(b, d) \<in> set R. unat b < n \<and> d = D b" "\<forall>b. length (D b) = z"
  shows "length (fold write_rec R dev) = n * z \<and>
    (\<forall>i < n. dev_block z (fold write_rec R dev) i =
      (if i \<in> unat ` fst ` set R then D (of_nat i) else dev_block z dev i))"
  using assms(1,3)
proof (induction R arbitrary: dev)
  case (Cons r R)
  obtain b d where r: "r = (b, d)" "unat b < n" "d = D b" using Cons.prems(2) by (cases r) auto
  have d: "length d = z" using r(3) assms(4) by simp
  have "(unat b + 1) * z \<le> n * z" using r(2) by (intro mult_right_mono) simp_all
  then have fit: "(unat b + 1) * z \<le> length dev" by (simp add: Cons.prems(1))
  have w: "write_rec r dev = write_at (unat b * z) d dev" by (simp add: write_rec_def r(1) d)
  have l: "length (write_rec r dev) = n * z"
    using fit d Cons.prems(1) by (simp add: w length_write_at_inside)
  have blk: "dev_block z (write_rec r dev) i = (if i = unat b then d else dev_block z dev i)" for i
    unfolding w by (rule dev_block_write_at[OF d assms(2) fit])
  have "\<forall>(b, d) \<in> set R. unat b < n \<and> d = D b" using Cons.prems(2) by simp
  note IH = Cons.IH[OF l this]
  have "dev_block z (fold write_rec (r # R) dev) i = (if i \<in> unat ` fst ` set (r # R) then D (of_nat i) else dev_block z dev i)"
    if "i < n" for i
    using IH that r(3) by (cases "i \<in> unat ` fst ` set R"; cases "i = unat b") (simp_all add: blk, simp_all add: r(1))
  with IH show ?case by simp
qed simp

lemma fold_write_rec_undo:
  assumes "onefs_ok n fs0" "onefs_ok n fs" "undo_log disk n fs0 R fs"
  shows "fold write_rec R (image_of n fs) = image_of n fs0"
proof (rule bytes_eqI_blocks)
  let ?z = DEFAULT_BLOCK_SIZE
  have l: "\<forall>b. length (disk fs0 b) = ?z" "\<forall>b. length (disk fs b) = ?z" using assms by (simp_all add: onefs_ok_def)
  have z: "0 < ?z" by (simp add: DEFAULT_BLOCK_SIZE_def)
  have R: "\<forall>(b, d) \<in> set R. unat b < n \<and> d = disk fs0 b" using assms(3) by (simp add: undo_log_def)
  note f = fold_write_rec[OF length_image[OF l(2)] z R l(1)]
  show "length (fold write_rec R (image_of n fs)) = n * ?z" using f by blast
  show "length (image_of n fs0) = n * ?z" by (rule length_image[OF l(1)])
  fix i assume i: "i < n"
  then have n64: "i < 2 ^ 64" using assms(1) by (simp add: onefs_ok_def)
  have "i \<in> unat ` fst ` set R" if "of_nat i \<in> fst ` set R"
    using imageI[OF that, of unat] by (simp only: unat_of_nat64[OF n64])
  moreover have "disk fs (of_nat i) = disk fs0 (of_nat i)" if "of_nat i \<notin> fst ` set R"
    using that assms(3) by (simp add: undo_log_def)
  ultimately have "dev_block ?z (image_of n fs) i = disk fs0 (of_nat i)" if "i \<notin> unat ` fst ` set R"
    using that by (metis dev_block_image[OF l(2) i])
  with f i show "dev_block ?z (fold write_rec R (image_of n fs)) i = dev_block ?z (image_of n fs0) i"
    by (simp add: dev_block_image[OF l(1) i])
qed

section \<open>Undoing a log\<close>

lemma chosen_all: "\<not> ask opts \<Longrightarrow> restore_all opts \<Longrightarrow> chosen opts inp R = R"
  by (induction R) (simp_all add: ask_user_def)

lemma epoch_bytes_encode:
  "epoch_ok bkt dev st \<Longrightarrow> epoch_bytes dev st = encode_records (epoch_records dev st) \<and> length (epoch_bytes dev st) < 2 ^ 63"
  by (simp add: epoch_ok_def epoch_records_def snapfile_ok_def)

definition msw_of :: "object_data \<Rightarrow> string \<Rightarrow> u64 \<times> bytes \<Rightarrow> make_snapshot_work" where
  "msw_of data date b =
     \<lparr>block_nr = fst b, blocksize = SINGLEFILEFS_BLOCK_SIZE, block = snd b,
      msw_original_dev_name = strscpy (od_original_dev_name data) PATH_MAX, msw_first_mount_date = date\<rparr>"

lemma undo_log_fits:
  assumes "onefs_ok n fs0" "undo_log disk n fs0 R fs" "r \<in> set R"
  shows "record_fits r"
proof -
  obtain b d where r: "r = (b, d)" by (cases r)
  with assms have "unat b < 2 ^ 31" "length d = DEFAULT_BLOCK_SIZE" by (auto simp: undo_log_def onefs_ok_def)
  then show ?thesis by (simp add: record_fits_def r DEFAULT_BLOCK_SIZE_def)
qed

lemma restore_undo:
  assumes "onefs_ok n fs0" "onefs_ok n fs" "undo_log disk n fs0 R fs" "length (encode_records R) < 2 ^ 63"
    and "rs_env_ok renv" "\<not> ask opts" "restore_all opts"
  shows "do_restore renv opts (Some (encode_records R)) (image_of n fs) True inp = Some (True, image_of n fs0)"
  using restore_loop_records[OF assms(5), of R "[]"] undo_log_fits[OF assms(1,3)] assms(4) fold_write_rec_undo[OF assms(1-3)]
  by (simp add: do_restore_def chosen_all[OF assms(6,7)])

definition sample_filp :: xfile where
  "sample_filp = \<lparr>f_mapping = Some \<lparr>host = Some \<lparr>i_sb = Some
     \<lparr>s_bdev = Some \<lparr>bd_dev = 0x800001, bd_lo_file_name = []\<rparr>, s_magic = SINGLEFILEFS_MAGIC\<rparr>\<rparr>\<rparr>\<rparr>"

definition sample_req :: write_req where
  "sample_req = \<lparr>wr_bread = (\<lambda>b. unat b < 10), wr_buf = [1, 2, 3], wr_len = 3, wr_off = 33, wr_key = (7, 1),
     wr_pages = Some (replicate 4096 0)\<rparr>"

end
