(* ===== verification/Passwd.thy ===== *)
theory Passwd
  imports Prelude
begin

text \<open>
  The password of the activation mechanism, \<open>src/kernel/passwd.c\<close>. The digest (\<open>crypto_shash_digest\<close>), the
  random bytes and the allocations are parameters; strings are lists of characters, the password from
  the module's parameter is a buffer whose C string is read. Without the digest algorithm the module
  falls back to comparing the cleartext.
\<close>

section \<open>State and environment\<close>

record passwd_state =
  auth_passwd_salt :: string
  sha256_shash :: bool
  auth_passwd :: "string option"
  activation_ct_passwd :: string

text \<open>\<open>digest s\<close> is the return code and the contents of the output buffer after the call.\<close>

record passwd_env =
  digest :: "string \<Rightarrow> int \<times> string"
  kmalloc_desc_ok :: bool
  kmalloc_data_ok :: bool
  alloc_shash_ok :: bool
  kmalloc_auth_ok :: bool
  random_bytes :: "int \<times> string"

section \<open>Operations\<close>

definition hash_sha256 :: "passwd_env \<Rightarrow> passwd_state \<Rightarrow> string \<Rightarrow> int \<times> string" where
  "hash_sha256 env st data =
     (if \<not> kmalloc_desc_ok env then (- ENOMEM, [])
      else if \<not> kmalloc_data_ok env then (- ENOMEM, [])
      else digest env (cstr data @ auth_passwd_salt st))"

text \<open>The results of \<open>memcmp\<close> and \<open>strcmp\<close> are only compared with 0.\<close>

definition password_cmp :: "passwd_env \<Rightarrow> passwd_state \<Rightarrow> string \<Rightarrow> fault + int" where
  "password_cmp env st passwd =
     (case auth_passwd st of
        None \<Rightarrow> Inl NullDeref
      | Some auth \<Rightarrow>
          if sha256_shash st
          then let (rv, hashed_passwd) = hash_sha256 env st passwd in
            if rv < 0 then Inr rv
            else Inr (if take 32 hashed_passwd = take 32 auth then 0 else 1)
          else Inr (if cstr passwd = cstr auth then 0 else 1))"

definition destroy_passwd :: "passwd_state \<Rightarrow> passwd_state" where
  "destroy_passwd st = st\<lparr>auth_passwd := None, sha256_shash := False\<rparr>"

definition setup_passwd :: "passwd_env \<Rightarrow> passwd_state \<Rightarrow> int \<times> passwd_state" where
  "setup_passwd env st =
     (let actpasswdlen = length (cstr (activation_ct_passwd st));
          wipe = (\<lambda>s. s\<lparr>activation_ct_passwd := replicate actpasswdlen NUL @ drop actpasswdlen (activation_ct_passwd s)\<rparr>)
      in if alloc_shash_ok env then
           let st1 = st\<lparr>sha256_shash := True\<rparr> in
           if \<not> kmalloc_auth_ok env then (- ENOMEM, destroy_passwd st1)
           else
             let st2 = st1\<lparr>auth_passwd := Some []\<rparr> in
             if fst (random_bytes env) = - ERESTARTSYS then (- EINTR, destroy_passwd st2)
             else
               let st3 = st2\<lparr>auth_passwd_salt := snd (random_bytes env)\<rparr>;
                   (rv, hashed) = hash_sha256 env st3 (activation_ct_passwd st3)
               in if rv < 0 then (rv, destroy_passwd st3)
                  else (0, wipe (st3\<lparr>auth_passwd := Some hashed\<rparr>))
         else
           let st1 = st\<lparr>sha256_shash := False\<rparr> in
           if \<not> kmalloc_auth_ok env then (- ENOMEM, destroy_passwd st1)
           else (0, wipe (st1\<lparr>auth_passwd := Some (cstr (activation_ct_passwd st1) @ [NUL])\<rparr>)))"

section \<open>Properties\<close>

text \<open>What a password must match: the salted digest, or the cleartext.\<close>

definition same_password :: "passwd_env \<Rightarrow> string \<Rightarrow> string \<Rightarrow> string \<Rightarrow> bool" where
  "same_password env salt configured passwd \<longleftrightarrow>
     (if alloc_shash_ok env
      then take 32 (snd (digest env (cstr passwd @ salt))) = take 32 (snd (digest env (cstr configured @ salt)))
      else cstr passwd = cstr configured)"

definition passwd_env_ok :: "passwd_env \<Rightarrow> bool" where
  "passwd_env_ok env \<longleftrightarrow> kmalloc_desc_ok env \<and> kmalloc_data_ok env \<and> (\<forall>s. fst (digest env s) = 0)"

lemma same_password_refl: "same_password env salt p p"
  by (simp add: same_password_def)

lemma cstr_wiped [simp]: "cstr (replicate (length (cstr s)) NUL @ drop (length (cstr s)) s) = []"
proof (induction s)
  case (Cons c s)
  then show ?case by (cases "length (cstr (c # s))") (auto simp: cstr_def)
qed (simp add: cstr_def)

lemma hash_sha256_ok:
  "passwd_env_ok env \<Longrightarrow> hash_sha256 env st d = (0, snd (digest env (cstr d @ auth_passwd_salt st)))"
  by (simp add: passwd_env_ok_def hash_sha256_def prod_eq_iff)

lemma setup_passwd_ok:
  assumes "setup_passwd env st = (0, st')" "passwd_env_ok env"
  shows "\<exists>salt. salt = auth_passwd_salt st' \<and> auth_passwd st' \<noteq> None \<and> cstr (activation_ct_passwd st') = [] \<and>
    password_cmp env st' passwd = Inr (if same_password env salt (activation_ct_passwd st) passwd then 0 else 1)"
  using assms
  by (cases "alloc_shash_ok env"; cases "kmalloc_auth_ok env"; cases "random_bytes env")
    (auto simp: setup_passwd_def Let_def hash_sha256_ok password_cmp_def same_password_def split: if_splits)

lemma setup_passwd_failed:
  assumes "setup_passwd env st = (rv, st')" "rv \<noteq> 0"
  shows "rv < 0 \<and> auth_passwd st' = None \<and> \<not> sha256_shash st' \<and> activation_ct_passwd st' = activation_ct_passwd st"
  using assms
  by (cases "alloc_shash_ok env"; cases "kmalloc_auth_ok env"; cases "random_bytes env")
    (auto simp: setup_passwd_def Let_def destroy_passwd_def split: prod.splits if_splits)


definition sample_passwd_env :: passwd_env where
  "sample_passwd_env = \<lparr>digest = (\<lambda>s. (0, take 32 (s @ replicate 32 NUL))), kmalloc_desc_ok = True, kmalloc_data_ok = True,
     alloc_shash_ok = True, kmalloc_auth_ok = True, random_bytes = (0, replicate 32 CHR 0x55)\<rparr>"

definition configured :: "string \<Rightarrow> passwd_state" where
  "configured pw = \<lparr>auth_passwd_salt = replicate 32 NUL, sha256_shash = False, auth_passwd = None, activation_ct_passwd = pw @ [NUL]\<rparr>"


end
