(* ===== verification/Activation.thy ===== *)
theory Activation
  imports Devices Passwd
begin

text \<open>
  The activation interface, \<open>src/kernel/activation.c\<close>: two sysfs files, or one character device when the
  kernel has no sysfs, through which a process passes a device name and a password. The password state
  is separate from the kernel state of \<open>Devices\<close>; a call is one step on the latter.
\<close>

section \<open>Authentication\<close>

record caller =
  euid :: u32
  cl_penv :: passwd_env
  cl_passwd :: passwd_state

definition auth_check :: "caller \<Rightarrow> string \<Rightarrow> fault + int" where
  "auth_check cl passwd =
     (if euid cl \<noteq> 0 then Inr (- EPERM)
      else (case password_cmp (cl_penv cl) (cl_passwd cl) passwd of
        Inl f \<Rightarrow> Inl f
      | Inr r \<Rightarrow> if r \<noteq> 0 then Inr (- EACCES) else Inr 0))"

type_synonym wrapped_call = "string \<Rightarrow> string \<Rightarrow> kstate \<Rightarrow> fault + int \<times> kstate"

definition activate_snapshot :: "caller \<Rightarrow> (u64 \<Rightarrow> nat) \<Rightarrow> ms_env \<Rightarrow> dev_env \<Rightarrow> wrapped_call" where
  "activate_snapshot cl bkt menv env dev_name passwd k =
     (case auth_check cl passwd of
        Inl f \<Rightarrow> Inl f
      | Inr rv \<Rightarrow> if rv \<noteq> 0 then Inr (rv, k) else register_device bkt menv env dev_name k)"

definition deactivate_snapshot :: "caller \<Rightarrow> dev_env \<Rightarrow> wrapped_call" where
  "deactivate_snapshot cl env dev_name passwd k =
     (case auth_check cl passwd of
        Inl f \<Rightarrow> Inl f
      | Inr rv \<Rightarrow> if rv \<noteq> 0 then Inr (rv, k) else unregister_device env dev_name k)"

section \<open>Parsing the call\<close>

text \<open>\<open>isspace\<close> and \<open>strim\<close> of the kernel; 0xA0 is a space there.\<close>

definition k_isspace :: "char \<Rightarrow> bool" where
  "k_isspace c \<longleftrightarrow> c \<in> {CHR '' '', CHR 0x09, CHR 0x0A, CHR 0x0B, CHR 0x0C, CHR 0x0D, CHR 0xA0}"

definition strim :: "string \<Rightarrow> string" where
  "strim s = dropWhile k_isspace (rev (dropWhile k_isspace (rev s)))"

text \<open>\<open>data\<close> is the kernel's buffer; its length is what was allocated. The result is \<open>-EINVAL\<close> or the two strings.\<close>

definition parse_call_args :: "string \<Rightarrow> u64 \<Rightarrow> fault + int + string \<times> string" where
  "parse_call_args data datalen =
     (if unat (datalen - 1) \<ge> length data then Inl OutOfBounds
      else if data ! unat (datalen - 1) \<noteq> NUL then Inr (Inl (- EINVAL))
      else if CR \<notin> set (cstr data) then Inr (Inl (- EINVAL))
      else
        let lhs = takeWhile (\<lambda>c. c \<noteq> CR) (cstr data);
            rhs = tl (dropWhile (\<lambda>c. c \<noteq> CR) data);
            first_nowschr = strim lhs
        in if first_nowschr = [] then Inr (Inl (- EINVAL)) else Inr (Inr (first_nowschr, cstr rhs)))"

text \<open>The length is returned as an \<open>int\<close>.\<close>

definition call_wrapper :: "string \<Rightarrow> u64 \<Rightarrow> wrapped_call \<Rightarrow> kstate \<Rightarrow> fault + int \<times> kstate" where
  "call_wrapper data datalen callback k =
     (case parse_call_args data datalen of
        Inl f \<Rightarrow> Inl f
      | Inr (Inl e) \<Rightarrow> Inr (- EINVAL, k)
      | Inr (Inr (devn, pwd)) \<Rightarrow>
          (case callback devn pwd k of
             Inl f \<Rightarrow> Inl f
           | Inr (retval, k') \<Rightarrow>
               if retval \<noteq> 0 then Inr (retval, k') else Inr (sint (ucast datalen :: u32), k')))"

section \<open>The two interfaces\<close>

text \<open>\<open>data\<close> is the buffer sysfs hands over, of at least \<open>datalen\<close> bytes.\<close>

definition sysfs_call_wrapper :: "bool \<Rightarrow> string \<Rightarrow> u64 \<Rightarrow> wrapped_call \<Rightarrow> kstate \<Rightarrow> fault + int \<times> kstate" where
  "sysfs_call_wrapper kmalloc_ok data datalen fn k =
     (if \<not> kmalloc_ok then Inr (- ENOMEM, k)
      else if unat datalen > length data then Inl OutOfBounds
      else call_wrapper (take (unat datalen) data) datalen fn k)"

definition activate_snapshot_sysfs_store ::
  "caller \<Rightarrow> (u64 \<Rightarrow> nat) \<Rightarrow> ms_env \<Rightarrow> dev_env \<Rightarrow> bool \<Rightarrow> string \<Rightarrow> u64 \<Rightarrow> kstate \<Rightarrow> fault + int \<times> kstate" where
  "activate_snapshot_sysfs_store cl bkt menv env kmalloc_ok data datalen k =
     sysfs_call_wrapper kmalloc_ok data datalen (activate_snapshot cl bkt menv env) k"

definition deactivate_snapshot_sysfs_store ::
  "caller \<Rightarrow> dev_env \<Rightarrow> bool \<Rightarrow> string \<Rightarrow> u64 \<Rightarrow> kstate \<Rightarrow> fault + int \<times> kstate" where
  "deactivate_snapshot_sysfs_store cl env kmalloc_ok data datalen k =
     sysfs_call_wrapper kmalloc_ok data datalen (deactivate_snapshot cl env) k"

text \<open>\<open>struct activation_ioctl_args\<close> stays in user memory and is read field by field, so that its contents may
  change between the reads: \<open>user_args i\<close> is what the \<open>i\<close>-th read finds, \<open>arg_data\<close> the bytes that can be read at
  the pointer. \<open>copy_from_user\<close> fails if it cannot read everything and then zeroes the rest of its target.
  \<open>kmalloc_res\<close> is the buffer of the length asked for, with its contents, or NULL.\<close>

record activation_ioctl_args =
  arg_data :: string
  arg_datalen :: u64

definition ACTIVATE_CHRDEV_IOCTL_CMD :: u32 where "ACTIVATE_CHRDEV_IOCTL_CMD = 0"

definition DEACTIVATE_CHRDEV_IOCTL_CMD :: u32 where "DEACTIVATE_CHRDEV_IOCTL_CMD = 1"

definition activation_chrdev_ioctl ::
  "caller \<Rightarrow> (u64 \<Rightarrow> nat) \<Rightarrow> ms_env \<Rightarrow> dev_env \<Rightarrow> (u64 \<Rightarrow> string option) \<Rightarrow> u32 \<Rightarrow> (nat \<Rightarrow> activation_ioctl_args) \<Rightarrow> kstate \<Rightarrow>
     fault + int \<times> kstate" where
  "activation_chrdev_ioctl cl bkt menv env kmalloc_res cmd user_args k =
     (if cmd \<noteq> ACTIVATE_CHRDEV_IOCTL_CMD \<and> cmd \<noteq> DEACTIVATE_CHRDEV_IOCTL_CMD then Inr (- EINVAL, k)
      else (case kmalloc_res (arg_datalen (user_args 0)) of
        None \<Rightarrow> Inr (- ENOMEM, k)
      | Some buf \<Rightarrow>
          let udata = arg_data (user_args 1); copied = unat (arg_datalen (user_args 2)) in
          if copied > length buf then Inl OutOfBounds
          else if length udata < copied then Inr (- EFAULT, k)
          else
            let fn = (if cmd = ACTIVATE_CHRDEV_IOCTL_CMD then activate_snapshot cl bkt menv env
                      else deactivate_snapshot cl env)
            in call_wrapper (take copied udata @ drop copied buf) (arg_datalen (user_args 3)) fn k))"

section \<open>Setting up\<close>

record act_state =
  act_passwd :: passwd_state
  activate_file :: bool
  deactivate_file :: bool
  activation_chrdev :: "int option"

text \<open>The variants with and without sysfs; the results of the kernel's registration functions are arguments.\<close>

definition setup_activation_mechanism_sysfs :: "passwd_env \<Rightarrow> int \<Rightarrow> int \<Rightarrow> act_state \<Rightarrow> int \<times> act_state" where
  "setup_activation_mechanism_sysfs penv create1 create2 s =
     (let (rv, pst) = setup_passwd penv (act_passwd s); s1 = s\<lparr>act_passwd := pst\<rparr> in
      if rv \<noteq> 0 then (rv, s1)
      else if create1 \<noteq> 0 then (create1, s1\<lparr>act_passwd := destroy_passwd pst\<rparr>)
      else let s2 = s1\<lparr>activate_file := True\<rparr> in
        if create2 \<noteq> 0 then (create2, s2\<lparr>activate_file := False, act_passwd := destroy_passwd pst\<rparr>)
        else (0, s2\<lparr>deactivate_file := True\<rparr>))"

definition setup_activation_mechanism_chrdev :: "passwd_env \<Rightarrow> int \<Rightarrow> act_state \<Rightarrow> int \<times> act_state" where
  "setup_activation_mechanism_chrdev penv maj s =
     (let (rv, pst) = setup_passwd penv (act_passwd s); s1 = s\<lparr>act_passwd := pst\<rparr> in
      if rv \<noteq> 0 then (rv, s1)
      else if maj < 0 then (maj, s1\<lparr>act_passwd := destroy_passwd pst\<rparr>)
      else (0, s1\<lparr>activation_chrdev := Some maj\<rparr>))"

definition destroy_activation_mechanism :: "act_state \<Rightarrow> act_state" where
  "destroy_activation_mechanism s =
     s\<lparr>activate_file := False, deactivate_file := False, activation_chrdev := None,
       act_passwd := destroy_passwd (act_passwd s)\<rparr>"

section \<open>Authentication guards every operation\<close>

text \<open>The bytes a caller passed hold a password that \<open>password_cmp\<close> accepts, and the caller is root.\<close>

definition authenticated :: "caller \<Rightarrow> string \<Rightarrow> u64 \<Rightarrow> bool" where
  "authenticated cl data datalen \<longleftrightarrow> euid cl = 0 \<and>
     (case parse_call_args data datalen of
        Inr (Inr (devn, pwd)) \<Rightarrow> password_cmp (cl_penv cl) (cl_passwd cl) pwd = Inr 0
      | _ \<Rightarrow> False)"

lemma auth_check_0: "auth_check cl pwd = Inr 0 \<longleftrightarrow> euid cl = 0 \<and> password_cmp (cl_penv cl) (cl_passwd cl) pwd = Inr 0"
  by (auto simp: auth_check_def split: sum.splits)

lemma auth_check_neg: "auth_check cl pwd = Inr rv \<Longrightarrow> rv \<le> 0"
  by (auto simp: auth_check_def split: sum.splits if_splits)

text \<open>A call that does nothing but return an error unless the password passes \<open>auth_check\<close>.\<close>

definition guarded :: "caller \<Rightarrow> wrapped_call \<Rightarrow> bool" where
  "guarded cl fn \<longleftrightarrow> (\<forall>dev pwd k rv k'. fn dev pwd k = Inr (rv, k') \<longrightarrow> auth_check cl pwd = Inr 0 \<or> k' = k \<and> rv < 0)"

lemma guarded_calls: "guarded cl (activate_snapshot cl bkt menv env)" "guarded cl (deactivate_snapshot cl env)"
  unfolding guarded_def activate_snapshot_def deactivate_snapshot_def
  by (auto split: sum.splits if_splits dest: auth_check_neg)

lemma guarded_call_wrapper:
  assumes "guarded cl fn" "call_wrapper data datalen fn k = Inr (rv, k')" "k' \<noteq> k \<or> 0 \<le> rv"
  shows "authenticated cl data datalen"
  using assms by (fastforce simp: call_wrapper_def guarded_def authenticated_def auth_check_0 split: sum.splits if_splits)

text \<open>C16: authentication: whenever a call through one of the two sysfs files or the character device changes the
  state of the module or reports success, with whatever memory behind it, the caller is root and the bytes it
  passed, as the kernel copied them, hold a password that \<open>password_cmp\<close> accepts. So a root process with a
  wrong password is refused as anybody else is.\<close>

theorem activation_requires_authentication:
  assumes "k' \<noteq> k \<or> 0 \<le> rv"
  shows "(activate_snapshot_sysfs_store cl bkt menv env kmalloc_ok data datalen k = Inr (rv, k') \<longrightarrow>
      authenticated cl (take (unat datalen) data) datalen) \<and>
    (deactivate_snapshot_sysfs_store cl env kmalloc_ok data datalen k = Inr (rv, k') \<longrightarrow>
      authenticated cl (take (unat datalen) data) datalen) \<and>
    (activation_chrdev_ioctl cl bkt menv env kmalloc_res cmd user_args k = Inr (rv, k') \<longrightarrow>
      (\<exists>buf copied. kmalloc_res (arg_datalen (user_args 0)) = Some buf \<and> copied = unat (arg_datalen (user_args 2)) \<and>
        authenticated cl (take copied (arg_data (user_args 1)) @ drop copied buf) (arg_datalen (user_args 3))))"
  using guarded_call_wrapper[OF guarded_calls(1)[of cl bkt menv env] _ assms]
    guarded_call_wrapper[OF guarded_calls(2)[of cl env] _ assms] assms
  by (auto simp: activate_snapshot_sysfs_store_def deactivate_snapshot_sysfs_store_def sysfs_call_wrapper_def
      activation_chrdev_ioctl_def Let_def split: if_splits option.splits)

definition root_caller :: "string \<Rightarrow> caller" where
  "root_caller pw = \<lparr>euid = 0, cl_penv = sample_passwd_env,
     cl_passwd = snd (setup_passwd sample_passwd_env (configured pw))\<rparr>"

definition user_caller :: "string \<Rightarrow> caller" where
  "user_caller pw = (root_caller pw)\<lparr>euid := 1000\<rparr>"

theorem activation_requires_authentication_witness:
  "\<exists>rv k'. activate_snapshot_sysfs_store (root_caller ''pw'') (\<lambda>_. 0) (sample_env \<lparr>wr_hdr = 40, wr_ext = 0, wr_payld = 2\<rparr>)
     sample_dev_env True (''/dev/sda1'' @ CR # ''px'' @ [NUL]) 13 (started empty_vfs) = Inr (rv, k') \<and>
     k' = started empty_vfs \<and> rv < 0"
proof -
  let ?msg = "''/dev/sda1'' @ CR # ''px'' @ [NUL]" and ?c = "root_caller ''pw''"
  have parse: "parse_call_args ?msg 13 = Inr (Inr (''/dev/sda1'', ''px''))"
    by (simp add: parse_call_args_def cstr_def CR_def NUL_def strim_def k_isspace_def Let_def)
  have cmp: "password_cmp (cl_penv ?c) (cl_passwd ?c) ''px'' = Inr 1"
    by (simp add: root_caller_def sample_passwd_env_def configured_def setup_passwd_def password_cmp_def hash_sha256_def
        Let_def cstr_def NUL_def)
  have "\<not> authenticated ?c (take (unat (13 :: u64)) ?msg) 13"
    using parse cmp by (simp add: authenticated_def NUL_def CR_def)
  moreover obtain rv k' where r: "activate_snapshot_sysfs_store ?c (\<lambda>_. 0) (sample_env \<lparr>wr_hdr = 40, wr_ext = 0, wr_payld = 2\<rparr>)
     sample_dev_env True ?msg 13 (started empty_vfs) = Inr (rv, k')"
    using parse cmp by (simp add: activate_snapshot_sysfs_store_def sysfs_call_wrapper_def call_wrapper_def
        activate_snapshot_def auth_check_def root_caller_def NUL_def CR_def)
  ultimately show ?thesis using activation_requires_authentication[of k' "started empty_vfs" rv ?c] by fastforce
qed

section \<open>The character device trusts user memory\<close>

text \<open>C39: the argument of the \<open>ioctl\<close> is fetched several times: a process that enlarges the length between the
  allocation and the copy overflows the buffer, before its privileges or password are looked at, and so
  does one that passes the length 0 read outside it; with a stable argument of positive length that can be
  read, the call is the one sysfs makes on the same bytes.\<close>

theorem ioctl_double_fetch:
  assumes "cmd = ACTIVATE_CHRDEV_IOCTL_CMD \<or> cmd = DEACTIVATE_CHRDEV_IOCTL_CMD"
    and "\<forall>n. \<exists>buf. kmalloc_res n = Some buf \<and> length buf = unat n"
  shows "(arg_datalen (user_args 0) < arg_datalen (user_args 2) \<longrightarrow>
      activation_chrdev_ioctl cl bkt menv env kmalloc_res cmd user_args k = Inl OutOfBounds) \<and>
    ((\<forall>i. user_args i = \<lparr>arg_data = data, arg_datalen = 0\<rparr>) \<longrightarrow>
      activation_chrdev_ioctl cl bkt menv env kmalloc_res cmd user_args k = Inl OutOfBounds) \<and>
    (\<forall>datalen. (\<forall>i. user_args i = \<lparr>arg_data = data, arg_datalen = datalen\<rparr>) \<and> unat datalen \<le> length data \<longrightarrow>
      activation_chrdev_ioctl cl bkt menv env kmalloc_res cmd user_args k =
        (if cmd = ACTIVATE_CHRDEV_IOCTL_CMD then activate_snapshot_sysfs_store cl bkt menv env True data datalen k
         else deactivate_snapshot_sysfs_store cl env True data datalen k))"
proof (intro conjI impI allI)
  assume lt: "arg_datalen (user_args 0) < arg_datalen (user_args 2)"
  obtain buf where "kmalloc_res (arg_datalen (user_args 0)) = Some buf" "length buf = unat (arg_datalen (user_args 0))"
    using assms(2) by blast
  with assms(1) lt show "activation_chrdev_ioctl cl bkt menv env kmalloc_res cmd user_args k = Inl OutOfBounds"
    by (auto simp: activation_chrdev_ioctl_def word_less_nat_alt)
next
  assume a: "\<forall>i. user_args i = \<lparr>arg_data = data, arg_datalen = 0\<rparr>"
  obtain buf where "kmalloc_res 0 = Some buf" "length buf = 0" using assms(2) by fastforce
  with assms(1) a show "activation_chrdev_ioctl cl bkt menv env kmalloc_res cmd user_args k = Inl OutOfBounds"
    by (auto simp: activation_chrdev_ioctl_def call_wrapper_def parse_call_args_def)
next
  fix datalen assume a: "(\<forall>i. user_args i = \<lparr>arg_data = data, arg_datalen = datalen\<rparr>) \<and> unat datalen \<le> length data"
  obtain buf where "kmalloc_res datalen = Some buf" "length buf = unat datalen" using assms(2) by blast
  with assms(1) a show "activation_chrdev_ioctl cl bkt menv env kmalloc_res cmd user_args k =
      (if cmd = ACTIVATE_CHRDEV_IOCTL_CMD then activate_snapshot_sysfs_store cl bkt menv env True data datalen k
       else deactivate_snapshot_sysfs_store cl env True data datalen k)"
    by (auto simp: activation_chrdev_ioctl_def activate_snapshot_sysfs_store_def deactivate_snapshot_sysfs_store_def
        sysfs_call_wrapper_def)
qed

theorem ioctl_double_fetch_witness:
  "activation_chrdev_ioctl (user_caller ''pw'') (\<lambda>_. 0) (sample_env \<lparr>wr_hdr = 40, wr_ext = 0, wr_payld = 2\<rparr>) sample_dev_env
     (\<lambda>n. Some (replicate (unat n) NUL)) ACTIVATE_CHRDEV_IOCTL_CMD
     (\<lambda>i. \<lparr>arg_data = replicate 100 CHR ''x'', arg_datalen = (if i < 2 then 8 else 100)\<rparr>) (started empty_vfs) = Inl OutOfBounds"
  using ioctl_double_fetch[of ACTIVATE_CHRDEV_IOCTL_CMD "\<lambda>n. Some (replicate (unat n) NUL)"
      "\<lambda>i. \<lparr>arg_data = replicate 100 CHR ''x'', arg_datalen = (if i < 2 then 8 else 100)\<rparr>"] by simp

section \<open>Setting up is all or nothing\<close>

definition no_activation :: "act_state \<Rightarrow> bool" where
  "no_activation s \<longleftrightarrow> \<not> activate_file s \<and> \<not> deactivate_file s \<and> activation_chrdev s = None \<and>
     auth_passwd (act_passwd s) = None \<and> \<not> sha256_shash (act_passwd s)"

lemma setup_activation_failed:
  assumes "setup_activation_mechanism_sysfs penv c1 c2 s = (rv, s')" "rv \<noteq> 0" "no_activation s"
  shows "no_activation s'"
  using assms setup_passwd_failed[of penv "act_passwd s" "fst (setup_passwd penv (act_passwd s))" "snd (setup_passwd penv (act_passwd s))"]
  by (auto simp: setup_activation_mechanism_sysfs_def no_activation_def destroy_passwd_def Let_def split: prod.splits if_splits)

lemma setup_activation_chrdev_failed:
  assumes "setup_activation_mechanism_chrdev penv maj s = (rv, s')" "rv \<noteq> 0" "no_activation s"
  shows "no_activation s'"
  using assms setup_passwd_failed[of penv "act_passwd s" "fst (setup_passwd penv (act_passwd s))" "snd (setup_passwd penv (act_passwd s))"]
  by (auto simp: setup_activation_mechanism_chrdev_def no_activation_def destroy_passwd_def Let_def split: prod.splits if_splits)

lemma destroy_activation_none: "no_activation (destroy_activation_mechanism s)"
  by (simp add: no_activation_def destroy_activation_mechanism_def destroy_passwd_def)

end
