(* ===== verification/Snapframe.thy ===== *)
theory Snapframe
  imports Snapwork
begin

text \<open>
  What the work of one epoch leaves alone (\<open>src/kernel/snapshot.c\<close>): every change it makes to the file system
  is the creation of \<open>/snapshot\<close>, of its own directory or of the file in it, or a write to that file. The
  files of other epochs, on the same or on other devices, keep their contents, as long as the
  directories have different names and no two directory entries share an inode.
\<close>

section \<open>File systems without shared entries\<close>

definition tree_ok :: "vfs \<Rightarrow> bool" where
  "tree_ok v \<longleftrightarrow> vfs_wf v \<and> (\<forall>d name. dir_entry v d name \<noteq> Some ROOT_INO) \<and>
     (\<forall>d name d' name' c. dir_entry v d name = Some c \<longrightarrow> dir_entry v d' name' = Some c \<longrightarrow> d = d' \<and> name = name')"

text \<open>The file the user finds afterwards.\<close>

definition snapshots_file :: "vfs \<Rightarrow> string \<Rightarrow> bytes option" where
  "snapshots_file v sub =
     (case snapdir_of v sub of
        None \<Rightarrow> None
      | Some d \<Rightarrow> (case dir_entry v d ''snapblocks'' of None \<Rightarrow> None | Some f \<Rightarrow> Some (file_data v f)))"

text \<open>The directory does not exist and nothing is in its way.\<close>

definition dir_free :: "vfs \<Rightarrow> string \<Rightarrow> bool" where
  "dir_free v sub \<longleftrightarrow> vfs_wf v \<and> snapdir_of v sub = None \<and> \<not> snapdir_obstacle v sub"

lemma tree_okD:
  assumes "tree_ok v"
  shows "vfs_wf v" "dir_entry v d name \<noteq> Some ROOT_INO"
    "dir_entry v d name = Some c \<Longrightarrow> dir_entry v d' name' = Some c \<Longrightarrow> d = d' \<and> name = name'"
  using assms unfolding tree_ok_def by blast+

lemma fresh_ino:
  assumes "vfs_wf v"
  shows "inodes v (next_ino v) = None" "dir_entry v (next_ino v) name = None" "dir_entry v d name \<noteq> Some (next_ino v)"
    "next_ino v \<noteq> ROOT_INO"
proof -
  show i: "inodes v (next_ino v) = None"
    using assms unfolding vfs_wf_def by (metis less_irrefl not_None_eq)
  then show "dir_entry v (next_ino v) name = None" by (simp add: dir_entry_def)
  show "dir_entry v d name \<noteq> Some (next_ino v)" using wf_entry[OF assms, of d name "next_ino v"] i by auto
  show "next_ino v \<noteq> ROOT_INO" using assms i unfolding vfs_wf_def by auto
qed

text \<open>A new inode in every view.\<close>

lemma new_inode_views:
  assumes wf: "vfs_wf v" and d: "inodes v d \<noteq> None" and w: "w = snd (new_inode kd v d name)"
  shows "dir_entry w x nm = (if x = d \<and> nm = name then Some (next_ino v) else dir_entry v x nm)"
    "d_kind w x = (if x = next_ino v then Some kd else d_kind v x)"
    "file_data w x = (if x = next_ino v then [] else file_data v x)"
  using fresh_ino(1)[OF wf] d
  by (auto simp: w new_inode_def Let_def dir_entry_def d_kind_def file_data_def split: option.splits)

lemma new_inode_tree:
  assumes t: "tree_ok v" and d: "inodes v d \<noteq> None" and free: "dir_entry v d name = None"
  shows "tree_ok (snd (new_inode kd v d name))"
proof -
  let ?w = "snd (new_inode kd v d name)"
  note wf = tree_okD(1)[OF t]
  note e = new_inode_views(1)[OF wf d refl, of kd name]
  obtain p where p: "inodes v d = Some p" using d by auto
  have "i_entries p name = None" using free p by (simp add: dir_entry_def)
  from new_inode_spec(1)[OF wf p this, of kd "fst (new_inode kd v d name)" ?w] have "vfs_wf ?w" by simp
  then show ?thesis
    using tree_okD(2,3)[OF t] fresh_ino(3,4)[OF wf] unfolding tree_ok_def e by auto
qed

section \<open>The changes of one epoch\<close>

definition own_entry :: "string \<Rightarrow> vfs \<Rightarrow> inode_kind \<Rightarrow> nat \<Rightarrow> string \<Rightarrow> bool" where
  "own_entry sub v kd d name \<longleftrightarrow>
     (d = ROOT_INO \<and> name = ''snapshot'' \<and> kd = KDir) \<or>
     (dir_entry v ROOT_INO ''snapshot'' = Some d \<and> name = sub \<and> kd = KDir) \<or>
     (snapdir_of v sub = Some d \<and> name = ''snapblocks'')"

inductive vfs_step :: "string \<Rightarrow> vfs \<Rightarrow> vfs \<Rightarrow> bool" for sub where
  refs: "inodes w = inodes v \<Longrightarrow> next_ino w = next_ino v \<Longrightarrow> vfs_step sub v w"
| make: "\<lbrakk>own_entry sub v kd d name; inodes v d \<noteq> None; dir_entry v d name = None\<rbrakk> \<Longrightarrow>
    vfs_step sub v (snd (new_inode kd v d name))"
| saved: "\<lbrakk>snapdir_of v sub = Some d; dir_entry v d ''snapblocks'' = Some f\<rbrakk> \<Longrightarrow> vfs_step sub v (set_file_data f bs v)"

abbreviation vfs_steps :: "string \<Rightarrow> vfs \<Rightarrow> vfs \<Rightarrow> bool" where
  "vfs_steps sub \<equiv> (vfs_step sub)\<^sup>*\<^sup>*"

text \<open>What another epoch sees.\<close>

definition undisturbed :: "string \<Rightarrow> vfs \<Rightarrow> vfs \<Rightarrow> bool" where
  "undisturbed sub v w \<longleftrightarrow> tree_ok w \<and>
     (\<forall>sub'. sub' \<noteq> sub \<longrightarrow> snapshots_file w sub' = snapshots_file v sub' \<and> (dir_free v sub' \<longrightarrow> dir_free w sub'))"

lemma snapdir_facts:
  assumes t: "tree_ok v" and s: "dir_entry v ROOT_INO ''snapshot'' = Some s"
  shows "s \<noteq> ROOT_INO" "dir_entry v s sub = Some d \<Longrightarrow> d \<noteq> s \<and> d \<noteq> ROOT_INO"
    "dir_entry v s sub = Some d \<Longrightarrow> dir_entry v s sub' = Some d' \<Longrightarrow> sub' \<noteq> sub \<Longrightarrow> d' \<noteq> d"
  using tree_okD(2,3)[OF t] s by metis+

text \<open>The directory of another epoch and its file, in every view.\<close>

definition same_epoch_dir :: "string \<Rightarrow> vfs \<Rightarrow> vfs \<Rightarrow> bool" where
  "same_epoch_dir sub v w \<longleftrightarrow> snapdir_of w sub = snapdir_of v sub \<and>
     (snapdir_obstacle w sub \<longrightarrow> snapdir_obstacle v sub) \<and>
     (\<forall>d. snapdir_of v sub = Some d \<longrightarrow> (dentry_healthy v d \<longrightarrow> dentry_healthy w d) \<and>
        dir_entry w d ''snapblocks'' = dir_entry v d ''snapblocks'' \<and>
        (\<forall>f. dir_entry v d ''snapblocks'' = Some f \<longrightarrow> file_data w f = file_data v f \<and> d_kind w f = d_kind v f))"

lemma same_epoch_dir_file: "same_epoch_dir sub v w \<Longrightarrow> snapshots_file w sub = snapshots_file v sub"
  by (auto simp: same_epoch_dir_def snapshots_file_def split: option.split)

lemma vfs_step_tree_le:
  assumes step: "vfs_step sub v w" and t: "tree_ok v"
  shows "tree_ok w" "dentry_healthy v d \<Longrightarrow> dentry_healthy w d"
proof -
  have "tree_ok w \<and> (dentry_healthy v d \<longrightarrow> dentry_healthy w d)" using step
  proof cases
    case refs
    have "vfs_wf w = vfs_wf v" by (simp add: vfs_wf_def refs)
    then show ?thesis using t by (simp add: tree_ok_def views_cong[OF refs(1)] dentry_healthy_def refs(1))
  next
    case (make kd d name)
    obtain p where p: "inodes v d = Some p" using make(3) by auto
    have "i_entries p name = None" using make(4) p by (simp add: dir_entry_def)
    from new_inode_spec(2)[OF tree_okD(1)[OF t] p this, of kd "fst (new_inode kd v d name)" w] have "vfs_le v w"
      by (simp add: make(1))
    with new_inode_tree[OF t make(3,4)] vfs_le_healthy show ?thesis unfolding make(1) by blast
  next
    case (saved d f bs)
    from wf_entry[OF tree_okD(1)[OF t] saved(3)] obtain i where i: "inodes v f = Some i" by blast
    show ?thesis using t by (simp add: tree_ok_def saved(1) set_file_data_facts(2,4,5)[OF i, of bs])
  qed
  then show "tree_ok w" "dentry_healthy v d \<Longrightarrow> dentry_healthy w d" by simp_all
qed

lemma vfs_step_same_epoch_dir:
  assumes step: "vfs_step sub v w" and t: "tree_ok v" and ne: "sub' \<noteq> sub"
  shows "same_epoch_dir sub' v w"
  using step
proof cases
  case refs
  note same = views_cong[OF refs(1)]
  have data: "file_data w = file_data v" by (simp add: file_data_def refs(1) fun_eq_iff)
  have view: "snapdir_of w sub' = snapdir_of v sub'" "snapdir_obstacle w sub' = snapdir_obstacle v sub'"
    unfolding snapdir_of_def snapdir_obstacle_def obstacle_def same by (rule refl)+
  then show ?thesis by (simp add: same_epoch_dir_def same data dentry_healthy_def refs(1))
next
  case (make kd d name)
  note wf = tree_okD(1)[OF t]
  note e = new_inode_views[OF wf make(3) make(1)] and fr = fresh_ino(2-4)[OF wf]
  have old: "(dentry_healthy v x \<longrightarrow> dentry_healthy w x) \<and>
      (\<forall>f. dir_entry v x nm = Some f \<longrightarrow> file_data w f = file_data v f \<and> d_kind w f = d_kind v f)" for x nm
    using vfs_step_tree_le(2)[OF step t] fr(2) by (auto simp: e)
  from make(2) consider
      (root) "d = ROOT_INO" "name = ''snapshot''" "kd = KDir"
    | (dir) "dir_entry v ROOT_INO ''snapshot'' = Some d" "name = sub" "kd = KDir"
    | (reg) "snapdir_of v sub = Some d" "name = ''snapblocks''"
    by (auto simp: own_entry_def)
  then show ?thesis
  proof cases
    case root
    then have "snapdir_of v sub' = None" "snapdir_of w sub' = None" "\<not> snapdir_obstacle w sub'"
      using make(4) fr by (simp_all add: snapdir_of_def e snapdir_obstacle_def obstacle_def)
    then show ?thesis by (simp add: same_epoch_dir_def)
  next
    case dir
    note f = snapdir_facts[OF t dir(1)]
    have "snapdir_of w sub' = snapdir_of v sub'" using f(1) ne dir by (simp add: snapdir_of_def e)
    moreover have "dir_entry w x ''snapblocks'' = dir_entry v x ''snapblocks''" if "snapdir_of v sub' = Some x" for x
      using f(2)[of sub' x] that dir by (simp add: snapdir_of_def e)
    moreover have "snapdir_obstacle w sub' \<longleftrightarrow> snapdir_obstacle v sub'"
      using f(1) ne dir fr by (auto simp: snapdir_obstacle_def obstacle_def e split: option.splits)
    ultimately show ?thesis using old by (simp add: same_epoch_dir_def)
  next
    case reg
    then obtain s where s: "dir_entry v ROOT_INO ''snapshot'' = Some s" "dir_entry v s sub = Some d"
      by (auto simp: snapdir_of_def split: option.splits)
    note f = snapdir_facts[OF t s(1)]
    have ds: "d \<noteq> s" "d \<noteq> ROOT_INO" using f(2)[OF s(2)] by blast+
    have "snapdir_of w sub' = snapdir_of v sub'" using ds s by (simp add: snapdir_of_def e)
    moreover have "dir_entry w x ''snapblocks'' = dir_entry v x ''snapblocks''" if "snapdir_of v sub' = Some x" for x
      using that s f(3)[OF s(2) _ ne, of x] by (simp add: snapdir_of_def e)
    moreover have "snapdir_obstacle w sub' \<longleftrightarrow> snapdir_obstacle v sub'"
      using ds s fr by (auto simp: snapdir_obstacle_def obstacle_def e split: option.splits)
    ultimately show ?thesis using old by (simp add: same_epoch_dir_def)
  qed
next
  case (saved d f bs)
  from wf_entry[OF tree_okD(1)[OF t] saved(3)] obtain i where i: "inodes v f = Some i" by blast
  note sf = set_file_data_facts(2,3,4)[OF i, of bs]
  obtain s where s: "dir_entry v ROOT_INO ''snapshot'' = Some s" "dir_entry v s sub = Some d"
    using saved(2) by (auto simp: snapdir_of_def split: option.splits)
  have data: "file_data (set_file_data f bs v) x = (if x = f then bs else file_data v x)" for x
    using i by (simp add: file_data_def set_file_data_def)
  have view: "snapdir_of (set_file_data f bs v) sub' = snapdir_of v sub'"
    "snapdir_obstacle (set_file_data f bs v) sub' = snapdir_obstacle v sub'"
    unfolding snapdir_of_def snapdir_obstacle_def obstacle_def sf by (rule refl)+
  have "x \<noteq> f" if "snapdir_of v sub' = Some d'" "dir_entry v d' ''snapblocks'' = Some x" for d' x
    using that s snapdir_facts(3)[OF t s(1) s(2) _ ne, of d'] tree_okD(3)[OF t saved(3), of d']
    by (auto simp: snapdir_of_def)
  then show ?thesis by (simp add: same_epoch_dir_def saved(1) view sf data)
qed

lemma vfs_step_undisturbed:
  assumes step: "vfs_step sub v w" and t: "tree_ok v"
  shows "undisturbed sub v w"
proof -
  have "snapshots_file w sub' = snapshots_file v sub' \<and> (dir_free v sub' \<longrightarrow> dir_free w sub')" if "sub' \<noteq> sub" for sub'
    using vfs_step_same_epoch_dir[OF step t that] same_epoch_dir_file[of sub' v w] tree_okD(1)[OF vfs_step_tree_le(1)[OF step t]]
    by (auto simp: dir_free_def same_epoch_dir_def)
  with vfs_step_tree_le(1)[OF step t] show ?thesis by (simp add: undisturbed_def)
qed

text \<open>An open epoch stays as it is while the works of others run.\<close>

definition epoch_named :: "string \<Rightarrow> epoch \<times> vfs \<Rightarrow> bool" where
  "epoch_named dev st \<longleftrightarrow> (\<forall>d. path_snapdir (fst st) = Some d \<longrightarrow>
     snapdir_of (snd st) (subdir_name dev (first_mount_date (fst st))) = Some d)"

lemma same_epoch_dir_views:
  assumes "same_epoch_dir sub v w" "snapdir_of v sub = Some d"
  shows "saved_bytes w d = saved_bytes v d" "file_obstacle w d = file_obstacle v d"
  using assms by (auto simp: same_epoch_dir_def saved_bytes_def file_obstacle_def file_data_def split: option.splits)

lemma same_epoch_dir_epoch:
  assumes same: "same_epoch_dir (subdir_name dev (first_mount_date ep)) v w" and wf: "vfs_wf w"
    and ok: "epoch_ok bkt dev (ep, v)" and named: "epoch_named dev (ep, v)"
  shows "epoch_ok bkt dev (ep, w)" "epoch_named dev (ep, w)" "epoch_bytes dev (ep, w) = epoch_bytes dev (ep, v)"
proof -
  let ?sub = "subdir_name dev (first_mount_date ep)"
  note S = same[unfolded same_epoch_dir_def]
  show n: "epoch_named dev (ep, w)" using named S by (simp add: epoch_named_def)
  have dir: "epoch_dir dev (ep, u) = snapdir_of u ?sub" if "epoch_named dev (ep, u)" for u
    using that by (auto simp: epoch_named_def epoch_dir_def split: option.split)
  have d: "epoch_dir dev (ep, w) = epoch_dir dev (ep, v)" using S by (simp add: dir n named)
  show b: "epoch_bytes dev (ep, w) = epoch_bytes dev (ep, v)"
    using same_epoch_dir_views[OF same] by (auto simp: epoch_bytes_def d dir[OF named] split: option.split)
  have "file_obstacle w x = file_obstacle v x" if "epoch_dir dev (ep, v) = Some x" for x
    using same_epoch_dir_views(2)[OF same] that by (simp add: dir[OF named])
  then show "epoch_ok bkt dev (ep, w)"
    using ok wf S named by (auto simp: epoch_ok_def epoch_records_def b d epoch_named_def split: option.splits)
qed

lemma vfs_steps_undisturbed: "vfs_steps sub v w \<Longrightarrow> tree_ok v \<Longrightarrow> undisturbed sub v w"
proof (induction rule: rtranclp_induct)
  case base
  then show ?case by (simp add: undisturbed_def)
next
  case (step u w)
  have "undisturbed sub u w" by (rule vfs_step_undisturbed) (use step in \<open>simp_all add: undisturbed_def\<close>)
  with step show ?case by (simp add: undisturbed_def)
qed

lemma same_epoch_dir_trans: "same_epoch_dir sub u v \<Longrightarrow> same_epoch_dir sub v w \<Longrightarrow> same_epoch_dir sub u w"
  unfolding same_epoch_dir_def by simp

lemma vfs_steps_same_epoch_dir:
  "vfs_steps sub v w \<Longrightarrow> tree_ok v \<Longrightarrow> tree_ok w \<and> (sub' \<noteq> sub \<longrightarrow> same_epoch_dir sub' v w)"
proof (induction rule: rtranclp_induct)
  case base
  then show ?case by (simp add: same_epoch_dir_def)
next
  case (step u w)
  then show ?case
    using vfs_step_same_epoch_dir[OF step(2), of sub'] vfs_step_tree_le(1)[OF step(2)] same_epoch_dir_trans by blast
qed

section \<open>The work makes only such changes\<close>

lemma vfs_steps_refs: "inodes w = inodes v \<Longrightarrow> next_ino w = next_ino v \<Longrightarrow> vfs_steps sub v w"
  by (intro r_into_rtranclp vfs_step.refs)

lemma vfs_steps_make:
  "own_entry sub v kd d name \<Longrightarrow> dentry_healthy v d \<Longrightarrow> dir_entry v d name = None \<Longrightarrow> new_inode kd v d name = (c, w) \<Longrightarrow>
    vfs_steps sub v w"
  using vfs_step.make[of sub v kd d name] by (auto simp: dentry_healthy_def split: option.splits)

lemma mkdir_may_exist_steps:
  assumes "own_entry sub v KDir d name" "dentry_healthy v d" "mkdir_may_exist env name d v = (r, w)"
  shows "vfs_steps sub v w"
proof (cases "dir_entry v d name")
  case None
  obtain c u where u: "new_inode KDir v d name = (c, u)" by (cases "new_inode KDir v d name")
  note vfs_steps_make[OF assms(1,2) None u]
  moreover have "vfs_steps sub u (dget c u)" by (rule vfs_steps_refs) simp_all
  moreover have "w = v \<or> w = dget c u"
    using assms(3) None u
    by (auto simp: mkdir_may_exist_def vfs_path_lookup_def mkdir_via_name_by_dent_def split: if_splits prod.splits)
  ultimately show ?thesis by auto
next
  case (Some c)
  then show ?thesis using assms(3)
    by (intro vfs_steps_refs) (auto simp: mkdir_may_exist_def vfs_path_lookup_def Let_def split: if_splits)
qed

lemma init_path_snapdir_steps:
  assumes wf: "vfs_wf v" and res: "init_path_snapdir env sub v = (ok, p, w)"
  shows "vfs_steps sub v w"
proof (cases "kern_path_err env \<noteq> 0")
  case True
  then show ?thesis using res by (simp add: init_path_snapdir_def)
next
  case kern: False
  let ?v1 = "path_get ROOT_INO v"
  have v1: "vfs_wf ?v1" "dentry_healthy ?v1 ROOT_INO" using wf wf_root by auto
  have s1: "vfs_steps sub v ?v1" by (rule vfs_steps_refs) simp_all
  obtain r v2 where m1: "mkdir_may_exist env ''snapshot'' ROOT_INO ?v1 = (r, v2)"
    by (cases "mkdir_may_exist env ''snapshot'' ROOT_INO ?v1")
  have s2: "vfs_steps sub ?v1 v2" by (rule mkdir_may_exist_steps[OF _ v1(2) m1]) (simp add: own_entry_def)
  show ?thesis
  proof (cases r)
    case None
    then have "vfs_steps sub v2 w" using res kern m1
      by (intro vfs_steps_refs) (auto simp: init_path_snapdir_def Let_def)
    with s1 s2 show ?thesis by simp
  next
    case (Some s)
    note a = mkdir_may_exist_Some[OF v1 m1[unfolded Some]]
    obtain r3 v3 where m2: "mkdir_may_exist env sub s v2 = (r3, v3)" by (cases "mkdir_may_exist env sub s v2")
    have s3: "vfs_steps sub v2 v3" by (rule mkdir_may_exist_steps[OF _ a(3) m2]) (simp add: own_entry_def a(4))
    have "vfs_steps sub v3 w" using res kern m1 m2 Some
      by (intro vfs_steps_refs) (auto simp: init_path_snapdir_def Let_def path_snapdir_get_def split: option.splits if_splits)
    with s1 s2 s3 show ?thesis by simp
  qed
qed

lemma ensure_path_snapdir_ok_steps:
  assumes "vfs_wf v" "ensure_path_snapdir_ok env p dev date v = (ok, q, w)"
  shows "vfs_steps (subdir_name dev date) v w"
proof -
  have none: "vfs_steps (subdir_name dev date) u w"
    if "vfs_wf u" "ensure_path_snapdir_ok env None dev date u = (ok, q, w)" for u
    using that init_path_snapdir_steps[OF that(1), of env "subdir_name dev date"] by (auto split: if_splits)
  show ?thesis
  proof (cases p)
    case (Some d)
    show ?thesis
    proof (cases "dentry_healthy v d")
      case False
      then have e: "ensure_path_snapdir_ok env None dev date (path_put d v) = (ok, q, w)" using assms(2) Some by simp
      have "vfs_steps (subdir_name dev date) v (path_put d v)" by (rule vfs_steps_refs) simp_all
      moreover have "vfs_steps (subdir_name dev date) (path_put d v) w" by (rule none[OF _ e]) (simp add: assms(1))
      ultimately show ?thesis by simp
    qed (use assms(2) Some in simp)
  qed (use none assms in simp)
qed

lemma ensure_snapblocks_file_ok_steps:
  assumes "snapdir_of v sub = Some d" "dentry_healthy v d" "ensure_snapblocks_file_ok env d v = (ok, f, w)"
  shows "vfs_steps sub v w"
proof (cases "dir_entry v d ''snapblocks''")
  case None
  obtain c u where u: "new_inode KReg v d ''snapblocks'' = (c, u)" by (cases "new_inode KReg v d ''snapblocks''")
  have "vfs_steps sub v u" by (rule vfs_steps_make[OF _ assms(2) None u]) (simp add: own_entry_def assms(1))
  moreover have "w = v \<or> inodes w = inodes u \<and> next_ino w = next_ino u"
    using assms(3) None u
    by (auto simp: ensure_snapblocks_file_ok_def vfs_path_lookup_def create_snapblocks_file_def dentry_open_def Let_def
        split: if_splits)
  ultimately show ?thesis using vfs_steps_refs[of w u sub] by auto
next
  case (Some c)
  then show ?thesis using assms(3)
    by (intro vfs_steps_refs)
      (auto simp: ensure_snapblocks_file_ok_def vfs_path_lookup_def dentry_open_def Let_def split: if_splits)
qed

lemma snapshot_into_file_steps:
  assumes "snapdir_of v sub = Some d" "dir_entry v d ''snapblocks'' = Some f"
    and "snapshot_into_file bkt env w f l v = Inr (l', v')"
  shows "vfs_steps sub v v'"
proof -
  have "\<exists>u. (u = v \<or> (\<exists>bs. u = set_file_data f bs v)) \<and> v' = fput f u"
    using assms(3) by (auto simp: snapshot_into_file_def Let_def split: option.splits bool.splits prod.splits if_splits)
  then obtain u where u: "u = v \<or> (\<exists>bs. u = set_file_data f bs v)" "v' = fput f u" by blast
  have "vfs_steps sub v u" using u(1) vfs_step.saved[OF assms(1,2)] by auto
  moreover have "vfs_steps sub u v'" by (rule vfs_steps_refs) (simp_all add: u(2) fput_def)
  ultimately show ?thesis by simp
qed

lemma destroy_an_epoch_steps: "destroy_an_epoch lsz ep v = Inr w \<Longrightarrow> vfs_steps sub v w"
  by (rule vfs_steps_refs) (auto simp: destroy_an_epoch_def Let_def split: option.splits sum.splits)

end
