(* ===== verification/Service.thy ===== *)
theory Service
  imports Tracked Activation System Snapframe
begin

text \<open>
  The service from the activation of a device to the restored image, as its user sees it: the device is
  activated with the password, mounted, written to while the worker of its queue runs at any time,
  unmounted, and the \<open>snapblocks\<close> file found under its name is restored. The functions of the other
  theories are composed in the order in which user, kernel and worker call them.
\<close>

section \<open>A session\<close>

text \<open>While the file system is mounted, threads write to the file and the worker of the queue runs items.\<close>

datatype session_step = SWrite write_req | SWork

fun writes_of :: "session_step list \<Rightarrow> write_req list" where
  "writes_of [] = []"
| "writes_of (SWrite req # steps) = req # writes_of steps"
| "writes_of (SWork # steps) = writes_of steps"

record machine =
  m_keyhash :: "xkpblocks_key \<Rightarrow> nat"
  m_bkt :: "u64 \<Rightarrow> nat"
  m_bd_env :: bd_env
  m_ms_env :: ms_env
  m_dev_env :: dev_env

fun mounted_session ::
  "machine \<Rightarrow> block_device \<Rightarrow> xfile \<Rightarrow> nat \<Rightarrow> session_step list \<Rightarrow> onefilefs \<times> kstate \<times> xkpblocks \<Rightarrow>
     fault + onefilefs \<times> kstate \<times> xkpblocks" where
  "mounted_session m bdev filp w [] s = Inr s"
| "mounted_session m bdev filp w (SWrite req # steps) s =
     (case tracked_write (m_keyhash m) (m_bd_env m) bdev filp req s of
        Inl f \<Rightarrow> Inl f | Inr s' \<Rightarrow> mounted_session m bdev filp w steps s')"
| "mounted_session m bdev filp w (SWork # steps) s =
     (case run_wq_head (m_bkt m) (m_ms_env m) w (fst (snd s)) of
        Inl f \<Rightarrow> Inl f | Inr k' \<Rightarrow> mounted_session m bdev filp w steps (fst s, k', snd (snd s)))"

text \<open>The queue of a registered device.\<close>

definition queue_of :: "block_device \<Rightarrow> kstate \<Rightarrow> nat option" where
  "queue_of bdev k =
     (case get_device_data_always (from_block_device_to_mountinfo bdev) k of
        None \<Rightarrow> None
      | Some oid \<Rightarrow> (case objs k oid of None \<Rightarrow> None | Some data \<Rightarrow> od_wq data))"

text \<open>One mount of a registered device, from the probe of the mount to the end of the works of its epoch.\<close>

definition mount_session ::
  "machine \<Rightarrow> block_device \<Rightarrow> xfile \<Rightarrow> tm \<Rightarrow> mount_call \<Rightarrow> pt_regs \<Rightarrow> session_step list \<Rightarrow>
     onefilefs \<times> kstate \<times> xkpblocks \<Rightarrow> fault + onefilefs \<times> kstate \<times> xkpblocks" where
  "mount_session m bdev filp t call uregs steps s =
     (let (fs, k, x) = s in
      case krps_mount True True t call k of
        Inl f \<Rightarrow> Inl f
      | Inr k1 \<Rightarrow>
          (case queue_of bdev k1 of
             None \<Rightarrow> Inl NullDeref
           | Some w \<Rightarrow>
               (case mounted_session m bdev filp w steps (fs, k1, x) of
                  Inl f \<Rightarrow> Inl f
                | Inr (fs', k2, x') \<Rightarrow>
                    (case krp_umount True True uregs k2 of
                       Inl f \<Rightarrow> Inl f
                     | Inr k3 \<Rightarrow>
                         (case flush_workqueue (m_bkt m) (m_ms_env m) w k3 of
                            Inl f \<Rightarrow> Inl f | Inr k4 \<Rightarrow> Inr (fs', k4, x'))))))"

text \<open>The whole session; its first result is that of the activation, and an activation that fails ends it.\<close>

definition service_session ::
  "machine \<Rightarrow> caller \<Rightarrow> string \<Rightarrow> string \<Rightarrow> block_device \<Rightarrow> xfile \<Rightarrow> tm \<Rightarrow> mount_call \<Rightarrow> pt_regs \<Rightarrow> session_step list \<Rightarrow>
     onefilefs \<times> kstate \<times> xkpblocks \<Rightarrow> fault + int \<times> onefilefs \<times> kstate" where
  "service_session m cl passwd path bdev filp t call uregs steps s =
     (let (fs, k, x) = s in
      case activate_snapshot cl (m_bkt m) (m_ms_env m) (m_dev_env m) path passwd k of
        Inl f \<Rightarrow> Inl f
      | Inr (rv, k1) \<Rightarrow>
          if rv \<noteq> 0 then Inr (rv, fs, k1)
          else (case mount_session m bdev filp t call uregs steps (fs, k1, x) of
            Inl f \<Rightarrow> Inl f | Inr (fs', k2, x') \<Rightarrow> Inr (0, fs', k2)))"

section \<open>The directory keeps its name\<close>

lemma epoch_named_bytes:
  "epoch_named dev (ep, v) \<Longrightarrow> epoch_bytes dev (ep, v) =
     (case snapdir_of v (subdir_name dev (first_mount_date ep)) of None \<Rightarrow> [] | Some d \<Rightarrow> saved_bytes v d)"
  by (auto simp: epoch_named_def epoch_bytes_def epoch_dir_def split: option.splits)

lemma vfs_le_snapdir: "vfs_le v w \<Longrightarrow> snapdir_of v sub = Some d \<Longrightarrow> snapdir_of w sub = Some d"
proof -
  assume le: "vfs_le v w" and "snapdir_of v sub = Some d"
  then obtain s where "dir_entry v ROOT_INO ''snapshot'' = Some s" "dir_entry v s sub = Some d"
    by (auto simp: snapdir_of_def split: option.splits)
  with vfs_le_entry[OF le] show ?thesis by (simp add: snapdir_of_def)
qed

lemma new_inode_entry:
  assumes "dir_entry v d name = None" "vfs_wf v" "dir_entry v e nm = Some c"
  shows "dir_entry (snd (new_inode kd v d name)) e nm = Some c"
proof -
  from assms(3) obtain i where i: "inodes v e = Some i" "i_entries i nm = Some c" by (auto simp: dir_entry_def split: option.splits)
  with assms(2) have "e < next_ino v" by (auto simp: vfs_wf_def)
  with i assms(1) show ?thesis by (auto simp: new_inode_def dir_entry_def Let_def split: option.splits)
qed

lemma ensure_snapblocks_file_ok_entry:
  assumes "vfs_wf v" "dir_entry v e nm = Some c"
  shows "dir_entry (snd (snd (ensure_snapblocks_file_ok env d v))) e nm = Some c"
proof (cases "dir_entry v d ''snapblocks''")
  case None
  obtain c' v1 where n: "new_inode KReg v d ''snapblocks'' = (c', v1)" by (cases "new_inode KReg v d ''snapblocks''")
  with new_inode_entry[OF None assms, of KReg] have "dir_entry v1 e nm = Some c" by simp
  with None n assms(2) show ?thesis
    by (auto simp: ensure_snapblocks_file_ok_def vfs_path_lookup_def create_snapblocks_file_def dentry_open_def Let_def)
qed (use assms(2) in \<open>auto simp: ensure_snapblocks_file_ok_def vfs_path_lookup_def dentry_open_def Let_def\<close>)

lemma snapshot_into_file_entry:
  assumes "snapshot_into_file bkt env msw f l v = Inr (l', v')"
  shows "dir_entry v' = dir_entry v"
proof -
  have "dir_entry (set_file_data f bs v) = dir_entry v" for bs
    using set_file_data_facts(2) by (cases "inodes v f") (auto simp: set_file_data_def)
  with assms show ?thesis
    by (auto simp: snapshot_into_file_def Let_def split: option.splits bool.splits prod.splits if_splits)
qed

lemma make_snapshot_named:
  assumes ms: "make_snapshot bkt env w (ep, v) = Inr (ep', v')" and ok: "epoch_ok bkt dev (ep, v)" "ms_env_ok env"
    and w: "work_for dev (first_mount_date ep) w" and named: "epoch_named dev (ep, v)"
  shows "epoch_named dev (ep', v')" "vfs_steps (subdir_name dev (first_mount_date ep)) v v'"
proof -
  let ?sub = "subdir_name dev (first_mount_date ep)"
  have wf: "vfs_wf v" and env: "snapdir_env_ok (sd_env env)" using ok by (simp_all add: epoch_ok_def ms_env_ok_def)
  obtain d v1 f v2 where
    e: "ensure_path_snapdir_ok (sd_env env) (path_snapdir ep) dev (first_mount_date ep) v = (True, Some d, v1)"
    and o: "ensure_snapblocks_file_ok (sd_env env) d v1 = (True, FPtr f, v2)"
    and f: "dir_entry v2 d ''snapblocks'' = Some f" by (rule reach_snapblocks[OF ok(1) env])
  from ensure_path_snapdir_ok_result[OF wf e]
  have v1: "vfs_wf v1" "snapdir_of v1 ?sub = Some d" "dentry_healthy v1 d"
    using named ok(1) by (auto simp: epoch_named_def epoch_ok_def split: option.splits if_splits)
  have "dir_entry v2 a nm = Some c" if "dir_entry v1 a nm = Some c" for a nm c
    using ensure_snapblocks_file_ok_entry[OF v1(1) that, of "sd_env env" d] by (simp add: o)
  with v1(2) have v2: "snapdir_of v2 ?sub = Some d" by (auto simp: snapdir_of_def split: option.splits)
  have steps: "vfs_steps ?sub v v1" "vfs_steps ?sub v1 v2"
    by (rule ensure_path_snapdir_ok_steps[OF wf e], rule ensure_snapblocks_file_ok_steps[OF v1(2,3) o])
  have "snapdir_of v3 ?sub = Some d" if "snapshot_into_file bkt env w f l v2 = Inr (l', v3)" for l l' v3
    using v2 unfolding snapdir_of_def snapshot_into_file_entry[OF that] .
  then show "epoch_named dev (ep', v')" using ms named w e o
    by (auto simp: make_snapshot_def Let_def epoch_named_def work_for_def split: sum.splits option.splits prod.splits if_splits)
  have "v' = v \<or> v' = v1 \<or> v' = v2 \<or> (\<exists>l l'. snapshot_into_file bkt env w f l v2 = Inr (l', v'))" using ms w e o
    by (auto simp: make_snapshot_def Let_def work_for_def split: sum.splits option.splits prod.splits if_splits)
  then have "v' = v \<or> v' = v1 \<or> vfs_steps ?sub v2 v'" using snapshot_into_file_steps[OF v2 f] by auto
  with steps show "vfs_steps ?sub v v'" by auto
qed

section \<open>Serving a mounted device\<close>

text \<open>The queue of an epoch during a session: the blocks \<open>D\<close> have been worked on, the blocks \<open>P\<close> are queued, in
  front of the items \<open>q\<close>. The records saved are the first contents of each number in \<open>D\<close>.\<close>

definition pending ::
  "(u64 \<Rightarrow> nat) \<Rightarrow> vfs \<Rightarrow> object_data \<Rightarrow> nat \<Rightarrow> nat \<Rightarrow> string \<Rightarrow> (u64 \<times> bytes) list \<Rightarrow> (u64 \<times> bytes) list \<Rightarrow> work list \<Rightarrow>
     kstate \<Rightarrow> bool" where
  "pending bkt v0 data e w date D P q k \<longleftrightarrow>
     (let name = strscpy (od_original_dev_name data) PATH_MAX in
      \<exists>ep. epochs k e = Some ep \<and> wqs k w = Some (map (snapshot_work data e date) P @ q) \<and>
        first_mount_date ep = date \<and> epoch_ok bkt name (ep, kvfs k) \<and> epoch_named name (ep, kvfs k) \<and>
        epoch_records name (ep, kvfs k) = fold log_add D [] \<and>
        vfs_steps (subdir_name name date) v0 (kvfs k) \<and>
        (\<forall>(b, d) \<in> set (D @ P). length d = DEFAULT_BLOCK_SIZE))"

definition machine_ok :: "machine \<Rightarrow> bool" where
  "machine_ok m \<longleftrightarrow> kmalloc_msw_ok (m_bd_env m) \<and> kmalloc_block_ok (m_bd_env m) \<and> ms_env_ok (m_ms_env m) \<and>
     wr_hdr (write_res (m_ms_env m)) = 40 \<and> wr_payld (write_res (m_ms_env m)) = 4096 \<and> reg_env_ok (m_dev_env m)"

lemma pendingE:
  assumes "pending bkt v0 data e w date D P q k"
  obtains ep where "epochs k e = Some ep" "wqs k w = Some (map (snapshot_work data e date) P @ q)"
    "first_mount_date ep = date" "epoch_ok bkt (strscpy (od_original_dev_name data) PATH_MAX) (ep, kvfs k)"
    "epoch_named (strscpy (od_original_dev_name data) PATH_MAX) (ep, kvfs k)"
    "epoch_records (strscpy (od_original_dev_name data) PATH_MAX) (ep, kvfs k) = fold log_add D []"
    "\<forall>(b, d) \<in> set (D @ P). length d = DEFAULT_BLOCK_SIZE"
    "vfs_steps (subdir_name (strscpy (od_original_dev_name data) PATH_MAX) date) v0 (kvfs k)"
  using assms unfolding pending_def Let_def by blast

lemma pendingI:
  assumes "epochs k e = Some ep" "wqs k w = Some (map (snapshot_work data e date) P @ q)"
    "first_mount_date ep = date" "epoch_ok bkt (strscpy (od_original_dev_name data) PATH_MAX) (ep, kvfs k)"
    "epoch_named (strscpy (od_original_dev_name data) PATH_MAX) (ep, kvfs k)"
    "epoch_records (strscpy (od_original_dev_name data) PATH_MAX) (ep, kvfs k) = fold log_add D []"
    "\<forall>(b, d) \<in> set (D @ P). length d = DEFAULT_BLOCK_SIZE"
    "vfs_steps (subdir_name (strscpy (od_original_dev_name data) PATH_MAX) date) v0 (kvfs k)"
  shows "pending bkt v0 data e w date D P q k"
  using assms unfolding pending_def Let_def by blast

lemma length_fold_log_add:
  "\<forall>(b, d) \<in> set L \<union> set R. length d = DEFAULT_BLOCK_SIZE \<Longrightarrow>
    length (encode_records (fold log_add L R)) \<le> length (encode_records R) + 4136 * length L"
proof (induction L arbitrary: R)
  case (Cons r L)
  have "length (encode_records (log_add r R)) \<le> length (encode_records R) + 4136"
    using log_add_bytes[of r R] Cons.prems by (auto simp: DEFAULT_BLOCK_SIZE_def)
  moreover have "\<forall>(b, d) \<in> set L \<union> set (log_add r R). length d = DEFAULT_BLOCK_SIZE"
    using Cons.prems by (auto simp: log_add_def)
  note Cons.IH[OF this]
  ultimately show ?case by simp
qed simp

text \<open>What the activity of one device changes: its object, its queue, its epoch and its directory.\<close>

definition device_change :: "nat \<Rightarrow> nat \<Rightarrow> nat \<Rightarrow> string \<Rightarrow> kstate \<Rightarrow> kstate \<Rightarrow> bool" where
  "device_change oid w e sub k k' \<longleftrightarrow>
     blkdevs_ht k' = blkdevs_ht k \<and> loops_ht k' = loops_ht k \<and> allow_reging_operation k' = allow_reging_operation k \<and>
     system_wq k' = system_wq k \<and> dom (objs k') = dom (objs k) \<and> next_id k \<le> next_id k' \<and>
     (\<forall>x. x \<noteq> oid \<longrightarrow> objs k' x = objs k x) \<and> (\<forall>x. x \<noteq> w \<longrightarrow> wqs k' x = wqs k x) \<and>
     (\<forall>x. x \<noteq> e \<longrightarrow> epochs k' x = epochs k x) \<and> vfs_steps sub (kvfs k) (kvfs k')"

lemma device_change_refl [simp]: "device_change oid w e sub k k"
  by (simp add: device_change_def)

lemma device_change_trans:
  "device_change oid w e sub k k1 \<Longrightarrow> device_change oid w e sub k1 k2 \<Longrightarrow> device_change oid w e sub k k2"
  unfolding device_change_def using rtranclp_trans[of "vfs_step sub" "kvfs k" "kvfs k1" "kvfs k2"] by simp

lemma device_change_lookup:
  "device_change oid w e sub k k' \<Longrightarrow> get_device_data_always minfo k' = get_device_data_always minfo k"
  by (simp add: device_change_def get_device_data_always_def split: mountinfo.split)

text \<open>One run of the worker takes the next block.\<close>

lemma pending_work:
  assumes pen: "pending bkt v0 data e w date D (r # P) q k" and env: "ms_env_ok menv"
    "wr_hdr (write_res menv) = 40" "wr_payld (write_res menv) = 4096" and few: "length D < 2 ^ 50"
    and ep: "epochs k e = Some ep"
  shows "\<exists>k' ep' v'. run_wq_head bkt menv w k = Inr k' \<and> pending bkt v0 data e w date (D @ [r]) P q k' \<and>
    k' = k\<lparr>wqs := (wqs k)(w \<mapsto> map (snapshot_work data e date) P @ q), epochs := (epochs k)(e \<mapsto> ep'), kvfs := v'\<rparr> \<and>
    n_currently_mounted ep' = n_currently_mounted ep \<and>
    device_change oid w e (subdir_name (strscpy (od_original_dev_name data) PATH_MAX) date) k k'"
proof -
  let ?name = "strscpy (od_original_dev_name data) PATH_MAX" and ?m = "msw_of data date r"
  from pen obtain ep where e: "epochs k e = Some ep"
    and q: "wqs k w = Some (map (snapshot_work data e date) (r # P) @ q)" and date: "first_mount_date ep = date"
    and ok: "epoch_ok bkt ?name (ep, kvfs k)" "epoch_named ?name (ep, kvfs k)"
    and R: "epoch_records ?name (ep, kvfs k) = fold log_add D []"
    and DP: "\<forall>(b, d) \<in> set (D @ r # P). length d = DEFAULT_BLOCK_SIZE"
    and v0: "vfs_steps (subdir_name ?name date) v0 (kvfs k)" by (rule pendingE)
  have r: "length (snd r) = 4096" using DP by (auto simp: DEFAULT_BLOCK_SIZE_def)
  have w: "work_for ?name (first_mount_date ep) ?m" and full: "full_write (write_res menv) (block ?m)"
    using env(2,3) r by (simp_all add: work_for_def full_write_def msw_of_def date SINGLEFILEFS_BLOCK_SIZE_def)
  have "length (epoch_bytes ?name (ep, kvfs k)) \<le> 4136 * length D"
    using epoch_bytes_encode[OF ok(1)] length_fold_log_add[of D "[]"] DP by (simp add: R)
  then have room: "snapfile_room (epoch_bytes ?name (ep, kvfs k)) (block ?m)"
    using few r by (simp add: snapfile_room_def msw_of_def)
  obtain ep' v' where s: "make_snapshot bkt menv ?m (ep, kvfs k) = Inr (ep', v')" "epoch_ok bkt ?name (ep', v')"
    "epoch_records ?name (ep', v') = log_add (block_nr ?m, block ?m) (epoch_records ?name (ep, kvfs k))"
    "first_mount_date ep' = first_mount_date ep" by (rule make_snapshot_step[OF ok(1) env(1) full w room])
  note n = make_snapshot_named[OF s(1) ok(1) env(1) w ok(2), unfolded date]
  let ?k = "k\<lparr>wqs := (wqs k)(w \<mapsto> map (snapshot_work data e date) P @ q), epochs := (epochs k)(e \<mapsto> ep'), kvfs := v'\<rparr>"
  have h: "snapshot_work data e date r = SnapshotWork e ?m" by (simp add: snapshot_work_def msw_of_def)
  have "run_wq_head bkt menv w k = Inr ?k" using q e s(1) by (simp add: run_wq_head_def run_work_unfold h)
  moreover have "pending bkt v0 data e w date (D @ [r]) P q ?k"
    by (rule pendingI) (use s n date R DP rtranclp_trans[OF v0 n(2)] in \<open>simp_all add: msw_of_def\<close>)
  moreover have "device_change oid w e (subdir_name ?name date) k ?k" using n(2) by (simp add: device_change_def)
  ultimately show ?thesis using make_snapshot_keeps[OF s(1)] e assms(6) by auto
qed

lemma pending_drain:
  assumes "pending bkt v0 data e w date D P q k" and env: "ms_env_ok menv"
    "wr_hdr (write_res menv) = 40" "wr_payld (write_res menv) = 4096" and "length D + length P < 2 ^ 50"
  shows "\<exists>k'. run_wq_n bkt menv w (length P) k = Inr k' \<and> pending bkt v0 data e w date (D @ P) [] q k' \<and> objs k' = objs k \<and>
    device_change oid w e (subdir_name (strscpy (od_original_dev_name data) PATH_MAX) date) k k'"
  using assms(1,5)
proof (induction P arbitrary: D k)
  case Nil
  then show ?case by simp
next
  case (Cons r P)
  obtain ep where ep: "epochs k e = Some ep" using Cons.prems(1) by (rule pendingE)
  have "length D < 2 ^ 50" using Cons.prems(2) by simp
  from pending_work[OF Cons.prems(1) env this ep, of oid] obtain k' where
    k': "run_wq_head bkt menv w k = Inr k'" "pending bkt v0 data e w date (D @ [r]) P q k'" "objs k' = objs k"
    "device_change oid w e (subdir_name (strscpy (od_original_dev_name data) PATH_MAX) date) k k'"
    by auto
  from Cons.IH[OF k'(2)] Cons.prems(2) k'(1,3) device_change_trans[OF k'(4)] show ?case by auto
qed

text \<open>The same with the device registered and mounted once.\<close>

definition serving ::
  "(u64 \<Rightarrow> nat) \<Rightarrow> vfs \<Rightarrow> block_device \<Rightarrow> nat \<Rightarrow> object_data \<Rightarrow> nat \<Rightarrow> nat \<Rightarrow> string \<Rightarrow>
     (u64 \<times> bytes) list \<Rightarrow> (u64 \<times> bytes) list \<Rightarrow> kstate \<Rightarrow> bool" where
  "serving bkt v0 bdev oid data e w date D P k \<longleftrightarrow>
     (\<exists>ep. device_open bdev oid data e ep w k \<and> n_currently_mounted ep = 1) \<and> pending bkt v0 data e w date D P [] k"

lemma device_open_worker:
  assumes "device_open bdev oid data e ep w k"
  shows "device_open bdev oid data e ep' w (k\<lparr>wqs := (wqs k)(w \<mapsto> q), epochs := (epochs k)(e \<mapsto> ep'), kvfs := v\<rparr>)"
  using assms by (simp add: device_open_def get_device_data_always_def split: mountinfo.splits)

lemma serving_write:
  assumes srv: "serving bkt v0 bdev oid data e w date D P k" and env: "kmalloc_msw_ok env" "kmalloc_block_ok env"
    and filp: "filp_on bdev filp" and req: "req_ok n req" and ok: "onefs_ok n fs"
  shows "\<exists>k' x'. tracked_write keyhash env bdev filp req (fs, k, x) = Inr (fst (fs_step bdev req fs), k', x') \<and>
    serving bkt v0 bdev oid data e w date D (P @ snd (fs_step bdev req fs)) k' \<and> length (snd (fs_step bdev req fs)) \<le> 5 \<and>
    device_change oid w e sub k k'"
proof -
  let ?L = "snd (fs_step bdev req fs)" and ?work = "snapshot_work data e date"
  obtain ep0 where o: "device_open bdev oid data e ep0 w k" "n_currently_mounted ep0 = 1"
    and pen: "pending bkt v0 data e w date D P [] k" using srv unfolding serving_def by (elim conjE exE)
  from pen obtain ep where ep: "epochs k e = Some ep" "wqs k w = Some (map ?work P @ [])" "first_mount_date ep = date"
    and rest: "epoch_ok bkt (strscpy (od_original_dev_name data) PATH_MAX) (ep, kvfs k)"
    "epoch_named (strscpy (od_original_dev_name data) PATH_MAX) (ep, kvfs k)"
    "epoch_records (strscpy (od_original_dev_name data) PATH_MAX) (ep, kvfs k) = fold log_add D []"
    and DP: "\<forall>(b, d) \<in> set (D @ P). length d = DEFAULT_BLOCK_SIZE"
    and v0: "vfs_steps (subdir_name (strscpy (od_original_dev_name data) PATH_MAX) date) v0 (kvfs k)" by (rule pendingE)
  have same: "ep0 = ep" using o(1) ep(1) by (simp add: device_open_def)
  let ?k = "k\<lparr>wqs := (wqs k)(w \<mapsto> map ?work P @ map ?work ?L)\<rparr>"
  have q: "wqs k w = Some (map ?work P)" using ep(2) by simp
  from tracked_write_step[OF o(1) q env filp req ok, of keyhash x]
  obtain x' where w: "tracked_write keyhash env bdev filp req (fs, k, x) = Inr (fst (fs_step bdev req fs), ?k, x')"
    and l: "length ?L \<le> 5" unfolding same ep(3) by blast
  have L: "\<forall>(b, d) \<in> set ?L. length d = DEFAULT_BLOCK_SIZE"
    using ofs.step_old[OF ok req, of _ _ bdev] ok by (auto simp: onefs_ok_def)
  have "pending bkt v0 data e w date D (P @ ?L) [] ?k"
    by (rule pendingI[of _ _ ep]) (use ep rest DP L v0 in auto)
  with device_open_queue[OF o(1)] o(2) have "serving bkt v0 bdev oid data e w date D (P @ ?L) ?k"
    unfolding serving_def by blast
  moreover have "device_change oid w e sub k ?k" by (simp add: device_change_def)
  ultimately show ?thesis using w l by blast
qed

lemma serving_work:
  assumes srv: "serving bkt v0 bdev oid data e w date D P k" and env: "ms_env_ok menv"
    "wr_hdr (write_res menv) = 40" "wr_payld (write_res menv) = 4096" and few: "length D < 2 ^ 50"
  shows "\<exists>k' D' P'. run_wq_head bkt menv w k = Inr k' \<and> serving bkt v0 bdev oid data e w date D' P' k' \<and> D' @ P' = D @ P \<and>
    device_change oid w e (subdir_name (strscpy (od_original_dev_name data) PATH_MAX) date) k k'"
proof (cases P)
  case Nil
  with srv have "wqs k w = Some []" unfolding serving_def by (auto elim: pendingE)
  with srv show ?thesis by (auto simp: run_wq_head_def)
next
  case (Cons r P1)
  obtain ep where o: "device_open bdev oid data e ep w k" "n_currently_mounted ep = 1"
    and pen: "pending bkt v0 data e w date D (r # P1) [] k" using srv unfolding serving_def Cons by (elim conjE exE)
  have "epochs k e = Some ep" using o(1) by (simp add: device_open_def)
  from pending_work[OF pen env few this, of oid] obtain k' ep' v' where k': "run_wq_head bkt menv w k = Inr k'"
    "pending bkt v0 data e w date (D @ [r]) P1 [] k'"
    "k' = k\<lparr>wqs := (wqs k)(w \<mapsto> map (snapshot_work data e date) P1 @ []), epochs := (epochs k)(e \<mapsto> ep'), kvfs := v'\<rparr>"
    "n_currently_mounted ep' = n_currently_mounted ep"
    "device_change oid w e (subdir_name (strscpy (od_original_dev_name data) PATH_MAX) date) k k'" by blast
  have "device_open bdev oid data e ep' w k'" unfolding k'(3) by (rule device_open_worker[OF o(1)])
  with k'(1,2,4) o(2) have "serving bkt v0 bdev oid data e w date (D @ [r]) P1 k'" unfolding serving_def by auto
  with k'(1,5) Cons show ?thesis by (intro exI[of _ k'] exI[of _ "D @ [r]"] exI[of _ P1]) simp
qed

lemma mounted_session_serving:
  assumes "serving (m_bkt m) v0 bdev oid data e w date D P k" "onefs_ok n fs" "\<forall>req \<in> set (writes_of steps). req_ok n req"
    and "length D + length P + 5 * length (writes_of steps) < 2 ^ 50" and m: "machine_ok m" and filp: "filp_on bdev filp"
  shows "\<exists>k' x' D' P'. mounted_session m bdev filp w steps (fs, k, x) =
      Inr (fst (run_steps (fs_step bdev) (writes_of steps) fs), k', x') \<and>
    serving (m_bkt m) v0 bdev oid data e w date D' P' k' \<and>
    D' @ P' = D @ P @ snd (run_steps (fs_step bdev) (writes_of steps) fs)"
  using assms(1-4)
proof (induction steps arbitrary: D P fs k x)
  case (Cons step steps)
  show ?case
  proof (cases step)
    case (SWrite req)
    let ?fs = "fst (fs_step bdev req fs)" and ?L = "snd (fs_step bdev req fs)"
    have req: "req_ok n req" using Cons.prems(3) by (simp add: SWrite)
    have env: "kmalloc_msw_ok (m_bd_env m)" "kmalloc_block_ok (m_bd_env m)" using m by (simp_all add: machine_ok_def)
    from serving_write[OF Cons.prems(1) env filp req Cons.prems(2)] obtain k1 x1 where
      w: "tracked_write (m_keyhash m) (m_bd_env m) bdev filp req (fs, k, x) = Inr (?fs, k1, x1)"
      "serving (m_bkt m) v0 bdev oid data e w date D (P @ ?L) k1" "length ?L \<le> 5" by blast
    have ok: "onefs_ok n ?fs" by (rule ofs.step_ok[OF Cons.prems(2) req])
    have "length D + length (P @ ?L) + 5 * length (writes_of steps) < 2 ^ 50"
      using Cons.prems(4) w(3) by (simp add: SWrite)
    from Cons.IH[OF w(2) ok _ this, of x1] Cons.prems(3) show ?thesis
      by (auto simp: SWrite w(1) split_def Let_def)
  next
    case SWork
    have env: "ms_env_ok (m_ms_env m)" "wr_hdr (write_res (m_ms_env m)) = 40" "wr_payld (write_res (m_ms_env m)) = 4096"
      using m by (simp_all add: machine_ok_def)
    have "length D < 2 ^ 50" using Cons.prems(4) by simp
    from serving_work[OF Cons.prems(1) env this] obtain k1 D1 P1 where
      k1: "run_wq_head (m_bkt m) (m_ms_env m) w k = Inr k1" "serving (m_bkt m) v0 bdev oid data e w date D1 P1 k1"
      "D1 @ P1 = D @ P" by blast
    have "length D1 + length P1 = length D + length P" using arg_cong[OF k1(3), of length] by simp
    with Cons.prems(4) have few: "length D1 + length P1 + 5 * length (writes_of steps) < 2 ^ 50" by (simp add: SWork)
    have app: "D1 @ P1 @ X = D @ P @ X" for X using k1(3) by (metis append_assoc)
    from Cons.IH[OF k1(2) Cons.prems(2) _ few, of x] Cons.prems(3) show ?thesis
      by (auto simp: SWork k1(1) app)
  qed
qed auto

section \<open>Before and after\<close>

text \<open>Activation of a new device and its first mount start a session.\<close>

lemma register_new:
  assumes ok: "registry_ok k" and key: "device_key (env, path) = Some minfo" and new: "minfo \<notin> registered k"
  shows "\<exists>k1. register_device bkt menv env path k = Inr (0, k1) \<and> get_device_data_always minfo k1 = Some (next_id k + 1) \<and>
    objs k1 (next_id k + 1) = Some \<lparr>wq_is_destroyed = False, od_wq = Some (next_id k), od_e = None,
      od_original_dev_name = strscpy path PATH_MAX\<rparr> \<and>
    wqs k1 (next_id k) = Some [] \<and> kvfs k1 = kvfs k"
proof (rule device_key_cases[OF key, of k bkt menv])
  show "allow_reging_operation k" using ok by (simp add: registry_ok_def)
next
  fix d assume d: "minfo = BlockDevice d" "register_device bkt menv env path k = try_to_insert_block_device bkt menv env d path k"
  with new have "d \<notin> fst ` set (blkdevs_ht k)" by (simp add: registered_def image_iff)
  then show ?thesis using device_key_env[OF key]
    by (simp add: d insert_block_eq reg_env_ok_def new_device_def get_device_data_always_def)
next
  fix p lo assume d: "minfo = LoopDevice p" "get_full_path env lo PATH_MAX = Inr p"
    "register_device bkt menv env path k = try_to_insert_loop_device bkt menv env lo path k"
  with new have "p \<notin> fst ` set (loops_ht k)" by (simp add: registered_def image_iff)
  then show ?thesis using d(2) device_key_env[OF key]
    by (simp add: d(1,3) insert_loop_eq reg_env_ok_def new_device_def get_device_data_always_def)
qed

definition device_idle :: "block_device \<Rightarrow> nat \<Rightarrow> object_data \<Rightarrow> nat \<Rightarrow> kstate \<Rightarrow> bool" where
  "device_idle bdev oid data w k \<longleftrightarrow>
     get_device_data_always (from_block_device_to_mountinfo bdev) k = Some oid \<and> objs k oid = Some data \<and>
     od_wq data = Some w \<and> od_e data = None \<and> \<not> wq_is_destroyed data \<and> wqs k w = Some []"

text \<open>The directory of the epoch that a mount at \<open>t\<close> opens.\<close>

definition epoch_subdir :: "object_data \<Rightarrow> tm \<Rightarrow> string" where
  "epoch_subdir data t = subdir_name (strscpy (od_original_dev_name data) PATH_MAX) (mount_date t)"

lemma serving_start:
  assumes idle: "device_idle bdev oid data w k" and free: "dir_free (kvfs k) (epoch_subdir data t)" and ax: "regs_ax regs = 0"
  shows "\<exists>k'. mount_handler True t (from_block_device_to_mountinfo bdev) regs k = Inr k' \<and>
    serving bkt (kvfs k) bdev oid (data\<lparr>od_e := Some (next_id k)\<rparr>) (next_id k) w (mount_date t) [] [] k' \<and>
    device_change oid w (next_id k) sub k k' \<and> next_id k < next_id k'"
proof -
  let ?e = "next_id k" and ?name = "strscpy (od_original_dev_name data) PATH_MAX"
  let ?ep = "new_epoch\<lparr>n_currently_mounted := 1, first_mount_date := mount_date t\<rparr>"
  let ?data = "data\<lparr>od_e := Some ?e\<rparr>"
  note dev = idle[unfolded device_idle_def] and v = free[unfolded dir_free_def epoch_subdir_def]
  let ?k = "k\<lparr>epochs := (epochs k)(?e \<mapsto> ?ep), next_id := ?e + 1, objs := (objs k)(oid \<mapsto> ?data)\<rparr>"
  have h: "mount_handler True t (from_block_device_to_mountinfo bdev) regs k = Inr ?k"
    using dev ax by (simp add: mount_defs Let_def new_epoch_def)
  have o: "device_open bdev oid ?data ?e ?ep w ?k" using dev by (simp add: device_open_def dev_live_update)
  have b: "epoch_bytes ?name (?ep, kvfs k) = []"
    using v by (simp add: epoch_bytes_def epoch_dir_def new_epoch_def)
  have e: "epoch_ok bkt ?name (?ep, kvfs k)"
    using v snapfile_ok_encode[of "[]"]
    by (simp add: epoch_ok_def b epoch_records_def) (simp add: epoch_dir_def new_epoch_def)
  have "pending bkt (kvfs k) ?data ?e w (mount_date t) [] [] [] ?k"
  proof (rule pendingI)
    show "epoch_ok bkt (strscpy (od_original_dev_name ?data) PATH_MAX) (?ep, kvfs ?k)" using e by simp
    show "epoch_records (strscpy (od_original_dev_name ?data) PATH_MAX) (?ep, kvfs ?k) = fold log_add [] []"
      using b by (simp add: epoch_records_def)
  qed (use dev in \<open>simp_all add: epoch_named_def new_epoch_def\<close>)
  then have "serving bkt (kvfs k) bdev oid ?data ?e w (mount_date t) [] [] ?k" unfolding serving_def using o by force
  moreover have "oid \<in> dom (objs k)" using dev by blast
  then have "device_change oid w ?e sub k ?k" "next_id k < next_id ?k" by (simp_all add: device_change_def insert_absorb)
  ultimately show ?thesis using h by blast
qed

text \<open>The last unmount queues the end of the epoch behind the pending works; the file stays.\<close>

lemma destroy_an_epoch_files:
  "destroy_an_epoch lsz (Some ep) v = Inr v' \<Longrightarrow> snapshots_file v' = snapshots_file v"
  by (auto simp: destroy_an_epoch_def Let_def snapshots_file_def snapdir_of_def file_data_def fun_eq_iff split: option.splits sum.splits)

lemma run_wq_n_append:
  "run_wq_n bkt menv w (a + b) k =
     (case run_wq_n bkt menv w a k of Inl f \<Rightarrow> Inl f | Inr k' \<Rightarrow> run_wq_n bkt menv w b k')"
  by (induction a arbitrary: k) (auto split: sum.split)

lemma pending_file:
  assumes "pending bkt v0 data e w date D P q k"
  shows "case snapshots_file (kvfs k) (subdir_name (strscpy (od_original_dev_name data) PATH_MAX) date) of
      None \<Rightarrow> fold log_add D [] = []
    | Some file \<Rightarrow> file = encode_records (fold log_add D []) \<and> length file < 2 ^ 63"
proof -
  let ?name = "strscpy (od_original_dev_name data) PATH_MAX"
  from assms obtain ep where ep: "first_mount_date ep = date" "epoch_ok bkt ?name (ep, kvfs k)"
    "epoch_named ?name (ep, kvfs k)" "epoch_records ?name (ep, kvfs k) = fold log_add D []" by (rule pendingE)
  have b: "epoch_bytes ?name (ep, kvfs k) = encode_records (fold log_add D [])" "length (epoch_bytes ?name (ep, kvfs k)) < 2 ^ 63"
    using epoch_bytes_encode[OF ep(2)] unfolding ep(4) by blast+
  have Nil: "fold log_add D [] = []" if "epoch_bytes ?name (ep, kvfs k) = []"
    using ep(4) that by (simp add: epoch_records_def)
  have eq: "epoch_bytes ?name (ep, kvfs k) =
      (case snapshots_file (kvfs k) (subdir_name ?name date) of None \<Rightarrow> [] | Some file \<Rightarrow> file)"
    unfolding epoch_named_bytes[OF ep(3)] ep(1)
    by (auto simp: snapshots_file_def saved_bytes_def file_data_def split: option.splits)
  show ?thesis
  proof (cases "snapshots_file (kvfs k) (subdir_name ?name date)")
    case None
    then have "epoch_bytes ?name (ep, kvfs k) = []" using eq by simp
    from Nil[OF this] None show ?thesis by simp
  next
    case (Some bs)
    then have "epoch_bytes ?name (ep, kvfs k) = bs" using eq by simp
    with b Some show ?thesis by simp
  qed
qed

text \<open>A device after the last unmount, while the queue still has works of its epoch and its end.\<close>

definition draining ::
  "(u64 \<Rightarrow> nat) \<Rightarrow> vfs \<Rightarrow> block_device \<Rightarrow> nat \<Rightarrow> object_data \<Rightarrow> nat \<Rightarrow> nat \<Rightarrow> string \<Rightarrow>
     (u64 \<times> bytes) list \<Rightarrow> (u64 \<times> bytes) list \<Rightarrow> kstate \<Rightarrow> bool" where
  "draining bkt v0 bdev oid data e w date D P k \<longleftrightarrow>
     get_device_data_always (from_block_device_to_mountinfo bdev) k = Some oid \<and> objs k oid = Some (data\<lparr>od_e := None\<rparr>) \<and>
     od_wq data = Some w \<and> \<not> wq_is_destroyed data \<and> pending bkt v0 data e w date D P [CleanupEpochWork e] k"

lemma serving_umount:
  assumes srv: "serving bkt v0 bdev oid data e w date D P k" and ax: "regs_ax regs = 0"
  shows "\<exists>k1. umount_handler True (from_block_device_to_mountinfo bdev) regs k = Inr k1 \<and>
    draining bkt v0 bdev oid data e w date D P k1 \<and> device_change oid w e sub k k1"
proof -
  let ?work = "snapshot_work data e date" and ?name = "strscpy (od_original_dev_name data) PATH_MAX"
  let ?c = "[CleanupEpochWork e]"
  obtain ep0 where o: "device_open bdev oid data e ep0 w k" "n_currently_mounted ep0 = 1"
    and pen: "pending bkt v0 data e w date D P [] k" using srv unfolding serving_def by (elim conjE exE)
  from pen obtain ep where ep: "epochs k e = Some ep" "wqs k w = Some (map ?work P @ [])" "first_mount_date ep = date"
    and rest: "epoch_ok bkt ?name (ep, kvfs k)" "epoch_named ?name (ep, kvfs k)"
    "epoch_records ?name (ep, kvfs k) = fold log_add D []" "\<forall>(b, d) \<in> set (D @ P). length d = DEFAULT_BLOCK_SIZE"
    "vfs_steps (subdir_name ?name date) v0 (kvfs k)" by (rule pendingE)
  have same: "ep0 = ep" using o(1) ep(1) by (simp add: device_open_def)
  let ?ep = "ep\<lparr>n_currently_mounted := 0\<rparr>"
  let ?k = "k\<lparr>epochs := (epochs k)(e \<mapsto> ?ep), objs := (objs k)(oid \<mapsto> data\<lparr>od_e := None\<rparr>),
    wqs := (wqs k)(w \<mapsto> map ?work P @ ?c)\<rparr>"
  have u: "umount_handler True (from_block_device_to_mountinfo bdev) regs k = Inr ?k"
    using o ep ax by (simp add: same device_open_def umount_defs Let_def)
  have view: "epoch_bytes ?name (?ep, v) = epoch_bytes ?name (ep, v)" "epoch_dir ?name (?ep, v) = epoch_dir ?name (ep, v)" for v
    by (simp_all add: epoch_bytes_def epoch_dir_def cong: option.case_cong)
  have "epoch_ok bkt ?name (?ep, v) = epoch_ok bkt ?name (ep, v)" for v
    by (simp add: epoch_ok_def epoch_records_def view cong: option.case_cong)
  then have "pending bkt v0 data e w date D P ?c ?k"
    by (intro pendingI[of _ _ ?ep]) (use ep rest in \<open>simp_all add: epoch_records_def epoch_named_def view\<close>)
  then have "draining bkt v0 bdev oid data e w date D P ?k"
    using o(1) by (simp add: draining_def device_open_def dev_live_update)
  moreover have "oid \<in> dom (objs k)" using o(1) by (auto simp: device_open_def)
  then have "device_change oid w e sub k ?k" by (simp add: device_change_def insert_absorb)
  ultimately show ?thesis using u by blast
qed

lemma draining_change:
  assumes "draining bkt v0 bdev oid data e w date D P k" "device_change oid w e sub k k'" "objs k' = objs k"
    and "pending bkt v0 data e w date D' P' [CleanupEpochWork e] k'"
  shows "draining bkt v0 bdev oid data e w date D' P' k'"
  using assms by (simp add: draining_def device_change_lookup)

lemma draining_cleanup:
  assumes dr: "draining bkt v0 bdev oid data e w date D [] k"
  shows "\<exists>k'. run_wq_head bkt menv w k = Inr k' \<and> device_idle bdev oid (data\<lparr>od_e := None\<rparr>) w k' \<and>
    device_change oid w e sub k k' \<and>
    vfs_steps (subdir_name (strscpy (od_original_dev_name data) PATH_MAX) date) v0 (kvfs k') \<and>
    (case snapshots_file (kvfs k') (subdir_name (strscpy (od_original_dev_name data) PATH_MAX) date) of
      None \<Rightarrow> fold log_add D [] = []
    | Some file \<Rightarrow> file = encode_records (fold log_add D []) \<and> length file < 2 ^ 63)"
proof -
  let ?sub = "subdir_name (strscpy (od_original_dev_name data) PATH_MAX) date"
  have pen: "pending bkt v0 data e w date D [] [CleanupEpochWork e] k" using dr by (simp add: draining_def)
  then obtain ep where ep: "epochs k e = Some ep" "wqs k w = Some (map (snapshot_work data e date) [] @ [CleanupEpochWork e])"
    "vfs_steps ?sub v0 (kvfs k)" by (rule pendingE)
  obtain v' where v': "destroy_an_epoch (list_lru_size menv) (Some ep) (kvfs k) = Inr v'"
    using destroy_an_epoch_returns by blast
  let ?k = "k\<lparr>wqs := (wqs k)(w \<mapsto> []), epochs := (epochs k)(e := None), kvfs := v'\<rparr>"
  have "run_wq_head bkt menv w k = Inr ?k" using ep v' by (simp add: run_wq_head_def run_work_unfold)
  moreover have ch: "device_change oid w e sub k ?k" for sub
    using destroy_an_epoch_steps[OF v'] by (simp add: device_change_def)
  moreover have "device_idle bdev oid (data\<lparr>od_e := None\<rparr>) w ?k"
    using dr device_change_lookup[OF ch, of "from_block_device_to_mountinfo bdev"] by (simp add: draining_def device_idle_def)
  moreover have "snapshots_file (kvfs ?k) = snapshots_file (kvfs k)" using destroy_an_epoch_files[OF v'] by simp
  moreover have "vfs_steps ?sub v0 (kvfs ?k)"
    using rtranclp_trans[OF ep(3) destroy_an_epoch_steps[OF v']] by simp
  ultimately show ?thesis using pending_file[OF pen] by (intro exI[of _ ?k]) simp
qed

lemma serving_end:
  assumes srv: "serving bkt v0 bdev oid data e w date D P k" and ax: "regs_ax regs = 0" and env: "ms_env_ok menv"
    "wr_hdr (write_res menv) = 40" "wr_payld (write_res menv) = 4096" and few: "length D + length P < 2 ^ 50"
  shows "\<exists>k1 k2. umount_handler True (from_block_device_to_mountinfo bdev) regs k = Inr k1 \<and>
    flush_workqueue bkt menv w k1 = Inr k2 \<and>
    device_idle bdev oid (data\<lparr>od_e := None\<rparr>) w k2 \<and>
    vfs_steps (subdir_name (strscpy (od_original_dev_name data) PATH_MAX) date) v0 (kvfs k2) \<and>
    (case snapshots_file (kvfs k2) (subdir_name (strscpy (od_original_dev_name data) PATH_MAX) date) of
      None \<Rightarrow> fold log_add (D @ P) [] = []
    | Some file \<Rightarrow> file = encode_records (fold log_add (D @ P) []) \<and> length file < 2 ^ 63)"
proof -
  from serving_umount[OF srv ax] obtain k0 where
    u: "umount_handler True (from_block_device_to_mountinfo bdev) regs k = Inr k0"
    and dr: "draining bkt v0 bdev oid data e w date D P k0" by blast
  have pen: "pending bkt v0 data e w date D P [CleanupEpochWork e] k0" using dr by (simp add: draining_def)
  then have q: "wqs k0 w = Some (map (snapshot_work data e date) P @ [CleanupEpochWork e])" by (rule pendingE)
  from pending_drain[OF pen env few, of oid] obtain k1 where
    k1: "run_wq_n bkt menv w (length P) k0 = Inr k1" "pending bkt v0 data e w date (D @ P) [] [CleanupEpochWork e] k1"
    "objs k1 = objs k0" "device_change oid w e (subdir_name (strscpy (od_original_dev_name data) PATH_MAX) date) k0 k1" by blast
  from draining_cleanup[OF draining_change[OF dr k1(4,3,2)], of menv] obtain k2 where
    k2: "run_wq_head bkt menv w k1 = Inr k2" "device_idle bdev oid (data\<lparr>od_e := None\<rparr>) w k2"
    "vfs_steps (subdir_name (strscpy (od_original_dev_name data) PATH_MAX) date) v0 (kvfs k2)"
    "case snapshots_file (kvfs k2) (subdir_name (strscpy (od_original_dev_name data) PATH_MAX) date) of
      None \<Rightarrow> fold log_add (D @ P) [] = []
    | Some file \<Rightarrow> file = encode_records (fold log_add (D @ P) []) \<and> length file < 2 ^ 63" by blast
  have "run_wq_n bkt menv w (length P + 1) k0 = Inr k2" unfolding run_wq_n_append k1(1) by (simp add: k2(1))
  then have "flush_workqueue bkt menv w k0 = Inr k2" by (simp add: flush_workqueue_def q)
  with u k2(2-4) show ?thesis by blast
qed

section \<open>The service\<close>

lemma length_fs_step: "onefs_ok n fs \<Longrightarrow> req_ok n req \<Longrightarrow> length (snd (fs_step bdev req fs)) \<le> 5"
proof -
  assume "onefs_ok n fs" "req_ok n req"
  from fs_step_traced[OF this, of bdev] obtain evs where
    "write_traced bdev (wr_bread req) n fs (fst (fs_step bdev req fs)) evs" "\<forall>z. captured_blocks z evs = snd (fs_step bdev req fs)"
    by blast
  then show ?thesis using length_captured[of "[]" evs] by (simp add: write_traced_def)
qed

lemma length_run_steps:
  "onefs_ok n fs \<Longrightarrow> \<forall>req \<in> set reqs. req_ok n req \<Longrightarrow> length (snd (run_steps (fs_step bdev) reqs fs)) \<le> 5 * length reqs"
proof (induction reqs arbitrary: fs)
  case (Cons req reqs)
  have "onefs_ok n (fst (fs_step bdev req fs))" using Cons.prems ofs.step_ok by simp
  from Cons.IH[OF this] length_fs_step[of n fs req bdev] Cons.prems show ?case by (simp add: split_def Let_def)
qed simp

lemma mount_session_log:
  assumes m: "machine_ok m" and idle: "device_idle bdev oid data w k" and free: "dir_free (kvfs k) (epoch_subdir data t)"
    and calls: "mounts_bdev bdev call" "umounts_bdev bdev uregs" and filp: "filp_on bdev filp"
    and reqs: "\<forall>req \<in> set (writes_of steps). req_ok n req" "length (writes_of steps) < 2 ^ 40" and ok: "onefs_ok n fs"
  shows "\<exists>k' x'. mount_session m bdev filp t call uregs steps (fs, k, x) =
      Inr (fst (run_steps (fs_step bdev) (writes_of steps) fs), k', x') \<and>
    device_idle bdev oid data w k' \<and> vfs_steps (epoch_subdir data t) (kvfs k) (kvfs k') \<and>
    (case snapshots_file (kvfs k') (epoch_subdir data t) of
      None \<Rightarrow> fold log_add (snd (run_steps (fs_step bdev) (writes_of steps) fs)) [] = []
    | Some bs \<Rightarrow> bs = encode_records (fold log_add (snd (run_steps (fs_step bdev) (writes_of steps) fs)) []) \<and>
        length bs < 2 ^ 63)"
proof -
  let ?minfo = "from_block_device_to_mountinfo bdev" and ?run = "run_steps (fs_step bdev) (writes_of steps) fs"
  let ?data = "data\<lparr>od_e := Some (next_id k)\<rparr>"
  obtain regs where regs: "regs_ax regs = 0" "krps_mount True True t call k = mount_handler True t ?minfo regs k"
    using krps_mount_bdev[OF calls(1)] by blast
  from serving_start[OF idle free regs(1), of "m_bkt m"] obtain k2 where
    mnt: "mount_handler True t ?minfo regs k = Inr k2"
    and s2: "serving (m_bkt m) (kvfs k) bdev oid ?data (next_id k) w (mount_date t) [] [] k2" by blast
  have pm: "krps_mount True True t call k = Inr k2" using regs(2) mnt by simp
  have w: "queue_of bdev k2 = Some w"
    using s2 idle by (auto simp: queue_of_def serving_def device_open_def device_idle_def)
  have "length ([] :: (u64 \<times> bytes) list) + length ([] :: (u64 \<times> bytes) list) + 5 * length (writes_of steps) < 2 ^ 50"
    using reqs(2) by simp
  from mounted_session_serving[OF s2 ok reqs(1) this m filp, of x] obtain k3 x3 D P where
    ms: "mounted_session m bdev filp w steps (fs, k2, x) = Inr (fst ?run, k3, x3)"
    and s3: "serving (m_bkt m) (kvfs k) bdev oid ?data (next_id k) w (mount_date t) D P k3"
    and DP: "D @ P = snd ?run" by auto
  have env: "ms_env_ok (m_ms_env m)" "wr_hdr (write_res (m_ms_env m)) = 40" "wr_payld (write_res (m_ms_env m)) = 4096"
    using m by (simp_all add: machine_ok_def)
  have ax: "regs_ax uregs = 0" using krp_umount_bdev[OF calls(2)] by simp
  have few: "length D + length P < 2 ^ 50"
    using length_run_steps[OF ok reqs(1), of bdev] arg_cong[OF DP, of length] reqs(2) by simp
  have reset: "?data\<lparr>od_e := None\<rparr> = data" using idle by (cases data) (simp add: device_idle_def)
  have sub: "subdir_name (strscpy (od_original_dev_name ?data) PATH_MAX) (mount_date t) = epoch_subdir data t"
    by (simp add: epoch_subdir_def)
  from serving_end[OF s3 ax env few, unfolded reset DP sub] obtain k4 k5 where
    u: "umount_handler True ?minfo uregs k3 = Inr k4" "flush_workqueue (m_bkt m) (m_ms_env m) w k4 = Inr k5"
    and idle2: "device_idle bdev oid data w k5" "vfs_steps (epoch_subdir data t) (kvfs k) (kvfs k5)"
    and saved: "case snapshots_file (kvfs k5) (epoch_subdir data t) of
      None \<Rightarrow> fold log_add (snd ?run) [] = []
    | Some bs \<Rightarrow> bs = encode_records (fold log_add (snd ?run) []) \<and> length bs < 2 ^ 63" by (elim exE conjE)
  have pu: "krp_umount True True uregs k3 = Inr k4" using krp_umount_bdev[OF calls(2)] u(1) by simp
  have "mount_session m bdev filp t call uregs steps (fs, k, x) = Inr (fst ?run, k5, x3)"
    by (simp add: mount_session_def pm w ms pu u(2))
  with idle2 saved show ?thesis by blast
qed

lemma register_idle:
  assumes "registry_ok k" "device_key (env, path) = Some (from_block_device_to_mountinfo bdev)"
    "from_block_device_to_mountinfo bdev \<notin> registered k"
  shows "\<exists>k1 data. register_device bkt menv env path k = Inr (0, k1) \<and> kvfs k1 = kvfs k \<and>
    device_idle bdev (next_id k + 1) data (next_id k) k1 \<and> od_original_dev_name data = strscpy path PATH_MAX"
  using register_new[OF assms, of bkt menv] by (auto simp: device_idle_def)

lemma service_session_log:
  assumes m: "machine_ok m" and auth: "auth_check cl passwd = Inr 0"
    and key: "device_key (m_dev_env m, path) = Some (from_block_device_to_mountinfo bdev)"
    and k: "registry_ok k" "from_block_device_to_mountinfo bdev \<notin> registered k"
    and free: "dir_free (kvfs k) (subdir_name (strscpy path PATH_MAX) (mount_date t))"
    and calls: "mounts_bdev bdev call" "umounts_bdev bdev uregs" and filp: "filp_on bdev filp"
    and reqs: "\<forall>req \<in> set (writes_of steps). req_ok n req" "length (writes_of steps) < 2 ^ 40" and ok: "onefs_ok n fs"
  shows "\<exists>k'. service_session m cl passwd path bdev filp t call uregs steps (fs, k, x) =
      Inr (0, fst (run_steps (fs_step bdev) (writes_of steps) fs), k') \<and>
    (case snapshots_file (kvfs k') (subdir_name (strscpy path PATH_MAX) (mount_date t)) of
      None \<Rightarrow> fold log_add (snd (run_steps (fs_step bdev) (writes_of steps) fs)) [] = []
    | Some bs \<Rightarrow> bs = encode_records (fold log_add (snd (run_steps (fs_step bdev) (writes_of steps) fs)) []) \<and>
        length bs < 2 ^ 63)"
proof -
  from register_idle[OF k(1) key k(2), of "m_bkt m" "m_ms_env m"] obtain k1 data where
    r: "register_device (m_bkt m) (m_ms_env m) (m_dev_env m) path k = Inr (0, k1)" "kvfs k1 = kvfs k"
    and idle: "device_idle bdev (next_id k + 1) data (next_id k) k1" and name: "od_original_dev_name data = strscpy path PATH_MAX"
    by blast
  have sub: "epoch_subdir data t = subdir_name (strscpy path PATH_MAX) (mount_date t)"
    by (simp add: epoch_subdir_def name) (simp add: strscpy_def)
  have "dir_free (kvfs k1) (epoch_subdir data t)" using free by (simp add: r(2) sub)
  from mount_session_log[OF m idle this calls filp reqs ok, of x] r(1) auth show ?thesis
    unfolding sub by (auto simp: service_session_def activate_snapshot_def)
qed

text \<open>C2: the purpose of the program. Root activates, with the password, a device that is not registered; the
  device is mounted; while it is mounted any number of threads write to its file, at any offsets and lengths
  and with any of the data blocks unreadable, and the worker of the device's queue runs whenever it likes; the
  device is unmounted and the worker finishes. Then every step of the module runs without a fault, the file
  system is exactly the one the writes make without the module, and if a \<open>snapblocks\<close> file is found under the
  name and the date of the mount, restoring all of it onto the image gives back, byte by byte, the image as it
  was at the mount; if no such file is found the image never changed.\<close>

theorem service_restores_mount_image:
  assumes "machine_ok m" and "auth_check cl passwd = Inr 0"
    and "device_key (m_dev_env m, path) = Some (from_block_device_to_mountinfo bdev)"
    and "registry_ok k" "from_block_device_to_mountinfo bdev \<notin> registered k"
    and "dir_free (kvfs k) (subdir_name (strscpy path PATH_MAX) (mount_date t))"
    and "mounts_bdev bdev call" "umounts_bdev bdev uregs" and "filp_on bdev filp"
    and "\<forall>req \<in> set (writes_of steps). req_ok n req" "length (writes_of steps) < 2 ^ 40" and "onefs_ok n fs"
    and "rs_env_ok renv" "\<not> ask opts" "restore_all opts"
  shows "\<exists>fs' k'. service_session m cl passwd path bdev filp t call uregs steps (fs, k, x) = Inr (0, fs', k') \<and>
    fs' = fst (run_steps (fs_step bdev) (writes_of steps) fs) \<and>
    (case snapshots_file (kvfs k') (subdir_name (strscpy path PATH_MAX) (mount_date t)) of
      None \<Rightarrow> image_of n fs' = image_of n fs
    | Some bs \<Rightarrow> do_restore renv opts (Some bs) (image_of n fs') True inp = Some (True, image_of n fs))"
proof -
  let ?fs = "fst (run_steps (fs_step bdev) (writes_of steps) fs)"
  let ?R = "fold log_add (snd (run_steps (fs_step bdev) (writes_of steps) fs)) []"
  have ok: "onefs_ok n ?fs" by (rule ofs.run_ok[OF assms(12,10)])
  have R: "undo_log disk n fs ?R ?fs" by (rule ofs.run_undo[OF undo_log_Nil assms(12,10)])
  have "image_of n ?fs = image_of n fs" if "?R = []" using fold_write_rec_undo[OF assms(12) ok R] that by simp
  moreover have "do_restore renv opts (Some (encode_records ?R)) (image_of n ?fs) True inp = Some (True, image_of n fs)"
    if "length (encode_records ?R) < 2 ^ 63" by (rule restore_undo[OF assms(12) ok R that assms(13-15)])
  ultimately show ?thesis
    using service_session_log[OF assms(1-12), of x] by (fastforce split: option.splits)
qed

definition sample_machine :: machine where
  "sample_machine = \<lparr>m_keyhash = (\<lambda>_. 0), m_bkt = (\<lambda>_. 0), m_bd_env = \<lparr>kmalloc_msw_ok = True, kmalloc_block_ok = True\<rparr>,
     m_ms_env = sample_env \<lparr>wr_hdr = 40, wr_ext = 0, wr_payld = 4096\<rparr>, m_dev_env = sample_dev_env\<rparr>"

definition sample_bdev :: block_device where
  "sample_bdev = \<lparr>bd_dev = 0x800001, bd_lo_file_name = []\<rparr>"

definition sample_regs :: pt_regs where
  "sample_regs = \<lparr>regs_di = Some \<lparr>kp_mnt = Some \<lparr>mnt_sb = Some \<lparr>s_bdev = Some sample_bdev, s_magic = 0\<rparr>\<rparr>, kp_d_path = Inr ''/''\<rparr>,
     regs_si = None, regs_r10 = 0, regs_ax = 0\<rparr>"

lemma sample_machine_ok: "machine_ok sample_machine"
proof -
  have "ms_env_ok (sample_env \<lparr>wr_hdr = 40, wr_ext = 0, wr_payld = 4096\<rparr>)" by (rule sample_env_ok)
  then show ?thesis by (simp add: machine_ok_def sample_machine_def reg_env_ok_def sample_dev_env_def sample_env_def)
qed

lemma sample_machine_key: "device_key (m_dev_env sample_machine, ''/dev/sda1'') = Some (from_block_device_to_mountinfo sample_bdev)"
proof -
  have "from_block_device_to_mountinfo sample_bdev = BlockDevice 0x800001"
    by (simp add: from_block_device_to_mountinfo_def devno_defs sample_bdev_def)
  then show ?thesis by (simp add: sample_machine_def sample_key)
qed

lemma sample_mounts: "mounts_bdev sample_bdev (NewMount sample_regs)" "umounts_bdev sample_bdev sample_regs"
  by (simp_all add: mounts_bdev_def umounts_bdev_def sample_regs_def get_bdev_from_path_def is_root_def path_starts_with_def
      new_mount_entry_handler_def umount_entry_handler_def)

lemma sample_filp_on: "filp_on sample_bdev sample_filp"
  by (simp add: filp_on_def file_sb_def sample_filp_def sample_bdev_def)

lemma sample_req_ok: "req_ok 10 sample_req"
  by (simp add: req_ok_def sample_req_def layout_defs)

lemma sample_auth: "auth_check (root_caller ''pw'') ''pw'' = Inr 0"
  by (simp add: auth_check_def root_caller_def password_cmp_def setup_passwd_def configured_def hash_sha256_def
      sample_passwd_env_def cstr_def NUL_def Let_def)

theorem service_restores_mount_image_witness:
  "\<exists>fs' k'. service_session sample_machine (root_caller ''pw'') ''pw'' ''/dev/sda1'' sample_bdev sample_filp sample_tm (NewMount sample_regs)
      sample_regs [SWrite sample_req, SWork, SWrite sample_req] (sample_onefs, started empty_vfs, no_threads) = Inr (0, fs', k') \<and>
    fs' = fst (run_steps (fs_step sample_bdev) (writes_of [SWrite sample_req, SWork, SWrite sample_req]) sample_onefs) \<and>
    (case snapshots_file (kvfs k') (subdir_name (strscpy ''/dev/sda1'' PATH_MAX) (mount_date sample_tm)) of
      None \<Rightarrow> image_of 10 fs' = image_of 10 sample_onefs
    | Some bs \<Rightarrow> do_restore good_rs_env (default_opts\<lparr>ask := False\<rparr>) (Some bs) (image_of 10 fs') True [] =
        Some (True, image_of 10 sample_onefs))"
proof (rule service_restores_mount_image)
  show "machine_ok sample_machine" by (rule sample_machine_ok)
  show "auth_check (root_caller ''pw'') ''pw'' = Inr 0" by (rule sample_auth)
  show "device_key (m_dev_env sample_machine, ''/dev/sda1'') = Some (from_block_device_to_mountinfo sample_bdev)"
    by (rule sample_machine_key)
  show "registry_ok (started empty_vfs)" by (rule started_ok)
  show "from_block_device_to_mountinfo sample_bdev \<notin> registered (started empty_vfs)"
    by (simp add: registered_def start_defs)
  show "dir_free (kvfs (started empty_vfs)) (subdir_name (strscpy ''/dev/sda1'' PATH_MAX) (mount_date sample_tm))"
    using empty_vfs_wf empty_vfs_no_obstacle
    by (simp add: dir_free_def start_defs) (simp add: snapdir_of_def dir_entry_def empty_vfs_def)
  show "mounts_bdev sample_bdev (NewMount sample_regs)" "umounts_bdev sample_bdev sample_regs" by (rule sample_mounts)+
  show "filp_on sample_bdev sample_filp" by (rule sample_filp_on)
  show "\<forall>req \<in> set (writes_of [SWrite sample_req, SWork, SWrite sample_req]). req_ok 10 req"
    using sample_req_ok by simp
  show "onefs_ok 10 sample_onefs" by (rule sample_onefs_ok)
qed (simp_all add: good_rs_env_ok default_opts_def)

end
