(* ===== verification/History.thy ===== *)
theory History
  imports Service
begin

text \<open>
  A device that stays registered over any number of mounts. Every mount leaves its own \<open>snapblocks\<close> file, later
  epochs do not disturb it, and restoring the files from the newest back to any mount gives the image as it
  was at that mount.
\<close>

section \<open>Several mounts\<close>

record mount_plan =
  p_time :: tm
  p_call :: mount_call
  p_uregs :: pt_regs
  p_steps :: "session_step list"

fun run_plans ::
  "machine \<Rightarrow> block_device \<Rightarrow> xfile \<Rightarrow> mount_plan list \<Rightarrow> onefilefs \<times> kstate \<times> xkpblocks \<Rightarrow>
     fault + onefilefs \<times> kstate \<times> xkpblocks" where
  "run_plans m bdev filp [] s = Inr s"
| "run_plans m bdev filp (p # ps) s =
     (case mount_session m bdev filp (p_time p) (p_call p) (p_uregs p) (p_steps p) s of
        Inl f \<Rightarrow> Inl f | Inr s' \<Rightarrow> run_plans m bdev filp ps s')"

definition service_history ::
  "machine \<Rightarrow> caller \<Rightarrow> string \<Rightarrow> string \<Rightarrow> block_device \<Rightarrow> xfile \<Rightarrow> mount_plan list \<Rightarrow>
     onefilefs \<times> kstate \<times> xkpblocks \<Rightarrow> fault + int \<times> onefilefs \<times> kstate" where
  "service_history m cl passwd path bdev filp ps s =
     (let (fs, k, x) = s in
      case activate_snapshot cl (m_bkt m) (m_ms_env m) (m_dev_env m) path passwd k of
        Inl f \<Rightarrow> Inl f
      | Inr (rv, k1) \<Rightarrow>
          if rv \<noteq> 0 then Inr (rv, fs, k1)
          else (case run_plans m bdev filp ps (fs, k1, x) of
            Inl f \<Rightarrow> Inl f | Inr (fs', k2, x') \<Rightarrow> Inr (0, fs', k2)))"

text \<open>The restore tool run on one file after the other; a mount without a file changed nothing.\<close>

fun restore_chain :: "rs_env \<Rightarrow> restore_opts \<Rightarrow> string \<Rightarrow> bytes option list \<Rightarrow> bytes \<Rightarrow> bytes option" where
  "restore_chain renv opts inp [] dev = Some dev"
| "restore_chain renv opts inp (None # files) dev = restore_chain renv opts inp files dev"
| "restore_chain renv opts inp (Some bs # files) dev =
     (case do_restore renv opts (Some bs) dev True inp of
        Some (True, dev') \<Rightarrow> restore_chain renv opts inp files dev'
      | _ \<Rightarrow> None)"

text \<open>The file system after some mounts, as the writes make it.\<close>

definition fs_after :: "block_device \<Rightarrow> mount_plan list \<Rightarrow> onefilefs \<Rightarrow> onefilefs" where
  "fs_after bdev ps fs = fold (\<lambda>p fs. fst (run_steps (fs_step bdev) (writes_of (p_steps p)) fs)) ps fs"

definition plan_ok :: "nat \<Rightarrow> block_device \<Rightarrow> mount_plan \<Rightarrow> bool" where
  "plan_ok n bdev p \<longleftrightarrow> mounts_bdev bdev (p_call p) \<and> umounts_bdev bdev (p_uregs p) \<and>
     (\<forall>req \<in> set (writes_of (p_steps p)). req_ok n req) \<and> length (writes_of (p_steps p)) < 2 ^ 40"

section \<open>One file takes one mount back\<close>

definition takes_back :: "rs_env \<Rightarrow> restore_opts \<Rightarrow> string \<Rightarrow> bytes option \<Rightarrow> bytes \<Rightarrow> bytes \<Rightarrow> bool" where
  "takes_back renv opts inp snapfile new old \<longleftrightarrow>
     (case snapfile of None \<Rightarrow> new = old | Some bs \<Rightarrow> do_restore renv opts (Some bs) new True inp = Some (True, old))"

lemma restore_chain_back:
  assumes "\<forall>j < length files. takes_back renv opts inp (files ! j) (img (Suc j)) (img j)" "i \<le> length files"
  shows "restore_chain renv opts inp (rev (drop i files)) (img (length files)) = Some (img i)"
  using assms
proof (induction files rule: rev_induct)
  case (snoc f files)
  show ?case
  proof (cases "i = Suc (length files)")
    case False
    then have i: "i \<le> length files" using snoc.prems(2) by simp
    have "takes_back renv opts inp (files ! j) (img (Suc j)) (img j)" if "j < length files" for j
      using snoc.prems(1)[rule_format, of j] that by (simp add: nth_append)
    then have IH: "restore_chain renv opts inp (rev (drop i files)) (img (length files)) = Some (img i)"
      using snoc.IH i by blast
    have "takes_back renv opts inp f (img (Suc (length files))) (img (length files))"
      using snoc.prems(1)[rule_format, of "length files"] by simp
    with i IH show ?thesis by (cases f) (simp_all add: takes_back_def)
  qed simp
qed simp

lemma undone_takes_back:
  assumes "onefs_ok n fs" "\<forall>req \<in> set reqs. req_ok n req" "rs_env_ok renv" "\<not> ask opts" "restore_all opts"
    and "case snapfile of
      None \<Rightarrow> fold log_add (snd (run_steps (fs_step bdev) reqs fs)) [] = []
    | Some bs \<Rightarrow> bs = encode_records (fold log_add (snd (run_steps (fs_step bdev) reqs fs)) []) \<and> length bs < 2 ^ 63"
  shows "takes_back renv opts inp snapfile (image_of n (fst (run_steps (fs_step bdev) reqs fs))) (image_of n fs)"
proof -
  let ?fs = "fst (run_steps (fs_step bdev) reqs fs)" and ?R = "fold log_add (snd (run_steps (fs_step bdev) reqs fs)) []"
  have ok: "onefs_ok n ?fs" by (rule ofs.run_ok[OF assms(1,2)])
  have R: "undo_log disk n fs ?R ?fs" by (rule ofs.run_undo[OF undo_log_Nil assms(1,2)])
  have "image_of n ?fs = image_of n fs" if "?R = []" using fold_write_rec_undo[OF assms(1) ok R] that by simp
  moreover have "do_restore renv opts (Some (encode_records ?R)) (image_of n ?fs) True inp = Some (True, image_of n fs)"
    if "length (encode_records ?R) < 2 ^ 63" by (rule restore_undo[OF assms(1) ok R that assms(3-5)])
  ultimately show ?thesis using assms(6) by (auto simp: takes_back_def split: option.splits)
qed

section \<open>All mounts\<close>

lemma fs_after_ok: "onefs_ok n fs \<Longrightarrow> \<forall>p \<in> set ps. plan_ok n bdev p \<Longrightarrow> onefs_ok n (fs_after bdev ps fs)"
  by (induction ps arbitrary: fs) (auto simp: fs_after_def plan_ok_def intro!: ofs.run_ok)

lemma run_plans_files:
  assumes m: "machine_ok m" and filp: "filp_on bdev filp" and renv: "rs_env_ok renv" "\<not> ask opts" "restore_all opts"
    and "device_idle bdev oid data w k" "tree_ok (kvfs k)" "onefs_ok n fs"
    and "\<forall>p \<in> set ps. plan_ok n bdev p \<and> dir_free (kvfs k) (epoch_subdir data (p_time p))"
    and "distinct (map (\<lambda>p. epoch_subdir data (p_time p)) ps)"
  shows "\<exists>k' x'. run_plans m bdev filp ps (fs, k, x) = Inr (fs_after bdev ps fs, k', x') \<and>
    (\<forall>sub. sub \<notin> (\<lambda>p. epoch_subdir data (p_time p)) ` set ps \<longrightarrow> snapshots_file (kvfs k') sub = snapshots_file (kvfs k) sub) \<and>
    (\<forall>j < length ps. takes_back renv opts inp (snapshots_file (kvfs k') (epoch_subdir data (p_time (ps ! j))))
      (image_of n (fs_after bdev (take (Suc j) ps) fs)) (image_of n (fs_after bdev (take j ps) fs)))"
  using assms(6-10)
proof (induction ps arbitrary: k fs x)
  case Nil
  then show ?case by (simp add: fs_after_def)
next
  case (Cons p ps)
  let ?sub = "\<lambda>p. epoch_subdir data (p_time p)"
  have p: "mounts_bdev bdev (p_call p)" "umounts_bdev bdev (p_uregs p)" "\<forall>req \<in> set (writes_of (p_steps p)). req_ok n req"
    "length (writes_of (p_steps p)) < 2 ^ 40" "dir_free (kvfs k) (?sub p)" using Cons.prems(4) by (simp_all add: plan_ok_def)
  let ?run = "run_steps (fs_step bdev) (writes_of (p_steps p)) fs"
  from mount_session_log[OF m Cons.prems(1) p(5,1,2) filp p(3,4) Cons.prems(3), of x] obtain k1 x1 where
    s1: "mount_session m bdev filp (p_time p) (p_call p) (p_uregs p) (p_steps p) (fs, k, x) = Inr (fst ?run, k1, x1)"
    and idle: "device_idle bdev oid data w k1" and steps: "vfs_steps (?sub p) (kvfs k) (kvfs k1)"
    and saved: "case snapshots_file (kvfs k1) (?sub p) of None \<Rightarrow> fold log_add (snd ?run) [] = []
      | Some bs \<Rightarrow> bs = encode_records (fold log_add (snd ?run) []) \<and> length bs < 2 ^ 63" by blast
  note und = vfs_steps_undisturbed[OF steps Cons.prems(2), unfolded undisturbed_def]
  have t1: "tree_ok (kvfs k1)" using und by simp
  have ok: "onefs_ok n (fst ?run)" by (rule ofs.run_ok[OF Cons.prems(3) p(3)])
  have rest: "\<forall>q \<in> set ps. plan_ok n bdev q \<and> dir_free (kvfs k1) (?sub q)" "distinct (map ?sub ps)" "?sub p \<notin> ?sub ` set ps"
  proof -
    show dist: "distinct (map ?sub ps)" "?sub p \<notin> ?sub ` set ps" using Cons.prems(5) by auto
    show "\<forall>q \<in> set ps. plan_ok n bdev q \<and> dir_free (kvfs k1) (?sub q)"
    proof
      fix q assume q: "q \<in> set ps"
      from imageI[OF this, of ?sub] dist(2) have "?sub q \<noteq> ?sub p" by metis
      with q und Cons.prems(4) show "plan_ok n bdev q \<and> dir_free (kvfs k1) (?sub q)" by simp
    qed
  qed
  from Cons.IH[OF idle t1 ok rest(1,2), of x1] obtain k' x' where
    IH: "run_plans m bdev filp ps (fst ?run, k1, x1) = Inr (fs_after bdev ps (fst ?run), k', x')"
    "\<forall>sub. sub \<notin> ?sub ` set ps \<longrightarrow> snapshots_file (kvfs k') sub = snapshots_file (kvfs k1) sub"
    "\<forall>j < length ps. takes_back renv opts inp (snapshots_file (kvfs k') (?sub (ps ! j)))
      (image_of n (fs_after bdev (take (Suc j) ps) (fst ?run))) (image_of n (fs_after bdev (take j ps) (fst ?run)))" by blast
  have "run_plans m bdev filp (p # ps) (fs, k, x) = Inr (fs_after bdev (p # ps) fs, k', x')"
    by (simp add: s1 IH(1) fs_after_def)
  moreover have "\<forall>sub. sub \<notin> ?sub ` set (p # ps) \<longrightarrow> snapshots_file (kvfs k') sub = snapshots_file (kvfs k) sub"
    using IH(2) und by simp
  moreover have "\<forall>j < length (p # ps). takes_back renv opts inp (snapshots_file (kvfs k') (?sub ((p # ps) ! j)))
      (image_of n (fs_after bdev (take (Suc j) (p # ps)) fs)) (image_of n (fs_after bdev (take j (p # ps)) fs))"
  proof (intro allI impI)
    fix j assume j: "j < length (p # ps)"
    show "takes_back renv opts inp (snapshots_file (kvfs k') (?sub ((p # ps) ! j)))
      (image_of n (fs_after bdev (take (Suc j) (p # ps)) fs)) (image_of n (fs_after bdev (take j (p # ps)) fs))"
    proof (cases j)
      case 0
      have "snapshots_file (kvfs k') (?sub p) = snapshots_file (kvfs k1) (?sub p)" using IH(2) rest(3) by blast
      with undone_takes_back[OF Cons.prems(3) p(3) renv saved] 0 show ?thesis by (simp add: fs_after_def)
    next
      case (Suc i)
      with j IH(3) show ?thesis by (simp add: fs_after_def)
    qed
  qed
  ultimately show ?case by blast
qed

section \<open>Point-in-time recovery\<close>

text \<open>a device is activated once and then mounted, written and unmounted any number of times, at different
  times of the clock, the worker interleaved with the writes in any way. Then every step of the module runs
  without a fault, the file system is the one the writes make without the module, and for every mount \<open>i\<close>,
  running the restore tool on the \<open>snapblocks\<close> files of the last mount, of the one before, and so on back to
  that of mount \<open>i\<close>, succeeds and leaves the image exactly as it was at mount \<open>i\<close>.\<close>

theorem point_in_time_recovery:
  assumes "machine_ok m" and "auth_check cl passwd = Inr 0"
    and "device_key (m_dev_env m, path) = Some (from_block_device_to_mountinfo bdev)"
    and "registry_ok k" "from_block_device_to_mountinfo bdev \<notin> registered k" and "filp_on bdev filp"
    and "tree_ok (kvfs k)" and "onefs_ok n fs" and "\<forall>p \<in> set ps. plan_ok n bdev p \<and> tm_ok (p_time p)"
    and "\<forall>p \<in> set ps. dir_free (kvfs k) (subdir_name (strscpy path PATH_MAX) (mount_date (p_time p)))"
    and "distinct (map p_time ps)"
    and "rs_env_ok renv" "\<not> ask opts" "restore_all opts" and "i \<le> length ps"
  shows "\<exists>k'. service_history m cl passwd path bdev filp ps (fs, k, x) = Inr (0, fs_after bdev ps fs, k') \<and>
    restore_chain renv opts inp
      (rev (map (\<lambda>p. snapshots_file (kvfs k') (subdir_name (strscpy path PATH_MAX) (mount_date (p_time p)))) (drop i ps)))
      (image_of n (fs_after bdev ps fs)) = Some (image_of n (fs_after bdev (take i ps) fs))"
proof -
  from register_idle[OF assms(4,3,5), of "m_bkt m" "m_ms_env m"] obtain k1 data where
    r: "register_device (m_bkt m) (m_ms_env m) (m_dev_env m) path k = Inr (0, k1)" "kvfs k1 = kvfs k"
    and idle: "device_idle bdev (next_id k + 1) data (next_id k) k1" and name: "od_original_dev_name data = strscpy path PATH_MAX"
    by blast
  have sub: "epoch_subdir data t = subdir_name (strscpy path PATH_MAX) (mount_date t)" for t
    by (simp add: epoch_subdir_def name) (simp add: strscpy_def)
  have "inj_on (epoch_subdir data) (p_time ` set ps)"
  proof (rule inj_onI)
    fix t t' assume t: "t \<in> p_time ` set ps" "t' \<in> p_time ` set ps" and eq: "epoch_subdir data t = epoch_subdir data t'"
    have ok: "tm_ok t" "tm_ok t'" using t assms(9) by auto
    note d = mount_date_facts[OF ok] mount_date_facts[OF ok(2,1)]
    have "length (mount_date t) \<le> MNT_FMT_DATE_LEN" "length (mount_date t') \<le> MNT_FMT_DATE_LEN"
      using d unfolding MNT_FMT_DATE_LEN_def by linarith+
    note n = subdir_name_eq[OF this(1)] subdir_name_eq[OF this(2)]
    have "mount_date t = mount_date t'" using eq unfolding sub n by (rule same_append_eq[THEN iffD1])
    with d show "t = t'" by metis
  qed
  then have dist: "distinct (map (\<lambda>p. epoch_subdir data (p_time p)) ps)"
    using assms(11) by (simp add: distinct_map inj_on_def)
  have "\<forall>p \<in> set ps. plan_ok n bdev p \<and> dir_free (kvfs k1) (epoch_subdir data (p_time p))"
    using assms(9,10) by (simp add: r(2) sub)
  from run_plans_files[OF assms(1,6,12-14) idle _ assms(8) this dist, of x inp] assms(7) obtain k' x' where
    run: "run_plans m bdev filp ps (fs, k1, x) = Inr (fs_after bdev ps fs, k', x')"
    and back1: "\<forall>j < length ps. takes_back renv opts inp (snapshots_file (kvfs k') (epoch_subdir data (p_time (ps ! j))))
      (image_of n (fs_after bdev (take (Suc j) ps) fs)) (image_of n (fs_after bdev (take j ps) fs))" by (auto simp: r(2))
  let ?files = "map (\<lambda>p. snapshots_file (kvfs k') (epoch_subdir data (p_time p))) ps"
  have "restore_chain renv opts inp (rev (drop i ?files)) (image_of n (fs_after bdev (take (length ?files) ps) fs)) =
      Some (image_of n (fs_after bdev (take i ps) fs))"
    by (rule restore_chain_back[where img = "\<lambda>j. image_of n (fs_after bdev (take j ps) fs)"]) (use back1 assms(15) in simp_all)
  moreover have "service_history m cl passwd path bdev filp ps (fs, k, x) = Inr (0, fs_after bdev ps fs, k')"
    using run r(1) assms(2) by (simp add: service_history_def activate_snapshot_def)
  ultimately show ?thesis by (auto simp: drop_map sub)
qed

text \<open>Two mounts within two seconds; the second writes more often.\<close>

definition sample_plans :: "mount_plan list" where
  "sample_plans =
     [\<lparr>p_time = sample_tm, p_call = NewMount sample_regs, p_uregs = sample_regs, p_steps = [SWrite sample_req, SWork]\<rparr>,
      \<lparr>p_time = sample_tm\<lparr>tm_sec := 1\<rparr>, p_call = NewMount sample_regs, p_uregs = sample_regs,
       p_steps = [SWrite sample_req, SWork, SWrite sample_req]\<rparr>]"

lemma empty_vfs_tree: "tree_ok empty_vfs"
  using empty_vfs_wf by (simp add: tree_ok_def dir_entry_def empty_vfs_def ROOT_INO_def)

lemma empty_vfs_free: "dir_free empty_vfs sub"
  using empty_vfs_wf empty_vfs_no_obstacle
  by (simp add: dir_free_def) (simp add: snapdir_of_def dir_entry_def empty_vfs_def)

theorem point_in_time_recovery_witness:
  "\<exists>k'. service_history sample_machine (root_caller ''pw'') ''pw'' ''/dev/sda1'' sample_bdev sample_filp sample_plans
      (sample_onefs, started empty_vfs, no_threads) = Inr (0, fs_after sample_bdev sample_plans sample_onefs, k') \<and>
    restore_chain good_rs_env (default_opts\<lparr>ask := False\<rparr>) []
      (rev (map (\<lambda>p. snapshots_file (kvfs k') (subdir_name (strscpy ''/dev/sda1'' PATH_MAX) (mount_date (p_time p)))) (drop 0 sample_plans)))
      (image_of 10 (fs_after sample_bdev sample_plans sample_onefs)) = Some (image_of 10 (fs_after sample_bdev (take 0 sample_plans) sample_onefs))"
proof (rule point_in_time_recovery[where n = 10])
  show "machine_ok sample_machine" by (rule sample_machine_ok)
  show "auth_check (root_caller ''pw'') ''pw'' = Inr 0" by (rule sample_auth)
  show "device_key (m_dev_env sample_machine, ''/dev/sda1'') = Some (from_block_device_to_mountinfo sample_bdev)"
    by (rule sample_machine_key)
  show "registry_ok (started empty_vfs)" by (rule started_ok)
  show "from_block_device_to_mountinfo sample_bdev \<notin> registered (started empty_vfs)"
    by (simp add: registered_def start_defs)
  show "filp_on sample_bdev sample_filp" by (rule sample_filp_on)
  show "tree_ok (kvfs (started empty_vfs))" using empty_vfs_tree by (simp add: start_defs)
  show "onefs_ok 10 sample_onefs" by (rule sample_onefs_ok)
  show "\<forall>p \<in> set sample_plans. plan_ok 10 sample_bdev p \<and> tm_ok (p_time p)"
    using sample_mounts sample_req_ok by (simp add: sample_plans_def plan_ok_def tm_ok_def sample_tm_def)
  show "\<forall>p \<in> set sample_plans. dir_free (kvfs (started empty_vfs)) (subdir_name (strscpy ''/dev/sda1'' PATH_MAX) (mount_date (p_time p)))"
    using empty_vfs_free by (simp add: start_defs)
  show "distinct (map p_time sample_plans)" by (simp add: sample_plans_def sample_tm_def)
qed (simp_all add: good_rs_env_ok default_opts_def)

end
