(* ===== verification/Devinv.thy ===== *)
theory Devinv
  imports History
begin

text \<open>
  One registered device among others that are active at the same time: what its file system, its place in the
  module and the files of its mounts satisfy between two operations (\<open>dev_inv\<close>), that nothing the others do
  breaks it (\<open>stays\<close>), and that its own operations keep it.
\<close>

section \<open>File systems that can be mounted again\<close>

definition disk_ok :: "nat \<Rightarrow> onefilefs \<Rightarrow> bool" where
  "disk_ok n fs \<longleftrightarrow> onefs_ok n fs \<and> sb_info_magic (disk fs SB_BLOCK_NUMBER) = ONEFILEFS_MAGIC \<and>
     inode_file_size (disk fs SINGLEFILEFS_INODES_BLOCK_NUMBER) \<le> sb_info_max_file_size (disk fs SB_BLOCK_NUMBER)"

lemma fs_step_blocks:
  fixes bdev :: block_device
  assumes ok: "onefs_ok n fs" and req: "req_ok n req"
  defines "fs' \<equiv> fst (fs_step bdev req fs)"
  shows "disk fs' SB_BLOCK_NUMBER = disk fs SB_BLOCK_NUMBER"
    "disk fs' SINGLEFILEFS_INODES_BLOCK_NUMBER = disk fs SINGLEFILEFS_INODES_BLOCK_NUMBER \<or>
     inode_file_size (disk fs' SINGLEFILEFS_INODES_BLOCK_NUMBER) = i_size fs'"
proof -
  let ?off = "wr_off req" and ?len = "wr_len req"
  have r: "unat ?len < 2 ^ 63" "wr_bread req SB_BLOCK_NUMBER" using req by (auto simp: req_ok_def)
  from fs_step_traced[OF ok req, of bdev] obtain rv off' evs where
    w: "onefilefs_write bdev (wr_bread req) (wr_buf req) ?len ?off fs = Inr (rv, off', fs', evs)" unfolding fs'_def by blast
  have "disk fs' SB_BLOCK_NUMBER = disk fs SB_BLOCK_NUMBER \<and>
    (disk fs' SINGLEFILEFS_INODES_BLOCK_NUMBER = disk fs SINGLEFILEFS_INODES_BLOCK_NUMBER \<or>
     inode_file_size (disk fs' SINGLEFILEFS_INODES_BLOCK_NUMBER) = i_size fs')"
  proof (cases "?off \<le> i_size fs")
    case False
    then show ?thesis using w onefilefs_write_beyond[where bread_ok = "wr_bread req", OF r(2) False] by auto
  next
    case True
    note neq = data_block_neq[OF off_small[OF ok True]]
    let ?d = "fst (copy_from_user (wr_buf req) (write_span fs (unat ?off) (unat ?len)))"
    let ?fs1 = "put_data (unat ?off) ?d fs"
    have "disk ?fs1 SB_BLOCK_NUMBER = disk fs SB_BLOCK_NUMBER"
      "disk ?fs1 SINGLEFILEFS_INODES_BLOCK_NUMBER = disk fs SINGLEFILEFS_INODES_BLOCK_NUMBER"
      using neq by (simp_all add: put_data_def)
    moreover have "disk (put_size s ?fs1) SB_BLOCK_NUMBER = disk ?fs1 SB_BLOCK_NUMBER"
      "inode_file_size (disk (put_size s ?fs1) SINGLEFILEFS_INODES_BLOCK_NUMBER) = i_size (put_size s ?fs1)" for s
      using calculation(2) ok neq by (simp_all add: put_size_def inode_file_size_set onefs_ok_def)
    ultimately show ?thesis
      using w onefilefs_write_eq[where bread_ok = "wr_bread req", OF ok r True, of bdev "wr_buf req"]
      by (auto simp: Let_def split: if_splits)
  qed
  then show "disk fs' SB_BLOCK_NUMBER = disk fs SB_BLOCK_NUMBER"
    "disk fs' SINGLEFILEFS_INODES_BLOCK_NUMBER = disk fs SINGLEFILEFS_INODES_BLOCK_NUMBER \<or>
     inode_file_size (disk fs' SINGLEFILEFS_INODES_BLOCK_NUMBER) = i_size fs'" by simp_all
qed

lemma disk_ok_step: "disk_ok n fs \<Longrightarrow> req_ok n req \<Longrightarrow> disk_ok n (fst (fs_step bdev req fs))"
  using fs_step_blocks[of n fs req bdev] ofs.step_ok[of n fs req bdev] by (auto simp: disk_ok_def onefs_ok_def)

text \<open>Mounting reads the superblock and the inode from the device.\<close>

definition mount_fs :: "nat \<Rightarrow> bytes \<Rightarrow> fault + int \<times> onefilefs" where
  "mount_fs n dev =
     (case singlefilefs_fill_super (Some (dev_block DEFAULT_BLOCK_SIZE dev (unat SB_BLOCK_NUMBER))) True True of
        Inl f \<Rightarrow> Inl f | Inr rv \<Rightarrow> Inr (rv, load_onefs n dev))"

definition mountable :: "nat \<Rightarrow> bytes \<Rightarrow> bool" where
  "mountable n dev \<longleftrightarrow> (\<exists>fs. disk_ok n fs \<and> image_of n fs = dev)"

lemma mount_image:
  assumes ok: "disk_ok n fs"
  shows "mount_fs n (image_of n fs) = Inr (0, load_onefs n (image_of n fs))" "disk_ok n (load_onefs n (image_of n fs))"
    "image_of n (load_onefs n (image_of n fs)) = image_of n fs"
proof -
  let ?l = "load_onefs n (image_of n fs)"
  have o: "onefs_ok n fs" using ok by (simp add: disk_ok_def)
  then have len: "\<forall>b. length (disk fs b) = DEFAULT_BLOCK_SIZE" and n: "2 \<le> n" "n < 2 ^ 64" by (simp_all add: onefs_ok_def)
  have blk: "dev_block DEFAULT_BLOCK_SIZE (image_of n fs) i = disk fs (of_nat i)" if "i < n" for i
    by (rule dev_block_image[OF len that])
  have d: "disk ?l b = disk fs b" if "unat b < n" for b using that blk by (simp add: load_onefs_def)
  have sb: "disk ?l SB_BLOCK_NUMBER = disk fs SB_BLOCK_NUMBER"
    "disk ?l SINGLEFILEFS_INODES_BLOCK_NUMBER = disk fs SINGLEFILEFS_INODES_BLOCK_NUMBER"
    using n by (intro d, simp add: layout_defs)+
  have size: "i_size ?l = inode_file_size (disk fs SINGLEFILEFS_INODES_BLOCK_NUMBER)"
    using blk[of 1] n by (simp add: load_onefs_def layout_defs)
  have "length (disk ?l b) = DEFAULT_BLOCK_SIZE" for b using d[of b] len by (cases "unat b < n") (simp_all add: load_onefs_def)
  then show "disk_ok n ?l" using ok by (simp add: disk_ok_def onefs_ok_def sb size)
  have "map (\<lambda>i. disk ?l (of_nat i)) [0..<n] = map (\<lambda>i. disk fs (of_nat i)) [0..<n]"
    using d n by (intro map_cong) (simp_all add: unat_of_nat64)
  from arg_cong[OF this, of concat] show "image_of n ?l = image_of n fs" by (simp only: image_of_def[symmetric])
  show "mount_fs n (image_of n fs) = Inr (0, ?l)"
    using ok blk[of 0] n by (simp add: mount_fs_def singlefilefs_fill_super_def disk_ok_def layout_defs)
qed

lemma mount_mountable:
  assumes "mountable n dev"
  shows "mount_fs n dev = Inr (0, load_onefs n dev)" "disk_ok n (load_onefs n dev)" "image_of n (load_onefs n dev) = dev"
  using assms mount_image unfolding mountable_def by blast+

lemma disk_ok_mountable: "disk_ok n fs \<Longrightarrow> mountable n (image_of n fs)"
  unfolding mountable_def by blast

section \<open>The invariant of one device\<close>

text \<open>A registered device: its object, its queue and its file system of \<open>size_of\<close> blocks.\<close>

record dev =
  bdev_of :: block_device
  filp_of :: xfile
  oid_of :: nat
  data_of :: object_data
  wq_of :: nat
  size_of :: nat

definition idle_dev :: "dev \<Rightarrow> kstate \<Rightarrow> bool" where
  "idle_dev d k \<longleftrightarrow> device_idle (bdev_of d) (oid_of d) (data_of d) (wq_of d) k"

definition mounted_dev :: "dev \<Rightarrow> kstate \<Rightarrow> bool" where
  "mounted_dev d k \<longleftrightarrow> (case objs k (oid_of d) of None \<Rightarrow> False | Some data \<Rightarrow> od_e data \<noteq> None)"

text \<open>The file of a mount takes the image back, with whatever file of answers the tool is run.\<close>

definition undoes :: "bytes option \<Rightarrow> bytes \<Rightarrow> bytes \<Rightarrow> bool" where
  "undoes snapfile new old \<longleftrightarrow>
     (\<forall>renv opts inp. rs_env_ok renv \<longrightarrow> \<not> ask opts \<longrightarrow> restore_all opts \<longrightarrow> takes_back renv opts inp snapfile new old)"

text \<open>The mounts of a device so far, the last one first: when, and the image at that time. Their files take the
  image back, one after the other.\<close>

fun chain :: "nat \<Rightarrow> (tm \<Rightarrow> bytes option) \<Rightarrow> (tm \<times> bytes) list \<Rightarrow> bytes \<Rightarrow> bool" where
  "chain n snapfile [] img = True"
| "chain n snapfile ((t, old) # hs) img = (undoes (snapfile t) img old \<and> mountable n old \<and> chain n snapfile hs old)"

definition files_of :: "object_data \<Rightarrow> kstate \<Rightarrow> tm \<Rightarrow> bytes option" where
  "files_of data k t = snapshots_file (kvfs k) (epoch_subdir data t)"

definition subs_of :: "object_data \<Rightarrow> (tm \<times> bytes) list \<Rightarrow> string set" where
  "subs_of data hs = (\<lambda>e. epoch_subdir data (fst e)) ` set hs"

definition subs_distinct :: "object_data \<Rightarrow> (tm \<times> bytes) list \<Rightarrow> bool" where
  "subs_distinct data hs \<longleftrightarrow> distinct (map (\<lambda>e. epoch_subdir data (fst e)) hs)"

text \<open>An epoch that is open, or whose works are not done: the blocks handed over undo the writes.\<close>

definition in_epoch ::
  "machine \<Rightarrow> dev \<Rightarrow> nat \<Rightarrow> nat \<Rightarrow> tm \<Rightarrow> bytes \<Rightarrow> onefilefs \<Rightarrow> kstate \<Rightarrow> bool" where
  "in_epoch m d c e t old fs k \<longleftrightarrow>
     (\<exists>fs0 D P v0. disk_ok (size_of d) fs0 \<and> image_of (size_of d) fs0 = old \<and>
        undo_log disk (size_of d) fs0 (fold log_add (D @ P) []) fs \<and> length (D @ P) \<le> 5 * c \<and>
        (serving (m_bkt m) v0 (bdev_of d) (oid_of d) ((data_of d)\<lparr>od_e := Some e\<rparr>) e (wq_of d) (mount_date t) D P k \<or>
         draining (m_bkt m) v0 (bdev_of d) (oid_of d) ((data_of d)\<lparr>od_e := Some e\<rparr>) e (wq_of d) (mount_date t) D P k))"

text \<open>\<open>cur\<close> is the current epoch of the device, if it has one.\<close>

definition dev_inv ::
  "machine \<Rightarrow> dev \<Rightarrow> nat \<Rightarrow> (tm \<times> bytes) list \<Rightarrow> onefilefs \<Rightarrow> kstate \<Rightarrow> nat option \<Rightarrow> bool" where
  "dev_inv m d c hs fs k cur \<longleftrightarrow> disk_ok (size_of d) fs \<and> od_e (data_of d) = None \<and> subs_distinct (data_of d) hs \<and>
     (case cur of
        None \<Rightarrow> idle_dev d k \<and> chain (size_of d) (files_of (data_of d) k) hs (image_of (size_of d) fs)
      | Some e \<Rightarrow> (\<exists>t old rest. hs = (t, old) # rest \<and> mountable (size_of d) old \<and>
          chain (size_of d) (files_of (data_of d) k) rest old \<and> in_epoch m d c e t old fs k))"

lemma chain_cong: "\<forall>e \<in> set hs. snapfile (fst e) = snapfile' (fst e) \<Longrightarrow> chain n snapfile hs img = chain n snapfile' hs img"
  by (induction n snapfile hs img rule: chain.induct) auto

lemma epoch_subdir_od_e: "epoch_subdir (data\<lparr>od_e := x\<rparr>) t = epoch_subdir data t"
  by (simp add: epoch_subdir_def)

lemma subs_distinct_Cons: "subs_distinct data (e # hs) \<longleftrightarrow> epoch_subdir data (fst e) \<notin> subs_of data hs \<and> subs_distinct data hs"
  by (simp add: subs_distinct_def subs_of_def)

lemma sub_in: "e \<in> set hs \<Longrightarrow> epoch_subdir data (fst e) \<in> subs_of data hs"
  unfolding subs_of_def by (rule imageI)

section \<open>What the others may change\<close>

definition same_dirs :: "string set \<Rightarrow> vfs \<Rightarrow> vfs \<Rightarrow> bool" where
  "same_dirs S v w \<longleftrightarrow> tree_ok w \<and> (\<forall>sub \<in> S. same_epoch_dir sub v w)"

definition stays :: "dev \<Rightarrow> nat option \<Rightarrow> kstate \<Rightarrow> kstate \<Rightarrow> bool" where
  "stays d cur k k' \<longleftrightarrow>
     get_device_data_always (from_block_device_to_mountinfo (bdev_of d)) k' =
       get_device_data_always (from_block_device_to_mountinfo (bdev_of d)) k \<and>
     objs k' (oid_of d) = objs k (oid_of d) \<and> wqs k' (wq_of d) = wqs k (wq_of d) \<and>
     (\<forall>e. cur = Some e \<longrightarrow> epochs k' e = epochs k e)"

lemma same_dirs_refl: "tree_ok v \<Longrightarrow> same_dirs S v v"
  by (simp add: same_dirs_def same_epoch_dir_def)

lemma vfs_steps_same_dirs: "vfs_steps sub v w \<Longrightarrow> tree_ok v \<Longrightarrow> sub \<notin> S \<Longrightarrow> same_dirs S v w"
  unfolding same_dirs_def by (metis vfs_steps_same_epoch_dir)

lemma device_change_stays:
  "device_change oid' w' e' sub' k k' \<Longrightarrow> oid_of d \<noteq> oid' \<Longrightarrow> wq_of d \<noteq> w' \<Longrightarrow> cur \<noteq> Some e' \<Longrightarrow> stays d cur k k'"
  using device_change_lookup[of oid' w' e' sub' k k'] by (simp add: stays_def) (auto simp: device_change_def)

lemma files_frame: "same_dirs S (kvfs k) (kvfs k') \<Longrightarrow> epoch_subdir data t \<in> S \<Longrightarrow> files_of data k' t = files_of data k t"
  using same_epoch_dir_file unfolding files_of_def same_dirs_def by blast

lemma chain_frame:
  assumes "same_dirs (subs_of data hs) (kvfs k) (kvfs k')"
  shows "chain n (files_of data k') hs img = chain n (files_of data k) hs img"
proof (rule chain_cong, rule ballI)
  fix e assume "e \<in> set hs"
  from files_frame[OF assms sub_in[OF this]] show "files_of data k' (fst e) = files_of data k (fst e)" .
qed

lemma pending_frame:
  assumes pen: "pending bkt v0 data e w date D P q k"
    and ep': "epochs k' e = epochs k e" and wq': "wqs k' w = wqs k w"
    and dir: "same_dirs {subdir_name (strscpy (od_original_dev_name data) PATH_MAX) date} (kvfs k) (kvfs k')"
  shows "pending bkt (kvfs k') data e w date D P q k'"
proof -
  let ?name = "strscpy (od_original_dev_name data) PATH_MAX"
  from pen obtain ep where ep: "epochs k e = Some ep" "wqs k w = Some (map (snapshot_work data e date) P @ q)"
    "first_mount_date ep = date" "epoch_ok bkt ?name (ep, kvfs k)" "epoch_named ?name (ep, kvfs k)"
    "epoch_records ?name (ep, kvfs k) = fold log_add D []" "\<forall>(b, d) \<in> set (D @ P). length d = DEFAULT_BLOCK_SIZE"
    by (rule pendingE)
  have wf: "vfs_wf (kvfs k')" and same: "same_epoch_dir (subdir_name ?name (first_mount_date ep)) (kvfs k) (kvfs k')"
    using dir tree_okD(1) ep(3) by (auto simp: same_dirs_def)
  note f = same_epoch_dir_epoch[OF same wf ep(4,5)]
  show ?thesis
    by (rule pendingI[of _ _ ep]) (use ep ep' wq' f in \<open>simp_all add: epoch_records_def\<close>)
qed

lemma in_epoch_frame:
  assumes ie: "in_epoch m d c e t old fs k" and st: "stays d (Some e) k k'"
    and dir: "same_dirs {epoch_subdir (data_of d) t} (kvfs k) (kvfs k')"
  shows "in_epoch m d c e t old fs k'"
proof -
  let ?data = "(data_of d)\<lparr>od_e := Some e\<rparr>"
  from ie obtain fs0 D P v0 where f: "disk_ok (size_of d) fs0" "image_of (size_of d) fs0 = old"
    "undo_log disk (size_of d) fs0 (fold log_add (D @ P) []) fs" "length (D @ P) \<le> 5 * c"
    and s: "serving (m_bkt m) v0 (bdev_of d) (oid_of d) ?data e (wq_of d) (mount_date t) D P k \<or>
      draining (m_bkt m) v0 (bdev_of d) (oid_of d) ?data e (wq_of d) (mount_date t) D P k"
    unfolding in_epoch_def by (elim exE conjE)
  have "same_dirs {subdir_name (strscpy (od_original_dev_name ?data) PATH_MAX) (mount_date t)} (kvfs k) (kvfs k')"
    using dir by (simp add: epoch_subdir_def)
  note pen = pending_frame[OF _ _ _ this]
  have S: "epochs k' e = epochs k e" "wqs k' (wq_of d) = wqs k (wq_of d)" "objs k' (oid_of d) = objs k (oid_of d)"
    "get_device_data_always (from_block_device_to_mountinfo (bdev_of d)) k' =
     get_device_data_always (from_block_device_to_mountinfo (bdev_of d)) k" using st by (simp_all add: stays_def)
  have "serving (m_bkt m) (kvfs k') (bdev_of d) (oid_of d) ?data e (wq_of d) (mount_date t) D P k'"
    if "serving (m_bkt m) v0 (bdev_of d) (oid_of d) ?data e (wq_of d) (mount_date t) D P k"
    using that pen[OF _ S(1,2)] unfolding serving_def device_open_def S by blast
  moreover have "draining (m_bkt m) (kvfs k') (bdev_of d) (oid_of d) ?data e (wq_of d) (mount_date t) D P k'"
    if "draining (m_bkt m) v0 (bdev_of d) (oid_of d) ?data e (wq_of d) (mount_date t) D P k"
    using that pen[OF _ S(1,2)] unfolding draining_def S by blast
  ultimately show ?thesis unfolding in_epoch_def using f s by blast
qed

lemma dev_inv_frame:
  assumes inv: "dev_inv m d c hs fs k cur" and st: "stays d cur k k'" and dir: "same_dirs (subs_of (data_of d) hs) (kvfs k) (kvfs k')"
  shows "dev_inv m d c hs fs k' cur"
proof (cases cur)
  case None
  have "idle_dev d k \<Longrightarrow> idle_dev d k'" using st by (simp add: idle_dev_def device_idle_def stays_def)
  then show ?thesis using inv chain_frame[OF dir] by (simp add: dev_inv_def None)
next
  case (Some e)
  with inv obtain t old rest where h: "hs = (t, old) # rest" "mountable (size_of d) old"
    "chain (size_of d) (files_of (data_of d) k) rest old" "in_epoch m d c e t old fs k"
    by (auto simp: dev_inv_def)
  have "same_dirs {epoch_subdir (data_of d) t} (kvfs k) (kvfs k')" "same_dirs (subs_of (data_of d) rest) (kvfs k) (kvfs k')"
    using dir by (simp_all add: same_dirs_def subs_of_def h(1))
  then show ?thesis using inv h in_epoch_frame[OF h(4) st[unfolded Some]] chain_frame by (simp add: dev_inv_def Some)
qed

lemma dev_inv_mono: "dev_inv m d c hs fs k cur \<Longrightarrow> c \<le> c' \<Longrightarrow> dev_inv m d c' hs fs k cur"
  unfolding dev_inv_def in_epoch_def by (fastforce split: option.splits)

section \<open>Its own operations\<close>

text \<open>What an operation on one device does to the module.\<close>

abbreviation own_change :: "dev \<Rightarrow> nat \<Rightarrow> tm \<Rightarrow> kstate \<Rightarrow> kstate \<Rightarrow> bool" where
  "own_change d e t \<equiv> device_change (oid_of d) (wq_of d) e (epoch_subdir (data_of d) t)"

lemma chain_own:
  assumes "own_change d e t k k'" "tree_ok (kvfs k)" "epoch_subdir (data_of d) t \<notin> subs_of (data_of d) rest"
  shows "chain n (files_of (data_of d) k') rest img = chain n (files_of (data_of d) k) rest img"
  using assms by (intro chain_frame vfs_steps_same_dirs) (auto simp: device_change_def)

lemma own_mount:
  assumes inv: "dev_inv m d c hs fs k None" and call: "mounts_bdev (bdev_of d) call"
    and free: "dir_free (kvfs k) (epoch_subdir (data_of d) t)" and t: "tree_ok (kvfs k)"
    and new: "epoch_subdir (data_of d) t \<notin> subs_of (data_of d) hs"
  shows "\<exists>k' fs'. krps_mount True True t call k = Inr k' \<and> mount_fs (size_of d) (image_of (size_of d) fs) = Inr (0, fs') \<and>
    own_change d (next_id k) t k k' \<and> next_id k < next_id k' \<and>
    dev_inv m d c ((t, image_of (size_of d) fs) # hs) fs' k' (Some (next_id k))"
proof -
  let ?img = "image_of (size_of d) fs"
  let ?fs = "load_onefs (size_of d) ?img"
  have I: "disk_ok (size_of d) fs" "od_e (data_of d) = None" "subs_distinct (data_of d) hs"
    "device_idle (bdev_of d) (oid_of d) (data_of d) (wq_of d) k" "chain (size_of d) (files_of (data_of d) k) hs ?img"
    using inv by (simp_all add: dev_inv_def idle_dev_def)
  note L = mount_image[OF I(1)]
  obtain regs where regs: "regs_ax regs = 0"
    "krps_mount True True t call k = mount_handler True t (from_block_device_to_mountinfo (bdev_of d)) regs k"
    using krps_mount_bdev[OF call] by blast
  from serving_start[OF I(4) free regs(1), of "m_bkt m" "epoch_subdir (data_of d) t"] obtain k' where
    k': "krps_mount True True t call k = Inr k'"
    "serving (m_bkt m) (kvfs k) (bdev_of d) (oid_of d) ((data_of d)\<lparr>od_e := Some (next_id k)\<rparr>) (next_id k) (wq_of d) (mount_date t) [] [] k'"
    "own_change d (next_id k) t k k'" "next_id k < next_id k'" unfolding regs(2) by blast
  have "in_epoch m d c (next_id k) t ?img ?fs k'"
    unfolding in_epoch_def
    by (rule exI[of _ ?fs], rule exI[of _ "[]"], rule exI[of _ "[]"], rule exI[of _ "kvfs k"])
      (use L k'(2) in \<open>simp add: undo_log_Nil\<close>)
  then have "dev_inv m d c ((t, ?img) # hs) ?fs k' (Some (next_id k))"
    using I L(2) new chain_own[OF k'(3) t new] disk_ok_mountable[OF I(1)] by (simp add: dev_inv_def subs_distinct_Cons)
  with k' L(1) show ?thesis by blast
qed

text \<open>A mounted device is in an epoch, and being served.\<close>

lemma mounted_epoch:
  assumes inv: "dev_inv m d c hs fs k cur" and mnt: "mounted_dev d k"
  obtains e t old rest fs0 D P v0 where "cur = Some e" "hs = (t, old) # rest" "mountable (size_of d) old"
    "chain (size_of d) (files_of (data_of d) k) rest old" "disk_ok (size_of d) fs0" "image_of (size_of d) fs0 = old"
    "undo_log disk (size_of d) fs0 (fold log_add (D @ P) []) fs" "length (D @ P) \<le> 5 * c"
    "serving (m_bkt m) v0 (bdev_of d) (oid_of d) ((data_of d)\<lparr>od_e := Some e\<rparr>) e (wq_of d) (mount_date t) D P k"
proof (cases cur)
  case None
  with inv mnt show thesis by (simp add: dev_inv_def idle_dev_def device_idle_def mounted_dev_def)
next
  case (Some e)
  with inv obtain t old rest where h: "hs = (t, old) # rest" "mountable (size_of d) old"
    "chain (size_of d) (files_of (data_of d) k) rest old" "in_epoch m d c e t old fs k"
    by (auto simp: dev_inv_def)
  from h(4) obtain fs0 D P v0 where f: "disk_ok (size_of d) fs0" "image_of (size_of d) fs0 = old"
    "undo_log disk (size_of d) fs0 (fold log_add (D @ P) []) fs" "length (D @ P) \<le> 5 * c"
    and s: "serving (m_bkt m) v0 (bdev_of d) (oid_of d) ((data_of d)\<lparr>od_e := Some e\<rparr>) e (wq_of d) (mount_date t) D P k \<or>
      draining (m_bkt m) v0 (bdev_of d) (oid_of d) ((data_of d)\<lparr>od_e := Some e\<rparr>) e (wq_of d) (mount_date t) D P k"
    unfolding in_epoch_def by (elim exE conjE)
  have "\<not> draining (m_bkt m) v0 (bdev_of d) (oid_of d) ((data_of d)\<lparr>od_e := Some e\<rparr>) e (wq_of d) (mount_date t) D P k"
    using mnt by (auto simp: draining_def mounted_dev_def)
  with s have "serving (m_bkt m) v0 (bdev_of d) (oid_of d) ((data_of d)\<lparr>od_e := Some e\<rparr>) e (wq_of d) (mount_date t) D P k"
    by blast
  with that[OF Some h(1-3) f] show thesis by blast
qed

lemma idle_none: "dev_inv m d c hs fs k cur \<Longrightarrow> idle_dev d k \<Longrightarrow> cur = None"
proof (cases cur)
  case (Some e)
  assume inv: "dev_inv m d c hs fs k cur" and idle: "idle_dev d k"
  have "\<not> serving bkt v0 (bdev_of d) (oid_of d) ((data_of d)\<lparr>od_e := Some e\<rparr>) e (wq_of d) date D P k" for bkt v0 date D P
  proof
    assume "serving bkt v0 (bdev_of d) (oid_of d) ((data_of d)\<lparr>od_e := Some e\<rparr>) e (wq_of d) date D P k"
    then have "objs k (oid_of d) = Some ((data_of d)\<lparr>od_e := Some e\<rparr>)" by (auto simp: serving_def device_open_def)
    with idle show False by (auto simp: idle_dev_def device_idle_def dest: arg_cong[where f = od_e])
  qed
  moreover have "\<not> draining bkt v0 (bdev_of d) (oid_of d) ((data_of d)\<lparr>od_e := Some e\<rparr>) e (wq_of d) date D P k" for bkt v0 date D P
    using idle by (auto simp: draining_def idle_dev_def device_idle_def elim: pendingE)
  ultimately show ?thesis using inv by (auto simp: dev_inv_def Some in_epoch_def)
qed simp

lemma in_epochI:
  assumes "disk_ok (size_of d) fs0" "image_of (size_of d) fs0 = old"
    "undo_log disk (size_of d) fs0 (fold log_add (D @ P) []) fs" "length (D @ P) \<le> 5 * c"
    "serving (m_bkt m) v0 (bdev_of d) (oid_of d) ((data_of d)\<lparr>od_e := Some e\<rparr>) e (wq_of d) (mount_date t) D P k \<or>
     draining (m_bkt m) v0 (bdev_of d) (oid_of d) ((data_of d)\<lparr>od_e := Some e\<rparr>) e (wq_of d) (mount_date t) D P k"
  shows "in_epoch m d c e t old fs k"
  using assms unfolding in_epoch_def by blast

lemma own_write:
  assumes inv: "dev_inv m d c hs fs k cur" and mnt: "mounted_dev d k" and req: "req_ok (size_of d) req"
    and m: "machine_ok m" and filp: "filp_on (bdev_of d) (filp_of d)" and t: "tree_ok (kvfs k)"
  shows "\<exists>k' x' e. tracked_write (m_keyhash m) (m_bd_env m) (bdev_of d) (filp_of d) req (fs, k, x) =
      Inr (fst (fs_step (bdev_of d) req fs), k', x') \<and> cur = Some e \<and> own_change d e (fst (hd hs)) k k' \<and> hs \<noteq> [] \<and>
    dev_inv m d (Suc c) hs (fst (fs_step (bdev_of d) req fs)) k' cur"
  using inv mnt
proof (rule mounted_epoch)
  fix e t old rest fs0 D P v0
  assume E: "cur = Some e" "hs = (t, old) # rest" "mountable (size_of d) old"
    "chain (size_of d) (files_of (data_of d) k) rest old" "disk_ok (size_of d) fs0" "image_of (size_of d) fs0 = old"
    "undo_log disk (size_of d) fs0 (fold log_add (D @ P) []) fs" "length (D @ P) \<le> 5 * c"
    "serving (m_bkt m) v0 (bdev_of d) (oid_of d) ((data_of d)\<lparr>od_e := Some e\<rparr>) e (wq_of d) (mount_date t) D P k"
  let ?st = "fs_step (bdev_of d) req fs"
  have I: "disk_ok (size_of d) fs" "od_e (data_of d) = None" "subs_distinct (data_of d) hs" using inv by (simp_all add: dev_inv_def)
  then have ok: "onefs_ok (size_of d) fs" by (simp add: disk_ok_def)
  have env: "kmalloc_msw_ok (m_bd_env m)" "kmalloc_block_ok (m_bd_env m)" using m by (simp_all add: machine_ok_def)
  from serving_write[OF E(9) env filp req ok, of "m_keyhash m" x "epoch_subdir (data_of d) t"] obtain k' x' where
    w: "tracked_write (m_keyhash m) (m_bd_env m) (bdev_of d) (filp_of d) req (fs, k, x) = Inr (fst ?st, k', x')"
    "serving (m_bkt m) v0 (bdev_of d) (oid_of d) ((data_of d)\<lparr>od_e := Some e\<rparr>) e (wq_of d) (mount_date t) D (P @ snd ?st) k'"
    "length (snd ?st) \<le> 5" "own_change d e t k k'" by blast
  have "undo_log disk (size_of d) fs0 (fold log_add (snd (run_steps (fs_step (bdev_of d)) [req] fs)) (fold log_add (D @ P) []))
      (fst (run_steps (fs_step (bdev_of d)) [req] fs))"
    by (rule ofs.run_undo[OF E(7) ok]) (use req in simp)
  then have u: "undo_log disk (size_of d) fs0 (fold log_add (D @ (P @ snd ?st)) []) (fst ?st)"
    by (simp add: split_def Let_def)
  have "length (D @ (P @ snd ?st)) \<le> 5 * Suc c" using E(8) w(3) by simp
  from in_epochI[OF E(5,6) u this] w(2) have "in_epoch m d (Suc c) e t old (fst ?st) k'" by blast
  moreover have "chain (size_of d) (files_of (data_of d) k') rest old"
    using chain_own[OF w(4) \<open>tree_ok (kvfs k)\<close>, of rest] I(3) E(2,4) by (simp add: subs_distinct_Cons)
  ultimately have "dev_inv m d (Suc c) hs (fst ?st) k' cur"
    using I E(1-3) disk_ok_step[OF I(1) req] by (simp add: dev_inv_def)
  with w E(1,2) show ?thesis by (intro exI[of _ k'] exI[of _ x'] exI[of _ e]) simp
qed

lemma own_umount:
  assumes inv: "dev_inv m d c hs fs k cur" and mnt: "mounted_dev d k" and regs: "umounts_bdev (bdev_of d) regs"
    and t: "tree_ok (kvfs k)"
  shows "\<exists>k' e. krp_umount True True regs k = Inr k' \<and> cur = Some e \<and> own_change d e (fst (hd hs)) k k' \<and> hs \<noteq> [] \<and>
    dev_inv m d c hs fs k' cur"
  using inv mnt
proof (rule mounted_epoch)
  fix e t old rest fs0 D P v0
  assume E: "cur = Some e" "hs = (t, old) # rest" "mountable (size_of d) old"
    "chain (size_of d) (files_of (data_of d) k) rest old" "disk_ok (size_of d) fs0" "image_of (size_of d) fs0 = old"
    "undo_log disk (size_of d) fs0 (fold log_add (D @ P) []) fs" "length (D @ P) \<le> 5 * c"
    "serving (m_bkt m) v0 (bdev_of d) (oid_of d) ((data_of d)\<lparr>od_e := Some e\<rparr>) e (wq_of d) (mount_date t) D P k"
  have ax: "regs_ax regs = 0" using krp_umount_bdev[OF regs] by simp
  from serving_umount[OF E(9) ax, of "epoch_subdir (data_of d) t"] krp_umount_bdev[OF regs, of True k] obtain k' where
    k': "krp_umount True True regs k = Inr k'" "own_change d e t k k'"
    "draining (m_bkt m) v0 (bdev_of d) (oid_of d) ((data_of d)\<lparr>od_e := Some e\<rparr>) e (wq_of d) (mount_date t) D P k'" by auto
  have "in_epoch m d c e t old fs k'" using in_epochI[OF E(5-8)] k'(3) by blast
  moreover have "chain (size_of d) (files_of (data_of d) k') rest old"
    using chain_own[OF k'(2) \<open>tree_ok (kvfs k)\<close>, of rest] inv E(2,4) by (simp add: subs_distinct_Cons dev_inv_def)
  ultimately have "dev_inv m d c hs fs k' cur" using inv E(1-3) by (simp add: dev_inv_def)
  with k' E(1,2) show ?thesis by (intro exI[of _ k'] exI[of _ e]) simp
qed

text \<open>The worker takes the next item; the last one ends the epoch, and its file then undoes the writes.\<close>

lemma undo_log_undoes:
  assumes "onefs_ok n fs0" "onefs_ok n fs" "undo_log disk n fs0 R fs"
    and "case snapfile of None \<Rightarrow> R = [] | Some bs \<Rightarrow> bs = encode_records R \<and> length bs < 2 ^ 63"
  shows "undoes snapfile (image_of n fs) (image_of n fs0)"
  using fold_write_rec_undo[OF assms(1-3)] restore_undo[OF assms(1-3)] assms(4)
  by (auto simp: undoes_def takes_back_def split: option.splits)

lemma own_work:
  assumes inv: "dev_inv m d c hs fs k cur" and m: "machine_ok m" and t: "tree_ok (kvfs k)" and c: "c < 2 ^ 40"
  shows "\<exists>k' cur'. run_wq_head (m_bkt m) (m_ms_env m) (wq_of d) k = Inr k' \<and> dev_inv m d c hs fs k' cur' \<and>
    (k' = k \<and> cur' = cur \<or>
      (\<exists>e. cur = Some e \<and> hs \<noteq> [] \<and> own_change d e (fst (hd hs)) k k' \<and> (cur' = cur \<or> cur' = None)))"
proof (cases cur)
  case None
  with inv have "wqs k (wq_of d) = Some []" by (simp add: dev_inv_def idle_dev_def device_idle_def)
  then show ?thesis using inv by (intro exI[of _ k] exI[of _ cur] conjI) (simp_all add: run_wq_head_def)
next
  case (Some e)
  have env: "ms_env_ok (m_ms_env m)" "wr_hdr (write_res (m_ms_env m)) = 40" "wr_payld (write_res (m_ms_env m)) = 4096"
    using m by (simp_all add: machine_ok_def)
  have I: "disk_ok (size_of d) fs" "od_e (data_of d) = None" "subs_distinct (data_of d) hs" using inv by (simp_all add: dev_inv_def)
  from Some inv obtain t' old rest where h: "hs = (t', old) # rest" "chain (size_of d) (files_of (data_of d) k) rest old"
    "in_epoch m d c e t' old fs k" "mountable (size_of d) old" by (auto simp: dev_inv_def)
  let ?data = "(data_of d)\<lparr>od_e := Some e\<rparr>"
  from h(3) obtain fs0 D P v0 where f: "disk_ok (size_of d) fs0" "image_of (size_of d) fs0 = old"
    "undo_log disk (size_of d) fs0 (fold log_add (D @ P) []) fs" "length (D @ P) \<le> 5 * c"
    and s: "serving (m_bkt m) v0 (bdev_of d) (oid_of d) ?data e (wq_of d) (mount_date t') D P k \<or>
      draining (m_bkt m) v0 (bdev_of d) (oid_of d) ?data e (wq_of d) (mount_date t') D P k"
    unfolding in_epoch_def by (elim exE conjE)
  have few: "length D < 2 ^ 50" using f(4) c by simp
  have sub: "subdir_name (strscpy (od_original_dev_name ?data) PATH_MAX) (mount_date t') = epoch_subdir (data_of d) t'"
    by (simp add: epoch_subdir_def)
  have rest: "chain (size_of d) (files_of (data_of d) k') rest old" if "own_change d e t' k k'" for k'
    using chain_own[OF that t, of rest] I(3) h(1,2) by (simp add: subs_distinct_Cons)
  have same: ?thesis if "run_wq_head (m_bkt m) (m_ms_env m) (wq_of d) k = Inr k'" "own_change d e t' k k'"
    "in_epoch m d c e t' old fs k'" for k'
    by (rule exI[of _ k'], rule exI[of _ cur]) (use that rest[OF that(2)] I h(1,4) Some in \<open>simp add: dev_inv_def\<close>)
  from s show ?thesis
  proof
    assume "serving (m_bkt m) v0 (bdev_of d) (oid_of d) ?data e (wq_of d) (mount_date t') D P k"
    from serving_work[OF this env few, unfolded sub] obtain k' D' P' where
      k': "run_wq_head (m_bkt m) (m_ms_env m) (wq_of d) k = Inr k'" "own_change d e t' k k'"
      "serving (m_bkt m) v0 (bdev_of d) (oid_of d) ?data e (wq_of d) (mount_date t') D' P' k'" "D' @ P' = D @ P" by blast
    have "in_epoch m d c e t' old fs k'" by (rule in_epochI[OF f(1,2) _ _ disjI1[OF k'(3)]]) (simp_all only: k'(4) f(3,4))
    with same k'(1,2) show ?thesis by blast
  next
    assume dr: "draining (m_bkt m) v0 (bdev_of d) (oid_of d) ?data e (wq_of d) (mount_date t') D P k"
    show ?thesis
    proof (cases P)
      case (Cons r P1)
      have pen: "pending (m_bkt m) v0 ?data e (wq_of d) (mount_date t') D (r # P1) [CleanupEpochWork e] k"
        using dr Cons by (simp add: draining_def)
      then obtain ep where "epochs k e = Some ep" by (rule pendingE)
      from pending_work[OF pen env few this, of "oid_of d", unfolded sub] obtain k' where
        k': "run_wq_head (m_bkt m) (m_ms_env m) (wq_of d) k = Inr k'"
        "pending (m_bkt m) v0 ?data e (wq_of d) (mount_date t') (D @ [r]) P1 [CleanupEpochWork e] k'"
        "objs k' = objs k" "own_change d e t' k k'" by auto
      have "draining (m_bkt m) v0 (bdev_of d) (oid_of d) ?data e (wq_of d) (mount_date t') (D @ [r]) P1 k'"
        by (rule draining_change[OF dr k'(4,3,2)])
      from in_epochI[OF f(1,2) _ _ disjI2[OF this]] f(3,4) Cons have "in_epoch m d c e t' old fs k'" by simp
      with same k'(1,4) show ?thesis by blast
    next
      case Nil
      from draining_cleanup[OF dr[unfolded Nil], of "m_ms_env m" "epoch_subdir (data_of d) t'", unfolded sub] obtain k' where
        k': "run_wq_head (m_bkt m) (m_ms_env m) (wq_of d) k = Inr k'"
        "device_idle (bdev_of d) (oid_of d) (?data\<lparr>od_e := None\<rparr>) (wq_of d) k'" "own_change d e t' k k'"
        and saved: "case snapshots_file (kvfs k') (epoch_subdir (data_of d) t') of
            None \<Rightarrow> fold log_add D [] = []
          | Some bs \<Rightarrow> bs = encode_records (fold log_add D []) \<and> length bs < 2 ^ 63" by blast
      have "?data\<lparr>od_e := None\<rparr> = data_of d" using I(2) by (cases "data_of d") simp
      then have "idle_dev d k'" using k'(2) by (simp add: idle_dev_def)
      moreover have "undoes (files_of (data_of d) k' t') (image_of (size_of d) fs) old"
        using undo_log_undoes[of "size_of d" fs0 fs "fold log_add D []"] f(1-3) I(1) saved
        by (simp add: Nil files_of_def disk_ok_def)
      ultimately have "dev_inv m d c hs fs k' None"
        using rest[OF k'(3)] I h(1,4) by (simp add: dev_inv_def)
      then show ?thesis using k'(1,3) Some h(1)
        by (intro exI[of _ k'] exI[of _ None]) simp
    qed
  qed
qed

section \<open>Restoring\<close>

lemma chain_restores:
  assumes "rs_env_ok renv" "\<not> ask opts" "restore_all opts"
  shows "chain n snapfile hs img \<Longrightarrow> j < length hs \<Longrightarrow>
    restore_chain renv opts inp (map (\<lambda>e. snapfile (fst e)) (take (Suc j) hs)) img = Some (snd (hs ! j)) \<and>
    mountable n (snd (hs ! j)) \<and> chain n snapfile (drop (Suc j) hs) (snd (hs ! j))"
proof (induction hs arbitrary: j img)
  case (Cons a hs)
  obtain t old where a: "a = (t, old)" by (cases a)
  have b: "takes_back renv opts inp (snapfile t) img old" "mountable n old" "chain n snapfile hs old"
    using Cons.prems(1) assms by (simp_all add: a undoes_def)
  have "restore_chain renv opts inp (map (\<lambda>e. snapfile (fst e)) (take j hs)) old = Some (snd ((a # hs) ! j)) \<and>
      mountable n (snd ((a # hs) ! j)) \<and> chain n snapfile (drop j hs) (snd ((a # hs) ! j))"
    using Cons.IH[OF b(3)] Cons.prems(2) b(2,3) by (cases j) (simp_all add: a)
  with b(1) show ?case by (cases "snapfile t") (simp_all add: a takes_back_def)
qed simp

lemma subs_distinct_drop: "subs_distinct data hs \<Longrightarrow> subs_distinct data (drop j hs)"
  by (simp add: subs_distinct_def drop_map[symmetric])

lemma subs_of_drop: "subs_of data (drop j hs) \<subseteq> subs_of data hs"
  unfolding subs_of_def using set_drop_subset[of j hs] by blast

end
