(* ===== verification/Concurrent.thy ===== *)
theory Concurrent
  imports Devinv
begin

text \<open>
  The life of several devices that share the module: they are activated, mounted, written, unmounted, restored
  and deactivated, the calls of all of them and the works of all their queues in any order. Every device can
  be taken back to each of its mounts.
\<close>

section \<open>Operations\<close>

text \<open>A device as the users see it: the block device, an open file on it, the path it is activated under, and its
  size in blocks.\<close>

record hardware =
  hw_bdev :: block_device
  hw_filp :: xfile
  hw_path :: string
  hw_size :: nat

datatype fleet_op =
    OActivate nat caller string
  | ODeactivate nat caller string
  | OMount nat tm mount_call
  | OWrite nat write_req
  | OWork nat
  | OUmount nat pt_regs
  | ODestroy nat
  | ORestore nat "tm list" rs_env restore_opts string
  | OReplace nat bytes

text \<open>The file systems of the devices, the module, and the table of its probes.\<close>

type_synonym world = "(nat \<Rightarrow> onefilefs) \<times> kstate \<times> xkpblocks"

definition with_k :: "world \<Rightarrow> fault + kstate \<Rightarrow> fault + world" where
  "with_k s r = (case r of Inl f \<Rightarrow> Inl f | Inr k \<Rightarrow> Inr (fst s, k, snd (snd s)))"

definition call_k :: "world \<Rightarrow> fault + int \<times> kstate \<Rightarrow> fault + world" where
  "call_k s r = (case r of Inl f \<Rightarrow> Inl f | Inr (rv, k) \<Rightarrow> Inr (fst s, k, snd (snd s)))"

definition hw_subdir :: "hardware \<Rightarrow> tm \<Rightarrow> string" where
  "hw_subdir h t = subdir_name (strscpy (hw_path h) PATH_MAX) (mount_date t)"

definition hw_key :: "hardware \<Rightarrow> mountinfo" where
  "hw_key h = from_block_device_to_mountinfo (hw_bdev h)"

definition hw_image :: "(nat \<Rightarrow> hardware) \<Rightarrow> nat \<Rightarrow> world \<Rightarrow> bytes" where
  "hw_image hw i s = image_of (hw_size (hw i)) (fst s i)"

definition snapshots_of :: "(nat \<Rightarrow> hardware) \<Rightarrow> nat \<Rightarrow> world \<Rightarrow> tm list \<Rightarrow> bytes option list" where
  "snapshots_of hw i s ts = map (\<lambda>t. snapshots_file (kvfs (fst (snd s))) (hw_subdir (hw i) t)) ts"

text \<open>\<open>OWork i\<close>: the worker of the queue of \<open>i\<close> takes an item; \<open>ODestroy\<close>: the system's worker runs the deferred
  destruction of a queue; \<open>ORestore\<close>: the tool is run on the files of the given mounts, one after the other;
  \<open>OReplace\<close>: the contents of an unmounted device are exchanged by other means.\<close>

fun run_op :: "machine \<Rightarrow> (nat \<Rightarrow> hardware) \<Rightarrow> fleet_op \<Rightarrow> world \<Rightarrow> fault + world" where
  "run_op m hw (OActivate i cl passwd) s =
     call_k s (activate_snapshot cl (m_bkt m) (m_ms_env m) (m_dev_env m) (hw_path (hw i)) passwd (fst (snd s)))"
| "run_op m hw (ODeactivate i cl passwd) s =
     call_k s (deactivate_snapshot cl (m_dev_env m) (hw_path (hw i)) passwd (fst (snd s)))"
| "run_op m hw (OMount i t call) s =
     (case mount_fs (hw_size (hw i)) (hw_image hw i s) of
        Inl f \<Rightarrow> Inl f
      | Inr (rv, fs) \<Rightarrow>
          if rv \<noteq> 0 then Inr s
          else with_k ((fst s)(i := fs), snd s) (krps_mount True True t call (fst (snd s))))"
| "run_op m hw (OWrite i req) s =
     (case tracked_write (m_keyhash m) (m_bd_env m) (hw_bdev (hw i)) (hw_filp (hw i)) req (fst s i, snd s) of
        Inl f \<Rightarrow> Inl f | Inr (fs, kx) \<Rightarrow> Inr ((fst s)(i := fs), kx))"
| "run_op m hw (OWork i) s =
     (case queue_of (hw_bdev (hw i)) (fst (snd s)) of
        None \<Rightarrow> Inr s | Some w \<Rightarrow> with_k s (run_wq_head (m_bkt m) (m_ms_env m) w (fst (snd s))))"
| "run_op m hw (OUmount i regs) s = with_k s (krp_umount True True regs (fst (snd s)))"
| "run_op m hw (ODestroy wid) s = with_k s (run_system_work (m_bkt m) (m_ms_env m) wid (fst (snd s)))"
| "run_op m hw (ORestore i ts renv opts inp) s =
     (case restore_chain renv opts inp (snapshots_of hw i s ts) (hw_image hw i s) of
        None \<Rightarrow> Inl Hang | Some dev \<Rightarrow> Inr ((fst s)(i := load_onefs (hw_size (hw i)) dev), snd s))"
| "run_op m hw (OReplace i dev) s = Inr ((fst s)(i := load_onefs (hw_size (hw i)) dev), snd s)"

text \<open>The mounts of each device, the last one first: when, and the image at that time. A restored device forgets
  the mounts it was taken back over, one whose contents were exchanged all of them.\<close>

type_synonym mounts_log = "nat \<Rightarrow> (tm \<times> bytes) list"

fun note_op :: "(nat \<Rightarrow> hardware) \<Rightarrow> fleet_op \<Rightarrow> world \<Rightarrow> mounts_log \<Rightarrow> mounts_log" where
  "note_op hw (OMount i t call) s h = h(i := (t, hw_image hw i s) # h i)"
| "note_op hw (ORestore i ts renv opts inp) s h = h(i := drop (length ts) (h i))"
| "note_op hw (OReplace i dev) s h = h(i := [])"
| "note_op hw op s h = h"

definition device_data :: "(nat \<Rightarrow> hardware) \<Rightarrow> nat \<Rightarrow> kstate \<Rightarrow> object_data option" where
  "device_data hw i k = (case get_device_data_always (hw_key (hw i)) k of None \<Rightarrow> None | Some oid \<Rightarrow> objs k oid)"

definition is_mounted :: "(nat \<Rightarrow> hardware) \<Rightarrow> nat \<Rightarrow> kstate \<Rightarrow> bool" where
  "is_mounted hw i k = (case device_data hw i k of None \<Rightarrow> False | Some data \<Rightarrow> od_e data \<noteq> None)"

definition is_idle :: "(nat \<Rightarrow> hardware) \<Rightarrow> nat \<Rightarrow> kstate \<Rightarrow> bool" where
  "is_idle hw i k =
     (case device_data hw i k of
        None \<Rightarrow> False
      | Some data \<Rightarrow> od_e data = None \<and> (case od_wq data of None \<Rightarrow> False | Some w \<Rightarrow> wqs k w = Some []))"

text \<open>Not registered, or unmounted with all works done.\<close>

definition at_rest :: "(nat \<Rightarrow> hardware) \<Rightarrow> nat \<Rightarrow> kstate \<Rightarrow> bool" where
  "at_rest hw i k \<longleftrightarrow> get_device_data_always (hw_key (hw i)) k = None \<or> is_idle hw i k"

text \<open>A device is mounted when it is registered and at rest, under a name that no mount in the logs has; it is
  written and unmounted when it is mounted; it is deactivated, restored or exchanged when it is at rest.
  Activations, with or without the password and also of registered devices, and the workers come at any time.\<close>

fun op_ok :: "(nat \<Rightarrow> hardware) \<Rightarrow> nat \<Rightarrow> mounts_log \<Rightarrow> world \<Rightarrow> fleet_op \<Rightarrow> bool" where
  "op_ok hw N h s (OActivate i cl passwd) \<longleftrightarrow> i < N \<and> \<not> isl (auth_check cl passwd)"
| "op_ok hw N h s (ODeactivate i cl passwd) \<longleftrightarrow> i < N \<and> \<not> isl (auth_check cl passwd) \<and> at_rest hw i (fst (snd s))"
| "op_ok hw N h s (OMount i t call) \<longleftrightarrow> i < N \<and> mounts_bdev (hw_bdev (hw i)) call \<and> is_idle hw i (fst (snd s)) \<and>
     dir_free (kvfs (fst (snd s))) (hw_subdir (hw i) t) \<and>
     (\<forall>j < N. hw_subdir (hw i) t \<notin> (\<lambda>e. hw_subdir (hw j) (fst e)) ` set (h j))"
| "op_ok hw N h s (OWrite i req) \<longleftrightarrow> i < N \<and> is_mounted hw i (fst (snd s)) \<and> req_ok (hw_size (hw i)) req"
| "op_ok hw N h s (OWork i) \<longleftrightarrow> i < N"
| "op_ok hw N h s (OUmount i regs) \<longleftrightarrow> i < N \<and> is_mounted hw i (fst (snd s)) \<and> umounts_bdev (hw_bdev (hw i)) regs"
| "op_ok hw N h s (ODestroy wid) \<longleftrightarrow> True"
| "op_ok hw N h s (ORestore i ts renv opts inp) \<longleftrightarrow> i < N \<and> at_rest hw i (fst (snd s)) \<and>
     ts = take (length ts) (map fst (h i)) \<and> rs_env_ok renv \<and> \<not> ask opts \<and> restore_all opts"
| "op_ok hw N h s (OReplace i dev) \<longleftrightarrow> i < N \<and> at_rest hw i (fst (snd s)) \<and> mountable (hw_size (hw i)) dev"

text \<open>The states after \<open>c\<close> operations.\<close>

inductive served :: "machine \<Rightarrow> (nat \<Rightarrow> hardware) \<Rightarrow> nat \<Rightarrow> world \<Rightarrow> nat \<Rightarrow> mounts_log \<Rightarrow> world \<Rightarrow> bool" for m hw N s0 where
  start: "served m hw N s0 0 (\<lambda>_. []) s0"
| op: "\<lbrakk>served m hw N s0 c h s; op_ok hw N h s op; run_op m hw op s = Inr s'\<rbrakk> \<Longrightarrow>
    served m hw N s0 (Suc c) (note_op hw op s h) s'"

text \<open>At the start none of the devices is registered. They have different keys, and file systems that can be mounted.\<close>

definition fleet_ok :: "machine \<Rightarrow> (nat \<Rightarrow> hardware) \<Rightarrow> nat \<Rightarrow> world \<Rightarrow> bool" where
  "fleet_ok m hw N s \<longleftrightarrow> (let k = fst (snd s) in registry_ok k \<and> system_wq k = [] \<and> tree_ok (kvfs k) \<and>
     (\<forall>i < N. device_key (m_dev_env m, hw_path (hw i)) = Some (hw_key (hw i)) \<and> hw_key (hw i) \<notin> registered k \<and>
        filp_on (hw_bdev (hw i)) (hw_filp (hw i)) \<and> disk_ok (hw_size (hw i)) (fst s i)) \<and>
     (\<forall>i < N. \<forall>j < N. i \<noteq> j \<longrightarrow> hw_key (hw i) \<noteq> hw_key (hw j)))"

section \<open>Activation and deactivation among other devices\<close>

lemma lookup_ht_remove: "map_of (ht_remove d t) d' = (if d' = d then None else map_of t d')"
  by (induction t) (auto simp: ht_remove_def)

lemma register_result:
  assumes ok: "registry_ok k" and key: "device_key (env, path) = Some minfo"
  shows "if minfo \<in> registered k then register_device bkt menv env path k = Inr (- EEXIST, drop_device k)
    else \<exists>k'. register_device bkt menv env path k = Inr (0, k') \<and>
      get_device_data_always minfo k' = Some (next_id k + 1) \<and>
      (\<forall>minfo'. minfo' \<noteq> minfo \<longrightarrow> get_device_data_always minfo' k' = get_device_data_always minfo' k) \<and>
      objs k' = (objs k)(next_id k + 1 \<mapsto> \<lparr>wq_is_destroyed = False, od_wq = Some (next_id k), od_e = None,
        od_original_dev_name = strscpy path PATH_MAX\<rparr>) \<and>
      wqs k' = (wqs k)(next_id k \<mapsto> []) \<and> epochs k' = epochs k \<and> system_wq k' = system_wq k \<and> kvfs k' = kvfs k \<and>
      next_id k' = next_id k + 2 \<and> registry_ok k'"
proof (rule device_key_cases[OF key, of k bkt menv])
  show "allow_reging_operation k" using ok by (simp add: registry_ok_def)
next
  fix d assume d: "minfo = BlockDevice d" "register_device bkt menv env path k = try_to_insert_block_device bkt menv env d path k"
  have "reg_env_ok env" by (rule device_key_env[OF key])
  then show ?thesis
    using ok tables_ok_insert_block[of k d env path]
    by (auto simp: d insert_block_eq reg_env_ok_def new_device_def get_device_data_always_def registry_ok_def split: mountinfo.split)
next
  fix p lo assume d: "minfo = LoopDevice p" "get_full_path env lo PATH_MAX = Inr p"
    "register_device bkt menv env path k = try_to_insert_loop_device bkt menv env lo path k"
  have "reg_env_ok env" by (rule device_key_env[OF key])
  then show ?thesis
    using ok tables_ok_insert_loop[of k p env path] d(2)
    by (auto simp: d(1,3) insert_loop_eq reg_env_ok_def new_device_def get_device_data_always_def registry_ok_def split: mountinfo.split)
qed

lemma retire_rest:
  "kvfs (retire env oid data k) = kvfs k"
  "system_wq (retire env oid data k) =
     (if kmalloc_wlistnode_ok env \<and> kmalloc_wargs_ok env
      then system_wq k @ [(next_id k, \<lparr>device_wq = od_wq data, last_epoch = od_e data\<rparr>)] else system_wq k)"
  "kmalloc_wlistnode_ok env \<and> kmalloc_wargs_ok env \<Longrightarrow> next_id k < next_id (retire env oid data k)"
  by (simp_all add: retire_def prune_worklist_def defer_cleanup_def Let_def)

lemma unregister_result:
  assumes ok: "registry_ok k" and key: "device_key (env, path) = Some minfo"
  shows "case get_device_data_always minfo k of
      None \<Rightarrow> unregister_device env path k = Inr (- ENOKEY, k)
    | Some oid \<Rightarrow> \<exists>k'. unregister_device env path k = Inr (0, k') \<and> get_device_data_always minfo k' = None \<and>
      (\<forall>minfo'. minfo' \<noteq> minfo \<longrightarrow> get_device_data_always minfo' k' = get_device_data_always minfo' k) \<and>
      objs k' = (objs k)(oid := None) \<and> wqs k' = wqs k \<and> epochs k' = epochs k \<and> kvfs k' = kvfs k \<and>
      next_id k \<le> next_id k' \<and> registry_ok k' \<and>
      (system_wq k' = system_wq k \<or>
       system_wq k' = system_wq k @ [(next_id k, \<lparr>device_wq = od_wq (the (objs k oid)), last_epoch = od_e (the (objs k oid))\<rparr>)] \<and>
         next_id k < next_id k')"
proof (rule device_key_cases[OF key, of k])
  show "allow_reging_operation k" using ok by (simp add: registry_ok_def)
next
  fix d assume d: "minfo = BlockDevice d" "unregister_device env path k = try_to_remove_block_device env d path k"
  have "reg_env_ok env" by (rule device_key_env[OF key])
  then show ?thesis
    using ok tables_ok_remove_block[of k d]
      retire_simps(4)[of "k\<lparr>blkdevs_ht := ht_remove d (blkdevs_ht k)\<rparr>" env] retire_rest(3)[of env "k\<lparr>blkdevs_ht := ht_remove d (blkdevs_ht k)\<rparr>"]
    by (auto simp: d remove_block_eq reg_env_ok_def get_device_data_always_def registry_ok_def lookup_ht_remove retire_rest
        split: mountinfo.split option.split)
next
  fix p lo assume d: "minfo = LoopDevice p" "get_full_path env lo PATH_MAX = Inr p"
    "unregister_device env path k = try_to_remove_loop_device env lo path k"
  have "reg_env_ok env" by (rule device_key_env[OF key])
  then show ?thesis
    using ok tables_ok_remove_loop[of k p]
      retire_simps(4)[of "k\<lparr>loops_ht := ht_remove p (loops_ht k)\<rparr>" env] retire_rest(3)[of env "k\<lparr>loops_ht := ht_remove p (loops_ht k)\<rparr>"] d(2)
    by (auto simp: d(1,3) remove_loop_eq reg_env_ok_def get_device_data_always_def registry_ok_def lookup_ht_remove retire_rest
        split: mountinfo.split option.split)
qed

lemma drop_device_rest:
  "objs (drop_device k) = objs k" "wqs (drop_device k) = (wqs k)(next_id k := None)" "epochs (drop_device k) = epochs k"
  "system_wq (drop_device k) = system_wq k" "kvfs (drop_device k) = kvfs k" "next_id (drop_device k) = next_id k + 1"
  "get_device_data_always minfo (drop_device k) = get_device_data_always minfo k"
  "registry_ok k \<Longrightarrow> registry_ok (drop_device k)"
proof -
  show "registry_ok k \<Longrightarrow> registry_ok (drop_device k)" by (simp add: registry_ok_def)
qed (simp_all add: drop_device_def get_device_data_always_def cong: mountinfo.case_cong)

text \<open>What is left of a device that was deactivated when it was idle: its empty queue, destroyed by a work.\<close>

lemma run_system_work_idle:
  assumes "map_of (system_wq k) wid = Some a" "device_wq a = Some w" "last_epoch a = None" "wqs k w = Some []"
  shows "run_system_work bkt menv wid k =
    Inr (k\<lparr>system_wq := filter (\<lambda>n. fst n \<noteq> wid) (system_wq k), wqs := (wqs k)(w := None)\<rparr>)"
  using assms by (simp add: run_system_work_def do_waddw_def flush_workqueue_def destroy_epoch_id_def)

section \<open>The invariant of all devices\<close>

text \<open>A registered device with its object and its queue.\<close>

definition hw_data :: "hardware \<Rightarrow> nat \<Rightarrow> object_data" where
  "hw_data h w = \<lparr>wq_is_destroyed = False, od_wq = Some w, od_e = None, od_original_dev_name = strscpy (hw_path h) PATH_MAX\<rparr>"

definition mk_dev :: "hardware \<Rightarrow> nat \<times> nat \<Rightarrow> dev" where
  "mk_dev h ow = \<lparr>bdev_of = hw_bdev h, filp_of = hw_filp h, oid_of = fst ow, data_of = hw_data h (snd ow),
     wq_of = snd ow, size_of = hw_size h\<rparr>"

lemma mk_dev_simps [simp]:
  "bdev_of (mk_dev h ow) = hw_bdev h" "filp_of (mk_dev h ow) = hw_filp h" "oid_of (mk_dev h ow) = fst ow"
  "data_of (mk_dev h ow) = hw_data h (snd ow)" "wq_of (mk_dev h ow) = snd ow" "size_of (mk_dev h ow) = hw_size h"
  by (simp_all add: mk_dev_def)

definition hw_files :: "hardware \<Rightarrow> kstate \<Rightarrow> tm \<Rightarrow> bytes option" where
  "hw_files h k t = snapshots_file (kvfs k) (hw_subdir h t)"

definition hw_subs :: "hardware \<Rightarrow> (tm \<times> bytes) list \<Rightarrow> string set" where
  "hw_subs h hs = (\<lambda>e. hw_subdir h (fst e)) ` set hs"

lemma hw_data_views [simp]:
  "epoch_subdir (hw_data h w) t = hw_subdir h t" "files_of (hw_data h w) = hw_files h" "subs_of (hw_data h w) = hw_subs h"
  "od_e (hw_data h w) = None"
proof -
  show "epoch_subdir (hw_data h w) t = hw_subdir h t" for t
    by (simp add: epoch_subdir_def hw_subdir_def hw_data_def) (simp add: strscpy_def)
  then show "files_of (hw_data h w) = hw_files h" "subs_of (hw_data h w) = hw_subs h"
    by (simp_all add: files_of_def hw_files_def subs_of_def hw_subs_def fun_eq_iff)
qed (simp add: hw_data_def)

text \<open>Device \<open>i\<close>, registered with the object and the queue \<open>r\<close> or not registered.\<close>

definition slot_inv ::
  "machine \<Rightarrow> hardware \<Rightarrow> nat \<Rightarrow> (tm \<times> bytes) list \<Rightarrow> onefilefs \<Rightarrow> kstate \<Rightarrow> (nat \<times> nat) option \<Rightarrow> nat option \<Rightarrow> bool" where
  "slot_inv m h c hs fs k r cur \<longleftrightarrow>
     (case r of
        None \<Rightarrow> get_device_data_always (hw_key h) k = None \<and> cur = None \<and> disk_ok (hw_size h) fs \<and>
          subs_distinct (hw_data h 0) hs \<and> chain (hw_size h) (hw_files h k) hs (image_of (hw_size h) fs)
      | Some ow \<Rightarrow> dev_inv m (mk_dev h ow) c hs fs k cur \<and> fst ow < next_id k \<and> snd ow < next_id k) \<and>
     (\<forall>e. cur = Some e \<longrightarrow> e < next_id k)"

text \<open>What the operations of the others leave as it is.\<close>

definition quiet :: "hardware \<Rightarrow> (tm \<times> bytes) list \<Rightarrow> (nat \<times> nat) option \<Rightarrow> nat option \<Rightarrow> kstate \<Rightarrow> kstate \<Rightarrow> bool" where
  "quiet h hs r cur k k' \<longleftrightarrow> same_dirs (hw_subs h hs) (kvfs k) (kvfs k') \<and> next_id k \<le> next_id k' \<and>
     (case r of
        None \<Rightarrow> get_device_data_always (hw_key h) k' = get_device_data_always (hw_key h) k
      | Some ow \<Rightarrow> stays (mk_dev h ow) cur k k')"

lemma subs_distinct_data [simp]: "NO_MATCH 0 w \<Longrightarrow> subs_distinct (hw_data h w) hs = subs_distinct (hw_data h 0) hs"
  by (simp add: subs_distinct_def)

lemma hw_chain_frame:
  "same_dirs (hw_subs h hs) (kvfs k) (kvfs k') \<Longrightarrow> chain n (hw_files h k') hs img = chain n (hw_files h k) hs img"
  using chain_frame[of "hw_data h 0" hs k k' n img] by simp

lemma slot_frame:
  assumes "slot_inv m h c hs fs k r cur" "quiet h hs r cur k k'" "c \<le> c'"
  shows "slot_inv m h c' hs fs k' r cur"
proof (cases r)
  case None
  then show ?thesis using assms hw_chain_frame[of h hs k k'] by (auto simp: slot_inv_def quiet_def)
next
  case (Some ow)
  have "dev_inv m (mk_dev h ow) c' hs fs k' cur"
    using assms by (intro dev_inv_mono[OF dev_inv_frame[of m "mk_dev h ow" c hs fs k cur k'] assms(3)])
      (simp_all add: slot_inv_def quiet_def Some)
  then show ?thesis using assms by (auto simp: slot_inv_def quiet_def Some)
qed

text \<open>What two devices must not share.\<close>

definition apart :: "hardware \<Rightarrow> (tm \<times> bytes) list \<Rightarrow> (nat \<times> nat) option \<Rightarrow> nat option \<Rightarrow>
    hardware \<Rightarrow> (tm \<times> bytes) list \<Rightarrow> (nat \<times> nat) option \<Rightarrow> nat option \<Rightarrow> bool" where
  "apart h hs r cur h' hs' r' cur' \<longleftrightarrow>
     (\<forall>a b. r = Some a \<longrightarrow> r' = Some b \<longrightarrow> fst a \<noteq> fst b \<and> snd a \<noteq> snd b) \<and>
     (\<forall>e. cur = Some e \<longrightarrow> cur' \<noteq> Some e) \<and> hw_subs h hs \<inter> hw_subs h' hs' = {}"

text \<open>The queues that wait for their destruction.\<close>

definition buried :: "nat \<Rightarrow> (nat \<Rightarrow> (nat \<times> nat) option) \<Rightarrow> kstate \<Rightarrow> nat \<times> waddw_args \<Rightarrow> bool" where
  "buried N R k n \<longleftrightarrow> fst n < next_id k \<and> last_epoch (snd n) = None \<and>
     (\<exists>w. device_wq (snd n) = Some w \<and> wqs k w = Some [] \<and> w < next_id k \<and> (\<forall>i < N. \<forall>ow. R i = Some ow \<longrightarrow> snd ow \<noteq> w))"

definition graves_ok :: "nat \<Rightarrow> (nat \<Rightarrow> (nat \<times> nat) option) \<Rightarrow> kstate \<Rightarrow> bool" where
  "graves_ok N R k \<longleftrightarrow> distinct (map fst (system_wq k)) \<and> distinct (map (\<lambda>n. device_wq (snd n)) (system_wq k)) \<and>
     (\<forall>n \<in> set (system_wq k). buried N R k n)"

lemma buried_mono:
  assumes "buried N R k n" "next_id k \<le> next_id k'"
    and "\<And>w. device_wq (snd n) = Some w \<Longrightarrow> w < next_id k \<Longrightarrow> wqs k w = Some [] \<Longrightarrow> \<forall>i < N. \<forall>ow. R i = Some ow \<longrightarrow> snd ow \<noteq> w \<Longrightarrow>
      wqs k' w = Some [] \<and> (\<forall>i < N. \<forall>ow. R' i = Some ow \<longrightarrow> snd ow \<noteq> w)"
  shows "buried N R' k' n"
  using assms unfolding buried_def by (meson less_le_trans)

definition fleet_inv ::
  "machine \<Rightarrow> (nat \<Rightarrow> hardware) \<Rightarrow> nat \<Rightarrow> nat \<Rightarrow> mounts_log \<Rightarrow> world \<Rightarrow> (nat \<Rightarrow> (nat \<times> nat) option) \<Rightarrow>
     (nat \<Rightarrow> nat option) \<Rightarrow> bool" where
  "fleet_inv m hw N c h s R cur \<longleftrightarrow> (let (fs, k, x) = s in tree_ok (kvfs k) \<and> registry_ok k \<and> graves_ok N R k \<and>
     (\<forall>i < N. slot_inv m (hw i) c (h i) (fs i) k (R i) (cur i)) \<and>
     (\<forall>i < N. \<forall>j < N. i \<noteq> j \<longrightarrow> apart (hw i) (h i) (R i) (cur i) (hw j) (h j) (R j) (cur j)))"

lemma fleet_invD:
  assumes "fleet_inv m hw N c h (fs, k, x) R cur"
  shows "tree_ok (kvfs k)" "registry_ok k" "graves_ok N R k" "i < N \<Longrightarrow> slot_inv m (hw i) c (h i) (fs i) k (R i) (cur i)"
    "i < N \<Longrightarrow> j < N \<Longrightarrow> i \<noteq> j \<Longrightarrow> apart (hw i) (h i) (R i) (cur i) (hw j) (h j) (R j) (cur j)"
  using assms by (simp_all add: fleet_inv_def)

lemma apart_sym: "apart h hs r cur h' hs' r' cur' \<Longrightarrow> apart h' hs' r' cur' h hs r cur"
  unfolding apart_def by (metis Int_commute)

lemma apart_update:
  assumes ap: "apart h hs r cur h' hs' r' cur'" and slot: "slot_inv m h' c hs' fs k r' cur'"
    and r: "r1 = r \<or> r1 = None \<or> (\<exists>ow. r1 = Some ow \<and> next_id k \<le> fst ow \<and> next_id k \<le> snd ow)"
    and e: "cur1 = cur \<or> cur1 = None \<or> (\<exists>e. cur1 = Some e \<and> next_id k \<le> e)"
    and subs: "hw_subs h hs1 \<inter> hw_subs h' hs' = {}"
  shows "apart h hs1 r1 cur1 h' hs' r' cur'"
proof -
  have "fst a \<noteq> fst b \<and> snd a \<noteq> snd b" if "r1 = Some a" "r' = Some b" for a b
  proof -
    have "r = Some a \<or> next_id k \<le> fst a \<and> next_id k \<le> snd a" using r that by auto
    moreover have "fst b < next_id k" "snd b < next_id k" using slot that by (simp_all add: slot_inv_def)
    ultimately show ?thesis using ap that(2) unfolding apart_def by (metis leD)
  qed
  moreover have "cur' \<noteq> Some e" if "cur1 = Some e" for e
    using that ap slot e by (auto simp: apart_def slot_inv_def)
  ultimately show ?thesis using subs by (simp add: apart_def)
qed

lemma fleet_update:
  assumes inv: "fleet_inv m hw N c h (fs, k, x) R cur" and i: "i < N" and c: "c \<le> c'"
    and others: "\<And>j. j < N \<Longrightarrow> j \<noteq> i \<Longrightarrow> quiet (hw j) (h j) (R j) (cur j) k k'"
    and own: "slot_inv m (hw i) c' hs f k' r e"
    and k': "tree_ok (kvfs k')" "registry_ok k'" "graves_ok N (R(i := r)) k'"
    and r: "r = R i \<or> r = None \<or> (\<exists>ow. r = Some ow \<and> next_id k \<le> fst ow \<and> next_id k \<le> snd ow)"
    and e: "e = cur i \<or> e = None \<or> (\<exists>e'. e = Some e' \<and> next_id k \<le> e')"
    and subs: "\<And>j. j < N \<Longrightarrow> j \<noteq> i \<Longrightarrow> hw_subs (hw i) hs \<inter> hw_subs (hw j) (h j) = {}"
  shows "fleet_inv m hw N c' (h(i := hs)) (fs(i := f), k', x') (R(i := r)) (cur(i := e))"
proof -
  note I = fleet_invD[OF inv]
  have new: "apart (hw i) hs r e (hw j) (h j) (R j) (cur j)" if "j < N" "j \<noteq> i" for j
    using apart_update[OF I(5)[OF i] I(4) r e subs] that by blast
  show ?thesis unfolding fleet_inv_def prod.case Let_def
  proof (intro conjI allI impI)
    fix j assume j: "j < N"
    show "slot_inv m (hw j) c' ((h(i := hs)) j) ((fs(i := f)) j) k' ((R(i := r)) j) ((cur(i := e)) j)"
      using own slot_frame[OF I(4)[OF j] others[OF j] c] by simp
  next
    fix j l assume j: "j < N" "l < N" "j \<noteq> l"
    show "apart (hw j) ((h(i := hs)) j) ((R(i := r)) j) ((cur(i := e)) j) (hw l) ((h(i := hs)) l) ((R(i := r)) l) ((cur(i := e)) l)"
      using new apart_sym[OF new] I(5)[OF j] j by auto
  qed (rule k')+
qed

lemma fleet_quiet:
  assumes inv: "fleet_inv m hw N c h (fs, k, x) R cur" and c: "c \<le> c'"
    and all: "\<And>j. j < N \<Longrightarrow> quiet (hw j) (h j) (R j) (cur j) k k'"
    and k': "tree_ok (kvfs k')" "registry_ok k'" "graves_ok N R k'"
  shows "fleet_inv m hw N c' h (fs, k', x') R cur"
  using fleet_invD[OF inv] slot_frame[OF _ all c] k' unfolding fleet_inv_def by simp

lemma quiet_refl: "tree_ok (kvfs k) \<Longrightarrow> quiet h hs r cur k k"
  by (simp add: quiet_def same_dirs_refl stays_def split: option.split)

lemma fleet_mono: "fleet_inv m hw N c h s R cur \<Longrightarrow> c \<le> c' \<Longrightarrow> fleet_inv m hw N c' h s R cur"
  using fleet_quiet[of m hw N c h "fst s" "fst (snd s)" "snd (snd s)" R cur c'] quiet_refl fleet_invD[of m hw N c h "fst s"]
  by (metis prod.collapse)

section \<open>Operations of one registered device\<close>

lemma registry_ok_change:
  assumes ch: "device_change oid w e sub k k'" and ok: "registry_ok k"
  shows "registry_ok k'"
proof -
  have same: "blkdevs_ht k' = blkdevs_ht k" "loops_ht k' = loops_ht k" "dom (objs k') = dom (objs k)" "next_id k \<le> next_id k'"
    "allow_reging_operation k' = allow_reging_operation k" using ch by (simp_all add: device_change_def)
  have "\<forall>oid \<in> dom (objs k). oid < next_id k" using ok by (simp add: registry_ok_def tables_ok_def)
  then have "\<forall>oid \<in> dom (objs k). oid < next_id k'" using same(4) less_le_trans by blast
  then show ?thesis using ok by (simp add: registry_ok_def tables_ok_def same)
qed

lemma graves_ok_change:
  assumes g: "graves_ok N R k" and ch: "device_change oid w e sub k k'" and r: "R i = Some (oid, w)" "i < N"
  shows "graves_ok N R k'"
proof -
  have "buried N R k' n" if "buried N R k n" for n
  proof (rule buried_mono[OF that])
    fix v assume v: "wqs k v = Some []" "\<forall>i < N. \<forall>ow. R i = Some ow \<longrightarrow> snd ow \<noteq> v"
    then have "v \<noteq> w" using r by (metis snd_conv)
    with v ch show "wqs k' v = Some [] \<and> (\<forall>i < N. \<forall>ow. R i = Some ow \<longrightarrow> snd ow \<noteq> v)" by (simp add: device_change_def)
  qed (use ch in \<open>simp add: device_change_def\<close>)
  then show ?thesis using g ch by (simp add: graves_ok_def device_change_def)
qed

lemma quiet_change:
  assumes "device_change oid w e sub k k'" "tree_ok (kvfs k)" "sub \<notin> hw_subs h hs"
    "\<forall>ow. r = Some ow \<longrightarrow> fst ow \<noteq> oid \<and> snd ow \<noteq> w" "cur \<noteq> Some e"
  shows "quiet h hs r cur k k'"
proof -
  have "same_dirs (hw_subs h hs) (kvfs k) (kvfs k')"
    using assms(1) by (intro vfs_steps_same_dirs[OF _ assms(2,3)]) (simp add: device_change_def)
  then show ?thesis using assms device_change_lookup[OF assms(1)] device_change_stays[OF assms(1), of "mk_dev h _" cur]
    by (auto simp: quiet_def device_change_def split: option.split)
qed

text \<open>A mounted device, or one whose works are not done.\<close>

lemma fleet_own:
  assumes inv: "fleet_inv m hw N c h (fs, k, x) R cur" and i: "i < N" and c: "c \<le> c'"
    and r: "R i = Some ow" and cur: "cur i = Some e" "h i \<noteq> []"
    and ch: "own_change (mk_dev (hw i) ow) e (fst (hd (h i))) k k'"
    and own: "dev_inv m (mk_dev (hw i) ow) c' (h i) f k' e'" "e' = cur i \<or> e' = None"
  shows "fleet_inv m hw N c' h (fs(i := f), k', x') R (cur(i := e'))"
proof -
  note I = fleet_invD[OF inv]
  let ?sub = "hw_subdir (hw i) (fst (hd (h i)))"
  have ch': "device_change (fst ow) (snd ow) e ?sub k k'" using ch by simp
  have sub: "?sub \<in> hw_subs (hw i) (h i)" unfolding hw_subs_def using cur(2) by (intro imageI) simp
  have quiet: "quiet (hw j) (h j) (R j) (cur j) k k'" if "j < N" "j \<noteq> i" for j
    using I(5)[OF i that(1)] that r cur(1) sub by (intro quiet_change[OF ch' I(1)]) (auto simp: apart_def)
  have ids: "fst ow < next_id k'" "snd ow < next_id k'" "e < next_id k'"
    using I(4)[OF i] ch r cur(1) by (auto simp: slot_inv_def device_change_def)
  have "fleet_inv m hw N c' (h(i := h i)) (fs(i := f), k', x') (R(i := R i)) (cur(i := e'))"
  proof (rule fleet_update[OF inv i c quiet])
    show "slot_inv m (hw i) c' (h i) f k' (R i) e'" using own cur(1) ids by (auto simp: slot_inv_def r)
    show "tree_ok (kvfs k')" using vfs_steps_same_epoch_dir[OF _ I(1)] ch unfolding device_change_def by blast
    show "registry_ok k'" by (rule registry_ok_change[OF ch I(2)])
    show "graves_ok N (R(i := R i)) k'" unfolding fun_upd_triv by (rule graves_ok_change[OF I(3) ch' _ i]) (simp add: r)
    show "hw_subs (hw i) (h i) \<inter> hw_subs (hw j) (h j) = {}" if "j < N" "j \<noteq> i" for j
      using I(5)[OF i that(1)] that by (simp add: apart_def)
  qed (use own(2) in auto)
  then show ?thesis by simp
qed

text \<open>What the tables say of a registered device.\<close>

lemma in_epoch_facts:
  assumes "in_epoch m d c e t old fs k"
  shows "get_device_data_always (from_block_device_to_mountinfo (bdev_of d)) k = Some (oid_of d)"
    "\<exists>data. objs k (oid_of d) = Some data \<and> od_wq data = od_wq (data_of d) \<and> od_wq (data_of d) = Some (wq_of d) \<and>
      (od_e data \<noteq> None \<or> wqs k (wq_of d) \<noteq> Some [])"
    "wqs k (wq_of d) \<noteq> None"
  using assms by (auto simp: in_epoch_def serving_def draining_def device_open_def elim: pendingE)

lemma slot_lookup:
  assumes slot: "slot_inv m g c hs fs k r cur"
  shows "case r of
      None \<Rightarrow> get_device_data_always (hw_key g) k = None \<and> cur = None
    | Some ow \<Rightarrow> get_device_data_always (hw_key g) k = Some (fst ow) \<and> wqs k (snd ow) \<noteq> None \<and>
        (\<exists>data. objs k (fst ow) = Some data \<and> od_wq data = Some (snd ow) \<and>
          (if cur = None then data = hw_data g (snd ow) \<and> wqs k (snd ow) = Some []
           else od_e data \<noteq> None \<or> wqs k (snd ow) \<noteq> Some []))"
proof (cases r)
  case None
  then show ?thesis using slot by (simp add: slot_inv_def)
next
  case (Some ow)
  then have inv: "dev_inv m (mk_dev g ow) c hs fs k cur" using slot by (simp add: slot_inv_def)
  show ?thesis
  proof (cases cur)
    case None
    then show ?thesis using inv Some by (simp add: dev_inv_def idle_dev_def device_idle_def hw_key_def hw_data_def)
  next
    case (Some e)
    with inv obtain t old where "in_epoch m (mk_dev g ow) c e t old fs k" by (auto simp: dev_inv_def)
    from in_epoch_facts[OF this] show ?thesis using Some \<open>r = Some ow\<close> by (auto simp: hw_key_def hw_data_def)
  qed
qed

lemma idle_slot:
  assumes "slot_inv m (hw i) c hs fs k r cur" "is_idle hw i k"
  obtains ow where "r = Some ow" "cur = None"
  using slot_lookup[OF assms(1)] assms(2)
  by (auto simp: is_idle_def device_data_def split: option.splits if_splits)

lemma rest_slot: "slot_inv m (hw i) c hs fs k r cur \<Longrightarrow> at_rest hw i k \<Longrightarrow> cur = None"
  using slot_lookup[of m "hw i" c hs fs k r cur] idle_slot[of m hw i c hs fs k r cur]
  by (auto simp: at_rest_def split: option.splits)

lemma mounted_slot:
  assumes "slot_inv m (hw i) c hs fs k r cur" "is_mounted hw i k"
  obtains ow where "r = Some ow" "mounted_dev (mk_dev (hw i) ow) k"
  using slot_lookup[OF assms(1)] assms(2)
  by (auto simp: is_mounted_def device_data_def mounted_dev_def split: option.splits if_splits)

lemma slot_queue:
  assumes "slot_inv m g c hs fs k r cur"
  shows "queue_of (hw_bdev g) k = map_option snd r"
  using slot_lookup[OF assms] by (auto simp: queue_of_def hw_key_def split: option.splits)

lemma slot_chain:
  assumes "slot_inv m h c hs fs k r None"
  shows "chain (hw_size h) (hw_files h k) hs (image_of (hw_size h) fs)" "disk_ok (hw_size h) fs"
  using assms by (auto simp: slot_inv_def dev_inv_def split: option.splits)

section \<open>Every operation\<close>

definition hardware_ok :: "machine \<Rightarrow> (nat \<Rightarrow> hardware) \<Rightarrow> nat \<Rightarrow> bool" where
  "hardware_ok m hw N \<longleftrightarrow> machine_ok m \<and>
     (\<forall>i < N. device_key (m_dev_env m, hw_path (hw i)) = Some (hw_key (hw i)) \<and> filp_on (hw_bdev (hw i)) (hw_filp (hw i))) \<and>
     (\<forall>i < N. \<forall>j < N. i \<noteq> j \<longrightarrow> hw_key (hw i) \<noteq> hw_key (hw j))"

lemma hardware_okD:
  assumes "hardware_ok m hw N"
  shows "machine_ok m" "i < N \<Longrightarrow> device_key (m_dev_env m, hw_path (hw i)) = Some (hw_key (hw i))"
    "i < N \<Longrightarrow> filp_on (hw_bdev (hw i)) (hw_filp (hw i))"
    "i < N \<Longrightarrow> j < N \<Longrightarrow> i \<noteq> j \<Longrightarrow> hw_key (hw i) \<noteq> hw_key (hw j)"
  using assms by (simp_all add: hardware_ok_def)

text \<open>Activation, of a new device and of a registered one.\<close>

lemma quiet_drop:
  assumes "tree_ok (kvfs k)" "\<forall>ow. r = Some ow \<longrightarrow> snd ow < next_id k"
  shows "quiet h hs r cur k (drop_device k)"
  using assms by (auto simp: quiet_def stays_def same_dirs_refl drop_device_rest split: option.split)

lemma graves_ok_ids:
  assumes g: "graves_ok N R k" and k': "system_wq k' = system_wq k" "next_id k \<le> next_id k'"
    "\<And>w. w < next_id k \<Longrightarrow> wqs k' w = wqs k w"
    and R': "\<And>i ow. i < N \<Longrightarrow> R' i = Some ow \<Longrightarrow> R i = Some ow \<or> next_id k \<le> snd ow"
  shows "graves_ok N R' k'"
proof -
  have "buried N R' k' n" if "buried N R k n" for n
    by (rule buried_mono[OF that k'(2)]) (use k'(3) R' in \<open>metis leD\<close>)
  then show ?thesis using g k'(1) by (simp add: graves_ok_def)
qed

lemma fleet_activate:
  assumes hw: "hardware_ok m hw N" and inv: "fleet_inv m hw N c h (fs, k, x) R cur" and i: "i < N"
    and auth: "\<not> isl (auth_check cl passwd)"
  shows "\<exists>s' R'. run_op m hw (OActivate i cl passwd) (fs, k, x) = Inr s' \<and> fleet_inv m hw N (Suc c) h s' R' cur"
proof -
  note I = fleet_invD[OF inv] and H = hardware_okD[OF hw]
  obtain rv where rv: "auth_check cl passwd = Inr rv" using auth by (cases "auth_check cl passwd") auto
  note reg = register_result[OF I(2) H(2)[OF i], of "m_bkt m" "m_ms_env m"]
  consider (denied) "rv \<noteq> 0" | (old) "rv = 0" "hw_key (hw i) \<in> registered k" | (new) "rv = 0" "hw_key (hw i) \<notin> registered k" by blast
  then show ?thesis
  proof cases
    case denied
    then show ?thesis using rv fleet_mono[OF inv, of "Suc c"] by (auto simp: call_k_def activate_snapshot_def)
  next
    case old
    have "fleet_inv m hw N (Suc c) h (fs, drop_device k, x) R cur"
    proof (rule fleet_quiet[OF inv])
      show "quiet (hw j) (h j) (R j) (cur j) k (drop_device k)" if "j < N" for j
        using I(4)[OF that] by (intro quiet_drop I(1)) (auto simp: slot_inv_def)
      show "graves_ok N R (drop_device k)" by (rule graves_ok_ids[OF I(3)]) (simp_all add: drop_device_rest)
    qed (use I(1,2) in \<open>simp_all add: drop_device_rest\<close>)
    then show ?thesis using reg old rv by (auto simp: call_k_def activate_snapshot_def)
  next
    case new
    from reg new(2) obtain k' where k': "register_device (m_bkt m) (m_ms_env m) (m_dev_env m) (hw_path (hw i)) k = Inr (0, k')"
      "get_device_data_always (hw_key (hw i)) k' = Some (next_id k + 1)"
      "\<forall>minfo'. minfo' \<noteq> hw_key (hw i) \<longrightarrow> get_device_data_always minfo' k' = get_device_data_always minfo' k"
      "objs k' = (objs k)(next_id k + 1 \<mapsto> hw_data (hw i) (next_id k))"
      "wqs k' = (wqs k)(next_id k \<mapsto> [])" "epochs k' = epochs k" "system_wq k' = system_wq k" "kvfs k' = kvfs k"
      "next_id k' = next_id k + 2" "registry_ok k'"
      unfolding hw_data_def by auto
    have none: "R i = None" "cur i = None"
      using slot_lookup[OF I(4)[OF i]] new(2) by (auto simp: registered_iff split: option.splits)
    have slot: "slot_inv m (hw i) (Suc c) (h i) (fs i) k' (Some (next_id k + 1, next_id k)) None"
    proof -
      have "idle_dev (mk_dev (hw i) (next_id k + 1, next_id k)) k'"
        using k'(2,4,5) by (simp add: idle_dev_def device_idle_def hw_data_def hw_key_def)
      moreover have "hw_files (hw i) k' = hw_files (hw i) k" by (simp add: hw_files_def k'(8) fun_eq_iff)
      ultimately show ?thesis using I(4)[OF i] none k'(9) by (simp add: slot_inv_def dev_inv_def)
    qed
    have quiet: "quiet (hw j) (h j) (R j) (cur j) k k'" if j: "j < N" "j \<noteq> i" for j
    proof -
      have "get_device_data_always (hw_key (hw j)) k' = get_device_data_always (hw_key (hw j)) k" using k'(3) H(4)[OF j(1) i j(2)] by simp
      then show ?thesis using I(1) I(4)[OF j(1)] k'
        by (auto simp: quiet_def stays_def same_dirs_refl hw_key_def slot_inv_def split: option.splits)
    qed
    have "fleet_inv m hw N (Suc c) (h(i := h i)) (fs(i := fs i), k', x) (R(i := Some (next_id k + 1, next_id k))) (cur(i := None))"
    proof (rule fleet_update[OF inv i _ quiet slot])
      show "graves_ok N (R(i := Some (next_id k + 1, next_id k))) k'"
        by (rule graves_ok_ids[OF I(3)]) (use k' in \<open>auto split: if_splits\<close>)
      show "hw_subs (hw i) (h i) \<inter> hw_subs (hw j) (h j) = {}" if "j < N" "j \<noteq> i" for j
        using I(5)[OF i that(1)] that by (simp add: apart_def)
    qed (use I(1) k'(8,10) in auto)
    moreover have "cur(i := None) = cur" using none(2) by (simp add: fun_eq_iff)
    ultimately show ?thesis using k'(1) new(1) rv by (auto simp: call_k_def activate_snapshot_def)
  qed
qed

text \<open>Deactivation of a device at rest: its queue waits for the system's worker.\<close>

lemma graves_ok_bury:
  assumes g: "graves_ok N R k"
    and k': "system_wq k' = system_wq k @ [(next_id k, \<lparr>device_wq = Some (snd ow), last_epoch = None\<rparr>)]"
      "next_id k < next_id k'" "wqs k' = wqs k" "wqs k (snd ow) = Some []" "snd ow < next_id k"
    and i: "i < N" "R i = Some ow" "\<And>j ow'. j < N \<Longrightarrow> j \<noteq> i \<Longrightarrow> R j = Some ow' \<Longrightarrow> snd ow' \<noteq> snd ow"
  shows "graves_ok N (R(i := None)) k'"
proof -
  note g' = g[unfolded graves_ok_def]
  have R': "(R(i := None)) j = Some ow' \<Longrightarrow> j \<noteq> i \<and> R j = Some ow'" for j ow' by (simp split: if_splits)
  have old: "fst n \<noteq> next_id k \<and> device_wq (snd n) \<noteq> Some (snd ow) \<and> buried N (R(i := None)) k' n" if "n \<in> set (system_wq k)" for n
  proof -
    have bur: "buried N R k n" using g' that by blast
    then obtain w where w: "fst n < next_id k" "device_wq (snd n) = Some w" "\<forall>i < N. \<forall>ow. R i = Some ow \<longrightarrow> snd ow \<noteq> w"
      unfolding buried_def by blast
    have "buried N (R(i := None)) k' n"
      by (rule buried_mono[OF bur]) (use k'(2,3) R' in \<open>auto simp del: fun_upd_apply split_paired_All\<close>)
    moreover have "w \<noteq> snd ow" using w(3) i(1,2) by blast
    ultimately show ?thesis using w(1,2) by simp
  qed
  have ids: "next_id k \<notin> fst ` set (system_wq k)" "Some (snd ow) \<notin> (\<lambda>n. device_wq (snd n)) ` set (system_wq k)"
    using old by (metis imageE)+
  have "distinct (map fst (system_wq k'))" "distinct (map (\<lambda>n. device_wq (snd n)) (system_wq k'))"
    unfolding k'(1) using g' ids by simp_all
  moreover have "\<forall>j < N. \<forall>ow'. (R(i := None)) j = Some ow' \<longrightarrow> snd ow' \<noteq> snd ow" using R' i(3) by blast
  then have "buried N (R(i := None)) k' (next_id k, \<lparr>device_wq = Some (snd ow), last_epoch = None\<rparr>)"
    unfolding buried_def using k' by simp
  ultimately show ?thesis unfolding graves_ok_def k'(1) using old by simp
qed

lemma fleet_deactivate:
  assumes hw: "hardware_ok m hw N" and inv: "fleet_inv m hw N c h (fs, k, x) R cur" and i: "i < N"
    and auth: "\<not> isl (auth_check cl passwd)" and rest: "at_rest hw i k"
  shows "\<exists>s' R'. run_op m hw (ODeactivate i cl passwd) (fs, k, x) = Inr s' \<and> fleet_inv m hw N (Suc c) h s' R' cur"
proof -
  note I = fleet_invD[OF inv] and H = hardware_okD[OF hw]
  obtain rv where rv: "auth_check cl passwd = Inr rv" using auth by (cases "auth_check cl passwd") auto
  note unreg = unregister_result[OF I(2) H(2)[OF i]]
  have none: "cur i = None" by (rule rest_slot[OF I(4)[OF i] rest])
  consider (denied) "rv \<noteq> 0" | (unknown) "rv = 0" "R i = None" | (known) ow where "rv = 0" "R i = Some ow"
    by (cases "R i") auto
  then show ?thesis
  proof cases
    case denied
    then show ?thesis using rv fleet_mono[OF inv, of "Suc c"] by (auto simp: call_k_def deactivate_snapshot_def)
  next
    case unknown
    then show ?thesis using slot_lookup[OF I(4)[OF i]] unreg rv fleet_mono[OF inv, of "Suc c"]
      by (auto simp: call_k_def deactivate_snapshot_def)
  next
    case known
    have data: "get_device_data_always (hw_key (hw i)) k = Some (fst ow)" "objs k (fst ow) = Some (hw_data (hw i) (snd ow))"
      "wqs k (snd ow) = Some []" using slot_lookup[OF I(4)[OF i]] known none by auto
    from unreg data obtain k' where k': "unregister_device (m_dev_env m) (hw_path (hw i)) k = Inr (0, k')"
      "get_device_data_always (hw_key (hw i)) k' = None"
      "\<forall>minfo'. minfo' \<noteq> hw_key (hw i) \<longrightarrow> get_device_data_always minfo' k' = get_device_data_always minfo' k"
      "objs k' = (objs k)(fst ow := None)" "wqs k' = wqs k" "epochs k' = epochs k" "kvfs k' = kvfs k" "next_id k \<le> next_id k'"
      "registry_ok k'"
      and grave: "system_wq k' = system_wq k \<or>
        system_wq k' = system_wq k @ [(next_id k, \<lparr>device_wq = Some (snd ow), last_epoch = None\<rparr>)] \<and> next_id k < next_id k'"
      by (auto simp: hw_data_def)
    have ow: "snd ow < next_id k" "dev_inv m (mk_dev (hw i) ow) c (h i) (fs i) k (cur i)"
      using I(4)[OF i] known by (simp_all add: slot_inv_def)
    have files: "hw_files (hw i) k' = hw_files (hw i) k" by (simp add: hw_files_def k'(7) fun_eq_iff)
    have slot: "slot_inv m (hw i) (Suc c) (h i) (fs i) k' None None"
      using slot_chain[of m "hw i" c "h i" "fs i" k "R i"] I(4)[OF i] none ow(2) k'(2) files
      by (simp add: slot_inv_def[of _ _ _ _ _ k'] dev_inv_def)
    have other: "fst ow' \<noteq> fst ow \<and> snd ow' \<noteq> snd ow" if "j < N" "j \<noteq> i" "R j = Some ow'" for j ow'
      using I(5)[OF i that(1)] that known by (auto simp: apart_def)
    have quiet: "quiet (hw j) (h j) (R j) (cur j) k k'" if j: "j < N" "j \<noteq> i" for j
    proof -
      have "get_device_data_always (hw_key (hw j)) k' = get_device_data_always (hw_key (hw j)) k" using k'(3) H(4)[OF j(1) i j(2)] by simp
      then show ?thesis using I(1) other[OF j] k'(4-8)
        by (auto simp: quiet_def stays_def same_dirs_refl hw_key_def split: option.split)
    qed
    have "fleet_inv m hw N (Suc c) (h(i := h i)) (fs(i := fs i), k', x) (R(i := None)) (cur(i := None))"
    proof (rule fleet_update[OF inv i _ quiet slot])
      show "graves_ok N (R(i := None)) k'" using grave
      proof
        assume "system_wq k' = system_wq k"
        then show ?thesis by (intro graves_ok_ids[OF I(3)]) (use k'(5,8) in \<open>auto split: if_splits\<close>)
      next
        assume g: "system_wq k' = system_wq k @ [(next_id k, \<lparr>device_wq = Some (snd ow), last_epoch = None\<rparr>)] \<and> next_id k < next_id k'"
        show ?thesis
          by (rule graves_ok_bury[OF I(3) conjunct1[OF g] conjunct2[OF g] k'(5) data(3) ow(1) i known(2)]) (use other in blast)
      qed
      show "hw_subs (hw i) (h i) \<inter> hw_subs (hw j) (h j) = {}" if "j < N" "j \<noteq> i" for j
        using I(5)[OF i that(1)] that by (simp add: apart_def)
    qed (use I(1) k'(7,9) in auto)
    moreover have "cur(i := None) = cur" using none by (simp add: fun_eq_iff)
    ultimately show ?thesis using k'(1) known(1) rv by (auto simp: call_k_def deactivate_snapshot_def)
  qed
qed

lemma fleet_destroy:
  assumes inv: "fleet_inv m hw N c h (fs, k, x) R cur"
  shows "\<exists>s'. run_op m hw (ODestroy wid) (fs, k, x) = Inr s' \<and> fleet_inv m hw N (Suc c) h s' R cur"
proof (cases "map_of (system_wq k) wid")
  case None
  then show ?thesis using fleet_mono[OF inv, of "Suc c"] by (auto simp: with_k_def run_system_work_def)
next
  case (Some a)
  note I = fleet_invD[OF inv]
  note g = I(3)[unfolded graves_ok_def]
  have a: "(wid, a) \<in> set (system_wq k)" by (rule map_of_SomeD[OF Some])
  with g obtain w where w: "last_epoch a = None" "device_wq a = Some w" "wqs k w = Some []"
    "\<forall>i < N. \<forall>ow. R i = Some ow \<longrightarrow> snd ow \<noteq> w" unfolding buried_def by (metis snd_conv)
  let ?k = "k\<lparr>system_wq := filter (\<lambda>n. fst n \<noteq> wid) (system_wq k), wqs := (wqs k)(w := None)\<rparr>"
  have look: "get_device_data_always minfo ?k = get_device_data_always minfo k" for minfo
    by (simp add: get_device_data_always_def cong: mountinfo.case_cong)
  have "fleet_inv m hw N (Suc c) h (fs, ?k, x) R cur"
  proof (rule fleet_quiet[OF inv])
    show "quiet (hw j) (h j) (R j) (cur j) k ?k" if "j < N" for j
      using I(1) w(4) that by (auto simp: quiet_def stays_def same_dirs_refl look split: option.split)
    have inj: "inj_on (\<lambda>n. device_wq (snd n)) (set (system_wq k))" using g by (simp add: distinct_map)
    have "buried N R ?k n" if n: "n \<in> set (system_wq k)" "fst n \<noteq> wid" for n
    proof (rule buried_mono)
      show "buried N R k n" using g n(1) by blast
      fix v assume v: "device_wq (snd n) = Some v" "wqs k v = Some []" "\<forall>i < N. \<forall>ow. R i = Some ow \<longrightarrow> snd ow \<noteq> v"
      have "n \<noteq> (wid, a)" using n(2) by auto
      with inj_onD[OF inj _ n(1) a] w(2) v(1) have "v \<noteq> w" by auto
      with v show "wqs ?k v = Some [] \<and> (\<forall>i < N. \<forall>ow. R i = Some ow \<longrightarrow> snd ow \<noteq> v)" by simp
    qed simp
    then show "graves_ok N R ?k" using g unfolding graves_ok_def by (simp add: distinct_map_filter)
  qed (use I(1,2) in \<open>simp_all add: registry_ok_def tables_ok_def\<close>)
  then show ?thesis using run_system_work_idle[OF Some w(2,1,3)] by (simp add: with_k_def)
qed

text \<open>Mounts, writes, unmounts and works.\<close>

lemma fleet_mount:
  assumes inv: "fleet_inv m hw N c h (fs, k, x) R cur" and ok: "op_ok hw N h (fs, k, x) (OMount i t call)"
  shows "\<exists>s' cur'. run_op m hw (OMount i t call) (fs, k, x) = Inr s' \<and>
    fleet_inv m hw N (Suc c) (note_op hw (OMount i t call) (fs, k, x) h) s' R cur'"
proof -
  note I = fleet_invD[OF inv]
  let ?sub = "hw_subdir (hw i) t" and ?img = "hw_image hw i (fs, k, x)"
  from ok have o: "i < N" "mounts_bdev (hw_bdev (hw i)) call" "is_idle hw i k" "dir_free (kvfs k) ?sub" by simp_all
  have new: "?sub \<notin> hw_subs (hw j) (h j)" if "j < N" for j using ok that unfolding hw_subs_def by auto
  from idle_slot[OF I(4)[OF o(1)] o(3)] obtain ow where ow: "R i = Some ow" "cur i = None" .
  have dev: "dev_inv m (mk_dev (hw i) ow) c (h i) (fs i) k None" "fst ow < next_id k" "snd ow < next_id k"
    using I(4)[OF o(1)] by (simp_all add: slot_inv_def ow)
  from own_mount[OF dev(1), of call t] o I(1) new[OF o(1)] obtain k' f where
    k': "krps_mount True True t call k = Inr k'" "mount_fs (hw_size (hw i)) ?img = Inr (0, f)"
    "device_change (fst ow) (snd ow) (next_id k) ?sub k k'" "next_id k < next_id k'"
    "dev_inv m (mk_dev (hw i) ow) c ((t, ?img) # h i) f k' (Some (next_id k))"
    by (auto simp: hw_image_def)
  have cur: "cur j \<noteq> Some (next_id k)" if "j < N" for j using I(4)[OF that] by (auto simp: slot_inv_def)
  have "fleet_inv m hw N (Suc c) (h(i := (t, ?img) # h i)) (fs(i := f), k', x) (R(i := Some ow)) (cur(i := Some (next_id k)))"
  proof (rule fleet_update[OF inv o(1)])
    show "quiet (hw j) (h j) (R j) (cur j) k k'" if "j < N" "j \<noteq> i" for j
      using I(5)[OF o(1) that(1)] that ow(1) cur new by (intro quiet_change[OF k'(3) I(1)]) (auto simp: apart_def)
    show "slot_inv m (hw i) (Suc c) ((t, ?img) # h i) f k' (Some ow) (Some (next_id k))"
      using dev_inv_mono[OF k'(5), of "Suc c"] k'(4) dev(2,3) by (simp add: slot_inv_def)
    show "tree_ok (kvfs k')" using vfs_steps_same_epoch_dir[OF _ I(1)] k'(3) unfolding device_change_def by blast
    show "registry_ok k'" by (rule registry_ok_change[OF k'(3) I(2)])
    show "graves_ok N (R(i := Some ow)) k'"
      unfolding fun_upd_idem[of R i "Some ow", OF ow(1)] by (rule graves_ok_change[OF I(3) k'(3) _ o(1)]) (simp add: ow)
    show "hw_subs (hw i) ((t, ?img) # h i) \<inter> hw_subs (hw j) (h j) = {}" if "j < N" "j \<noteq> i" for j
      using I(5)[OF o(1) that(1)] new[OF that(1)] that by (auto simp: apart_def hw_subs_def)
  qed (use ow in auto)
  then show ?thesis using k'(1,2) unfolding fun_upd_idem[of R i "Some ow", OF ow(1)] by (auto simp: with_k_def)
qed

lemma fleet_write:
  assumes hw: "hardware_ok m hw N" and inv: "fleet_inv m hw N c h (fs, k, x) R cur" and ok: "op_ok hw N h (fs, k, x) (OWrite i req)"
  shows "\<exists>s' cur'. run_op m hw (OWrite i req) (fs, k, x) = Inr s' \<and> fleet_inv m hw N (Suc c) h s' R cur'"
proof -
  note I = fleet_invD[OF inv] and H = hardware_okD[OF hw]
  from ok have o: "i < N" "is_mounted hw i k" "req_ok (hw_size (hw i)) req" by simp_all
  from mounted_slot[OF I(4)[OF o(1)] o(2)] obtain ow where ow: "R i = Some ow" "mounted_dev (mk_dev (hw i) ow) k" .
  have dev: "dev_inv m (mk_dev (hw i) ow) c (h i) (fs i) k (cur i)" using I(4)[OF o(1)] by (simp add: slot_inv_def ow)
  from own_write[OF dev ow(2) _ H(1) _ I(1), of req x] o(3) H(3)[OF o(1)] obtain k' x' e f where
    w: "tracked_write (m_keyhash m) (m_bd_env m) (hw_bdev (hw i)) (hw_filp (hw i)) req (fs i, k, x) = Inr (f, k', x')"
    "cur i = Some e" "own_change (mk_dev (hw i) ow) e (fst (hd (h i))) k k'" "h i \<noteq> []"
    "dev_inv m (mk_dev (hw i) ow) (Suc c) (h i) f k' (cur i)" by auto
  from fleet_own[OF inv o(1) _ ow(1) w(2,4,3,5), of x'] w(1) show ?thesis by auto
qed

lemma fleet_umount:
  assumes inv: "fleet_inv m hw N c h (fs, k, x) R cur" and ok: "op_ok hw N h (fs, k, x) (OUmount i regs)"
  shows "\<exists>s' cur'. run_op m hw (OUmount i regs) (fs, k, x) = Inr s' \<and> fleet_inv m hw N (Suc c) h s' R cur'"
proof -
  note I = fleet_invD[OF inv]
  from ok have o: "i < N" "is_mounted hw i k" "umounts_bdev (hw_bdev (hw i)) regs" by simp_all
  from mounted_slot[OF I(4)[OF o(1)] o(2)] obtain ow where ow: "R i = Some ow" "mounted_dev (mk_dev (hw i) ow) k" .
  have dev: "dev_inv m (mk_dev (hw i) ow) c (h i) (fs i) k (cur i)" using I(4)[OF o(1)] by (simp add: slot_inv_def ow)
  from own_umount[OF dev ow(2) _ I(1), of regs] o(3) obtain k' e where
    w: "krp_umount True True regs k = Inr k'" "cur i = Some e" "own_change (mk_dev (hw i) ow) e (fst (hd (h i))) k k'"
    "h i \<noteq> []" "dev_inv m (mk_dev (hw i) ow) c (h i) (fs i) k' (cur i)" by auto
  from fleet_own[OF inv o(1) _ ow(1) w(2,4,3) dev_inv_mono[OF w(5)], of "Suc c" x] w(1) show ?thesis
    by (auto simp: with_k_def)
qed

lemma fleet_work:
  assumes hw: "hardware_ok m hw N" and inv: "fleet_inv m hw N c h (fs, k, x) R cur" and i: "i < N" and c: "c < 2 ^ 40"
  shows "\<exists>s' cur'. run_op m hw (OWork i) (fs, k, x) = Inr s' \<and> fleet_inv m hw N (Suc c) h s' R cur'"
proof (cases "R i")
  case None
  then show ?thesis using slot_queue[OF fleet_invD(4)[OF inv i]] fleet_mono[OF inv, of "Suc c"] by auto
next
  case (Some ow)
  note I = fleet_invD[OF inv] and H = hardware_okD[OF hw]
  have dev: "dev_inv m (mk_dev (hw i) ow) c (h i) (fs i) k (cur i)" using I(4)[OF i] by (simp add: slot_inv_def Some)
  have q: "queue_of (hw_bdev (hw i)) k = Some (snd ow)" using slot_queue[OF I(4)[OF i]] Some by simp
  from own_work[OF dev H(1) I(1) c] obtain k' cur' where
    w: "run_wq_head (m_bkt m) (m_ms_env m) (snd ow) k = Inr k'" "dev_inv m (mk_dev (hw i) ow) c (h i) (fs i) k' cur'"
    and d: "k' = k \<and> cur' = cur i \<or> (\<exists>e. cur i = Some e \<and> h i \<noteq> [] \<and>
      own_change (mk_dev (hw i) ow) e (fst (hd (h i))) k k' \<and> (cur' = cur i \<or> cur' = None))" by auto
  have r: "run_op m hw (OWork i) (fs, k, x) = Inr (fs, k', x)" using w(1) q by (simp add: with_k_def)
  from d show ?thesis
  proof (elim disjE exE conjE)
    assume "k' = k" "cur' = cur i"
    with r fleet_mono[OF inv, of "Suc c"] show ?thesis by auto
  next
    fix e assume "cur i = Some e" "h i \<noteq> []" "own_change (mk_dev (hw i) ow) e (fst (hd (h i))) k k'" and n: "cur' = cur i"
    from fleet_own[OF inv i _ Some this(1-3) dev_inv_mono[OF w(2)], of "Suc c" x] n r show ?thesis by auto
  next
    fix e assume "cur i = Some e" "h i \<noteq> []" "own_change (mk_dev (hw i) ow) e (fst (hd (h i))) k k'" and n: "cur' = None"
    from fleet_own[OF inv i _ Some this(1-3) dev_inv_mono[OF w(2)], of "Suc c" x] n r show ?thesis by auto
  qed
qed

text \<open>Restoring, and exchanging the contents, of a device at rest.\<close>

lemma fleet_replace:
  assumes inv: "fleet_inv m hw N c h (fs, k, x) R cur" and i: "i < N" and rest: "at_rest hw i k" and dev: "mountable (hw_size (hw i)) dev"
    and hs: "chain (hw_size (hw i)) (hw_files (hw i) k) (drop j (h i)) dev"
  shows "fleet_inv m hw N (Suc c) (h(i := drop j (h i))) (fs(i := load_onefs (hw_size (hw i)) dev), k, x) R cur"
proof -
  note I = fleet_invD[OF inv]
  have none: "cur i = None" by (rule rest_slot[OF I(4)[OF i] rest])
  note L = mount_mountable[OF dev]
  have "slot_inv m (hw i) (Suc c) (drop j (h i)) (load_onefs (hw_size (hw i)) dev) k (R i) None"
    using I(4)[OF i] none L hs by (auto simp: slot_inv_def dev_inv_def subs_distinct_drop split: option.splits)
  then have "fleet_inv m hw N (Suc c) (h(i := drop j (h i))) (fs(i := load_onefs (hw_size (hw i)) dev), k, x) (R(i := R i)) (cur(i := None))"
  proof (rule fleet_update[OF inv i, rotated 2])
    show "hw_subs (hw i) (drop j (h i)) \<inter> hw_subs (hw l) (h l) = {}" if "l < N" "l \<noteq> i" for l
      using I(5)[OF i that(1)] that subs_of_drop[of "hw_data (hw i) 0" j "h i"] by (auto simp: apart_def)
  qed (use I(1-3) quiet_refl in auto)
  moreover have "cur(i := None) = cur" using none by (simp add: fun_eq_iff)
  ultimately show ?thesis by simp
qed

lemma fleet_restore:
  assumes inv: "fleet_inv m hw N c h (fs, k, x) R cur" and ok: "op_ok hw N h (fs, k, x) (ORestore i ts renv opts inp)"
  shows "\<exists>s'. run_op m hw (ORestore i ts renv opts inp) (fs, k, x) = Inr s' \<and>
    fleet_inv m hw N (Suc c) (note_op hw (ORestore i ts renv opts inp) (fs, k, x) h) s' R cur"
proof -
  note I = fleet_invD[OF inv]
  from ok have o: "i < N" "at_rest hw i k" "ts = take (length ts) (map fst (h i))" "rs_env_ok renv" "\<not> ask opts" "restore_all opts"
    by simp_all
  have none: "cur i = None" by (rule rest_slot[OF I(4)[OF o(1)] o(2)])
  have ch: "chain (hw_size (hw i)) (hw_files (hw i) k) (h i) (hw_image hw i (fs, k, x))" "disk_ok (hw_size (hw i)) (fs i)"
    using slot_chain[of m "hw i" c "h i" "fs i" k "R i"] I(4)[OF o(1)] none by (simp_all add: hw_image_def)
  have snaps: "snapshots_of hw i (fs, k, x) ts = map (\<lambda>e. hw_files (hw i) k (fst e)) (take (length ts) (h i))"
  proof -
    have "snapshots_of hw i (fs, k, x) ts = map (hw_files (hw i) k) (take (length ts) (map fst (h i)))"
      by (subst o(3)[symmetric]) (simp add: snapshots_of_def hw_files_def)
    then show ?thesis by (simp add: take_map)
  qed
  obtain dev where dev: "restore_chain renv opts inp (snapshots_of hw i (fs, k, x) ts) (hw_image hw i (fs, k, x)) = Some dev"
    "mountable (hw_size (hw i)) dev" "chain (hw_size (hw i)) (hw_files (hw i) k) (drop (length ts) (h i)) dev"
  proof (cases ts)
    case Nil
    then show thesis using that[of "hw_image hw i (fs, k, x)"] ch disk_ok_mountable[OF ch(2)]
      by (simp add: snapshots_of_def hw_image_def)
  next
    case (Cons t ts')
    have "length ts' < length (h i)" using arg_cong[OF o(3), of length] Cons by simp
    from chain_restores[OF o(4-6) ch(1) this, of inp] show thesis using that unfolding snaps by (simp add: Cons)
  qed
  from fleet_replace[OF inv o(1,2) dev(2,3)] dev(1) show ?thesis by simp
qed

lemma fleet_op:
  assumes hw: "hardware_ok m hw N" and inv: "fleet_inv m hw N c h s R cur" and ok: "op_ok hw N h s op" and c: "c < 2 ^ 40"
  shows "\<exists>s' R' cur'. run_op m hw op s = Inr s' \<and> fleet_inv m hw N (Suc c) (note_op hw op s h) s' R' cur'"
proof -
  obtain fs k x where s: "s = (fs, k, x)" by (cases s)
  note inv = inv[unfolded s] and ok = ok[unfolded s]
  show ?thesis
  proof (cases op)
    case (OActivate i cl passwd)
    show ?thesis using fleet_activate[OF hw inv] ok unfolding s OActivate by fastforce
  next
    case (ODeactivate i cl passwd)
    show ?thesis using fleet_deactivate[OF hw inv] ok unfolding s ODeactivate by fastforce
  next
    case (OMount i t call)
    show ?thesis using fleet_mount[OF inv ok[unfolded OMount]] unfolding s OMount by blast
  next
    case (OWrite i req)
    show ?thesis using fleet_write[OF hw inv ok[unfolded OWrite]] unfolding s OWrite note_op.simps by blast
  next
    case (OWork i)
    show ?thesis using fleet_work[OF hw inv _ c] ok unfolding s OWork by fastforce
  next
    case (OUmount i regs)
    show ?thesis using fleet_umount[OF inv ok[unfolded OUmount]] unfolding s OUmount note_op.simps by blast
  next
    case (ODestroy wid)
    show ?thesis using fleet_destroy[OF inv] unfolding s ODestroy by fastforce
  next
    case (ORestore i ts renv opts inp)
    show ?thesis using fleet_restore[OF inv ok[unfolded ORestore]] unfolding s ORestore by blast
  next
    case (OReplace i dev)
    have "i < N" "at_rest hw i k" "mountable (hw_size (hw i)) dev" using ok by (simp_all add: OReplace)
    from fleet_replace[OF inv this, of "length (h i)"] show ?thesis unfolding s OReplace by auto
  qed
qed

lemma fleet_start: "fleet_ok m hw N s \<Longrightarrow> fleet_inv m hw N 0 (\<lambda>_. []) s (\<lambda>_. None) (\<lambda>_. None)"
  by (auto simp: fleet_ok_def fleet_inv_def Let_def graves_ok_def slot_inv_def registered_iff subs_distinct_def apart_def hw_subs_def)

lemma fleet_hardware: "machine_ok m \<Longrightarrow> fleet_ok m hw N s \<Longrightarrow> hardware_ok m hw N"
  by (simp add: fleet_ok_def hardware_ok_def Let_def)

lemma served_inv:
  assumes "served m hw N s0 c h s" and "machine_ok m" "fleet_ok m hw N s0"
  shows "c \<le> 2 ^ 40 \<Longrightarrow> \<exists>R cur. fleet_inv m hw N c h s R cur"
  using assms(1)
proof induction
  case start
  show ?case using fleet_start[OF assms(3)] by blast
next
  case (op c h s op s')
  then obtain R cur where "fleet_inv m hw N c h s R cur" by auto
  from fleet_op[OF fleet_hardware[OF assms(2,3)] this op.hyps(2)] op.prems op.hyps(3) show ?case by auto
qed

section \<open>Every device can be taken back to each of its mounts\<close>

text \<open>C1: several devices share the module, all unknown to it at first. They are activated, mounted, written,
  unmounted, restored, exchanged and deactivated in any order, also at the same time, the threads' writes and
  the workers of all the queues interleaved in any way, and calls with a wrong password or for a device that is
  already active in between. Then no operation that can come next faults, and every device that is not mounted
  and whose worker has finished can be restored: running the tool on the \<open>snapblocks\<close> files of its last \<open>j + 1\<close>
  mounts, the newest first, gives the image it had at the earliest of them, whatever the other devices did in
  between, and this image can be mounted.\<close>

theorem concurrent_devices_recover:
  assumes "machine_ok m" and "fleet_ok m hw N s0" and "served m hw N s0 c h s" and "c < 2 ^ 40"
    and "rs_env_ok renv" "\<not> ask opts" "restore_all opts"
  shows "(\<forall>op. op_ok hw N h s op \<longrightarrow> (\<exists>s'. run_op m hw op s = Inr s')) \<and>
    (\<forall>i < N. at_rest hw i (fst (snd s)) \<longrightarrow> (\<forall>j < length (h i).
       restore_chain renv opts inp (snapshots_of hw i s (map fst (take (Suc j) (h i)))) (hw_image hw i s) = Some (snd (h i ! j)) \<and>
       (\<exists>fs. mount_fs (hw_size (hw i)) (snd (h i ! j)) = Inr (0, fs))))"
proof -
  have "c \<le> 2 ^ 40" using assms(4) by simp
  from served_inv[OF assms(3,1,2) this] obtain R cur where inv: "fleet_inv m hw N c h s R cur" by blast
  obtain fs k x where s: "s = (fs, k, x)" by (cases s)
  have back_to: "restore_chain renv opts inp (snapshots_of hw i s (map fst (take (Suc j) (h i)))) (hw_image hw i s) = Some (snd (h i ! j)) \<and>
      (\<exists>fs. mount_fs (hw_size (hw i)) (snd (h i ! j)) = Inr (0, fs))"
    if i: "i < N" "at_rest hw i (fst (snd s))" "j < length (h i)" for i j
  proof -
    note slot = fleet_invD(4)[OF inv[unfolded s] i(1)]
    have "cur i = None" by (rule rest_slot[where hw = hw and i = i, OF slot]) (use i(2) s in simp)
    with slot have "chain (hw_size (hw i)) (hw_files (hw i) k) (h i) (hw_image hw i s)"
      using slot_chain[of m "hw i" c "h i" "fs i" k "R i"] by (simp add: hw_image_def s)
    from chain_restores[OF assms(5-7) this i(3), of inp] show ?thesis
      using mount_mountable(1) by (auto simp: snapshots_of_def hw_files_def s comp_def)
  qed
  show ?thesis using fleet_op[OF fleet_hardware[OF assms(1,2)] inv _ assms(4)] back_to by blast
qed

section \<open>Unmounted devices come to rest\<close>

fun run_ops :: "machine \<Rightarrow> (nat \<Rightarrow> hardware) \<Rightarrow> fleet_op list \<Rightarrow> world \<Rightarrow> fault + world" where
  "run_ops m hw [] s = Inr s"
| "run_ops m hw (op # ops) s = (case run_op m hw op s of Inl f \<Rightarrow> Inl f | Inr s' \<Rightarrow> run_ops m hw ops s')"

text \<open>The number of works the queue of a device holds.\<close>

definition queue_length :: "(nat \<Rightarrow> hardware) \<Rightarrow> nat \<Rightarrow> kstate \<Rightarrow> nat" where
  "queue_length hw i k =
     (case queue_of (hw_bdev (hw i)) k of None \<Rightarrow> 0 | Some w \<Rightarrow> (case wqs k w of None \<Rightarrow> 0 | Some q \<Rightarrow> length q))"

lemma run_wq_head_queue:
  assumes "wqs k w = Some (x # q)" "run_wq_head bkt menv w k = Inr k'"
  shows "wqs k' w = Some q" "objs k' = objs k" "get_device_data_always minfo k' = get_device_data_always minfo k"
proof -
  have "wqs k' w = Some q \<and> objs k' = objs k \<and> blkdevs_ht k' = blkdevs_ht k \<and> loops_ht k' = loops_ht k"
    using assms by (auto simp: run_wq_head_def run_work_unfold split: work.splits option.splits sum.splits)
  then show "wqs k' w = Some q" "objs k' = objs k" "get_device_data_always minfo k' = get_device_data_always minfo k"
    by (simp_all add: get_device_data_always_def cong: mountinfo.case_cong)
qed

lemma unmounted_settles:
  assumes hw: "hardware_ok m hw N" and i: "i < N"
  shows "fleet_inv m hw N c h s R cur \<Longrightarrow> \<not> is_mounted hw i (fst (snd s)) \<Longrightarrow> queue_length hw i (fst (snd s)) = n \<Longrightarrow> c + n < 2 ^ 40 \<Longrightarrow>
    \<exists>s'. run_ops m hw (replicate n (OWork i)) s = Inr s' \<and> fst s' = fst s \<and> at_rest hw i (fst (snd s'))"
proof (induction n arbitrary: c s cur)
  case 0
  obtain fs k x where s: "s = (fs, k, x)" by (cases s)
  note slot = fleet_invD(4)[OF 0(1)[unfolded s] i]
  show ?case using slot_lookup[OF slot] slot_queue[OF slot] 0(2,3)
    by (auto simp: s at_rest_def is_idle_def is_mounted_def device_data_def queue_length_def split: option.splits if_splits)
next
  case (Suc n)
  obtain fs k x where s: "s = (fs, k, x)" by (cases s)
  note slot = fleet_invD(4)[OF Suc.prems(1)[unfolded s] i]
  have "c < 2 ^ 40" using Suc.prems(4) by simp
  from fleet_work[OF hw Suc.prems(1)[unfolded s] i this] obtain s' cur' where
    r: "run_op m hw (OWork i) s = Inr s'" "fleet_inv m hw N (Suc c) h s' R cur'" unfolding s by blast
  obtain w y q where w: "queue_of (hw_bdev (hw i)) k = Some w" "wqs k w = Some (y # q)" "length q = n"
    using Suc.prems(3) by (auto simp: s queue_length_def length_Suc_conv split: option.splits)
  from r(1) w(1) obtain k' where k': "run_wq_head (m_bkt m) (m_ms_env m) w k = Inr k'" "s' = (fs, k', x)"
    by (auto simp: s with_k_def split: sum.splits)
  note u = run_wq_head_queue[OF w(2) k'(1)]
  have "\<not> is_mounted hw i (fst (snd s'))" using Suc.prems(2) unfolding s k'(2) is_mounted_def device_data_def fst_conv snd_conv u(2,3) .
  moreover have "queue_length hw i (fst (snd s')) = n"
    using w(1,3) unfolding k'(2) queue_length_def queue_of_def fst_conv snd_conv u(2,3) by (simp add: u(1))
  ultimately show ?case using Suc.IH[OF r(2)] Suc.prems(4) r(1) by (auto simp: k'(2) s)
qed

text \<open>C3: no device stays out of reach of the restore tool. In every state that the operations of \<open>served\<close> lead to, a
  device that is not mounted is at rest after its worker has taken exactly the items its queue holds; none of
  them faults, whatever the other devices are doing, and the contents of no device change.\<close>

theorem unmounted_devices_settle:
  assumes "machine_ok m" and "fleet_ok m hw N s0" and "served m hw N s0 c h s"
    and "i < N" and "\<not> is_mounted hw i (fst (snd s))" and "c + queue_length hw i (fst (snd s)) < 2 ^ 40"
  shows "\<exists>s'. run_ops m hw (replicate (queue_length hw i (fst (snd s))) (OWork i)) s = Inr s' \<and> fst s' = fst s \<and>
    at_rest hw i (fst (snd s'))"
proof -
  have "c \<le> 2 ^ 40" using assms(6) by simp
  from served_inv[OF assms(3,1,2) this] obtain R cur where "fleet_inv m hw N c h s R cur" by blast
  from unmounted_settles[OF fleet_hardware[OF assms(1,2)] assms(4) this assms(5) refl assms(6)] show ?thesis .
qed

section \<open>Two devices\<close>

definition two_dev_env :: dev_env where
  "two_dev_env = sample_dev_env\<lparr>kern_path := (\<lambda>path. Inr (if path = ''/dev/sda2'' then 1 else 0)),
     igrab := (\<lambda>i. Some \<lparr>v_type = S_IFBLK, v_rdev = 0x800001 + of_nat i\<rparr>)\<rparr>"

definition two_machine :: machine where
  "two_machine = sample_machine\<lparr>m_dev_env := two_dev_env\<rparr>"

definition two_hw :: "nat \<Rightarrow> hardware" where
  "two_hw i =
     (let bdev = \<lparr>bd_dev = (if i = 0 then 0x800001 else 0x800002), bd_lo_file_name = []\<rparr> in
      \<lparr>hw_bdev = bdev,
       hw_filp = \<lparr>f_mapping = Some \<lparr>host = Some \<lparr>i_sb = Some \<lparr>s_bdev = Some bdev, s_magic = SINGLEFILEFS_MAGIC\<rparr>\<rparr>\<rparr>\<rparr>,
       hw_path = (if i = 0 then ''/dev/sda1'' else ''/dev/sda2''), hw_size = 10\<rparr>)"

definition two_root :: "nat \<Rightarrow> pt_regs" where
  "two_root i = \<lparr>regs_di = Some \<lparr>kp_mnt = Some \<lparr>mnt_sb = Some \<lparr>s_bdev = Some (hw_bdev (two_hw i)), s_magic = 0\<rparr>\<rparr>, kp_d_path = Inr ''/''\<rparr>,
     regs_si = None, regs_r10 = 0, regs_ax = 0\<rparr>"

text \<open>Both are activated and mounted, the first is unmounted and its worker ends the epoch, while the second stays
  mounted.\<close>

definition two_state :: "nat \<Rightarrow> kstate" where
  "two_state c =
     (let ep = new_epoch\<lparr>n_currently_mounted := 1, first_mount_date := mount_date sample_tm\<rparr>;
          k0 = started empty_vfs;
          k1 = k0\<lparr>blkdevs_ht := [(0x800001, 1)], objs := (objs k0)(1 \<mapsto> hw_data (two_hw 0) 0), wqs := (wqs k0)(0 \<mapsto> []), next_id := 2\<rparr>;
          k2 = k1\<lparr>blkdevs_ht := [(0x800002, 3), (0x800001, 1)], objs := (objs k1)(3 \<mapsto> hw_data (two_hw 1) 2), wqs := (wqs k1)(2 \<mapsto> []), next_id := 4\<rparr>;
          k3 = k2\<lparr>epochs := (epochs k2)(4 \<mapsto> ep), next_id := 5, objs := (objs k2)(1 \<mapsto> hw_data (two_hw 0) 0\<lparr>od_e := Some 4\<rparr>)\<rparr>;
          k4 = k3\<lparr>epochs := (epochs k3)(5 \<mapsto> ep), next_id := 6, objs := (objs k3)(3 \<mapsto> hw_data (two_hw 1) 2\<lparr>od_e := Some 5\<rparr>)\<rparr>;
          k5 = k4\<lparr>epochs := (epochs k4)(4 \<mapsto> ep\<lparr>n_currently_mounted := 0\<rparr>), objs := (objs k4)(1 \<mapsto> hw_data (two_hw 0) 0),
            wqs := (wqs k4)(0 \<mapsto> [CleanupEpochWork 4])\<rparr>;
          k6 = k5\<lparr>wqs := (wqs k5)(0 \<mapsto> []), epochs := (epochs k5)(4 := None)\<rparr>
      in [k0, k1, k2, k3, k4, k5, k6] ! c)"

lemmas two_defs = two_state_def two_hw_def start_defs get_device_data_always_def hw_data_def hw_key_def
  from_block_device_to_mountinfo_def devno_defs

lemma two_simps [simp]: "hw_size (two_hw i) = 10" "m_bkt two_machine = m_bkt sample_machine" "m_ms_env two_machine = m_ms_env sample_machine"
  "m_dev_env two_machine = two_dev_env"
  by (simp_all add: two_hw_def two_machine_def Let_def)

lemma two_root: "mounts_bdev (hw_bdev (two_hw i)) (NewMount (two_root i))" "umounts_bdev (hw_bdev (two_hw i)) (two_root i)"
  by (simp_all add: mounts_bdev_def umounts_bdev_def two_root_def get_bdev_from_path_def is_root_def path_starts_with_def
      new_mount_entry_handler_def umount_entry_handler_def)

lemma two_subdir: "hw_subdir (two_hw 1) sample_tm \<noteq> hw_subdir (two_hw 0) sample_tm"
  by code_simp

lemma less_2: "(\<forall>i < (2 :: nat). P i) \<longleftrightarrow> P 0 \<and> P 1"
  by (metis One_nat_def less_2_cases less_numeral_extra(1) numeral_2_eq_2 zero_less_Suc lessI)

lemma sample_onefs_disk: "disk_ok 10 sample_onefs"
proof -
  have "take 8 (drop 24 (replicate 4096 (0 :: u8))) = replicate 8 0" by simp
  then have "inode_file_size (replicate 4096 (0 :: u8)) = 0"
    by (simp add: inode_file_size_def bytes_u64_def numeral_eq_Suc del: take_replicate drop_replicate)
  then show ?thesis using sample_onefs_ok
    by (simp add: disk_ok_def sample_onefs_def mkfs_sb_fields layout_defs)
qed

lemma two_activate0:
  "activate_snapshot (root_caller ''pw'') (m_bkt sample_machine) (m_ms_env sample_machine) two_dev_env ''/dev/sda1'' ''pw'' (two_state 0) =
    Inr (0, two_state 1)"
  by (simp add: activate_snapshot_def sample_auth register_device_def do_device_reging_operation_def get_inode_from_cstr_path_def
      two_dev_env_def sample_dev_env_def insert_block_eq new_device_def two_defs Let_def)

lemma two_activate1:
  "activate_snapshot (root_caller ''pw'') (m_bkt sample_machine) (m_ms_env sample_machine) two_dev_env ''/dev/sda2'' ''pw'' (two_state 1) =
    Inr (0, two_state 2)"
  by (simp add: activate_snapshot_def sample_auth register_device_def do_device_reging_operation_def get_inode_from_cstr_path_def
      two_dev_env_def sample_dev_env_def insert_block_eq new_device_def two_defs Let_def)

lemma two_mount0: "krps_mount True True sample_tm (NewMount (two_root 0)) (two_state 2) = Inr (two_state 3)"
proof -
  obtain regs where r: "regs_ax regs = 0" "krps_mount True True sample_tm (NewMount (two_root 0)) (two_state 2) =
      mount_handler True sample_tm (from_block_device_to_mountinfo (hw_bdev (two_hw 0))) regs (two_state 2)"
    using krps_mount_bdev[OF two_root(1)] by blast
  show ?thesis unfolding r(2) by (simp add: mount_defs r(1) Let_def new_epoch_def two_defs fun_upd_twist)
qed

lemma two_mount1: "krps_mount True True sample_tm (NewMount (two_root 1)) (two_state 3) = Inr (two_state 4)"
proof -
  obtain regs where r: "regs_ax regs = 0" "krps_mount True True sample_tm (NewMount (two_root 1)) (two_state 3) =
      mount_handler True sample_tm (from_block_device_to_mountinfo (hw_bdev (two_hw 1))) regs (two_state 3)"
    using krps_mount_bdev[OF two_root(1)] by blast
  show ?thesis unfolding r(2) by (simp add: mount_defs r(1) Let_def new_epoch_def two_defs fun_upd_twist)
qed

lemma two_umount0: "krp_umount True True (two_root 0) (two_state 4) = Inr (two_state 5)"
proof -
  have u: "krp_umount True True (two_root 0) (two_state 4) =
      umount_handler True (from_block_device_to_mountinfo (hw_bdev (two_hw 0))) (two_root 0) (two_state 4)"
    using krp_umount_bdev[OF two_root(2)] by blast
  show ?thesis unfolding u by (simp add: umount_defs Let_def new_epoch_def two_defs two_root_def fun_upd_twist)
qed

lemma two_work0: "run_wq_head bkt menv 0 (two_state 5) = Inr (two_state 6)"
  by (simp add: run_wq_head_def run_work_unfold destroy_an_epoch_def new_epoch_def two_defs Let_def)

lemma two_queue0: "queue_of (hw_bdev (two_hw 0)) (two_state 5) = Some 0"
  by (simp add: queue_of_def) (simp add: two_defs Let_def)

lemma two_machine_ok: "machine_ok two_machine"
  using sample_machine_ok by (simp add: machine_ok_def two_machine_def two_dev_env_def reg_env_ok_def sample_machine_def)

definition two_loaded :: onefilefs where
  "two_loaded = load_onefs 10 (image_of 10 sample_onefs)"

definition two_fss :: "onefilefs \<Rightarrow> onefilefs \<Rightarrow> nat \<Rightarrow> onefilefs" where
  "two_fss f g i = (if i = 0 then f else if i = Suc 0 then g else sample_onefs)"

lemma two_fss_simps [simp]:
  "two_fss f g 0 = f" "two_fss f g (Suc 0) = g" "(two_fss f g)(0 := x) = two_fss x g" "(two_fss f g)(Suc 0 := x) = two_fss f x"
  by (auto simp: two_fss_def fun_eq_iff)

abbreviation two_world :: "onefilefs \<Rightarrow> onefilefs \<Rightarrow> nat \<Rightarrow> world" where
  "two_world f g c \<equiv> (two_fss f g, two_state c, no_threads)"

lemma two_image [simp]:
  "hw_image two_hw 0 (two_world f g c) = image_of 10 f" "hw_image two_hw (Suc 0) (two_world f g c) = image_of 10 g"
  by (simp_all add: hw_image_def)

lemma two_fleet_ok: "fleet_ok two_machine two_hw 2 (two_world sample_onefs sample_onefs 0)"
proof -
  have "device_key (two_dev_env, hw_path (two_hw i)) = Some (hw_key (two_hw i))" if "i = 0 \<or> i = 1" for i
    using that by (auto simp: device_key_def reg_env_ok_def two_dev_env_def sample_dev_env_def get_inode_from_cstr_path_def two_hw_def
        hw_key_def from_block_device_to_mountinfo_def devno_defs Let_def)
  moreover have "filp_on (hw_bdev (two_hw i)) (hw_filp (two_hw i))" for i by (simp add: filp_on_def file_sb_def two_hw_def Let_def)
  moreover have "two_state 0 = started empty_vfs" by (simp add: two_state_def Let_def)
  moreover have "hw_key (two_hw i) \<notin> registered (started empty_vfs)" for i by (simp add: registered_def start_defs)
  moreover have "tree_ok (kvfs (started empty_vfs))" "system_wq (started empty_vfs) = []" using empty_vfs_tree by (simp_all add: start_defs)
  moreover have "hw_key (two_hw 0) \<noteq> hw_key (two_hw 1)"
    by (simp add: two_hw_def hw_key_def from_block_device_to_mountinfo_def devno_defs Let_def)
  ultimately show ?thesis
    using started_ok sample_onefs_disk by (simp add: fleet_ok_def less_2 Let_def)
qed

definition two_log :: mounts_log where
  "two_log = (\<lambda>_. [])(0 := [(sample_tm, image_of 10 sample_onefs)], 1 := [(sample_tm, image_of 10 sample_onefs)])"

lemma two_served:
  "served two_machine two_hw 2 (two_world sample_onefs sample_onefs 0) 5 two_log (two_world two_loaded two_loaded 5)"
proof -
  let ?s = sample_onefs and ?l = two_loaded
  let ?h = "(\<lambda>_. [])(0 := [(sample_tm, image_of 10 sample_onefs)]) :: mounts_log"
  note S = served.op[of two_machine two_hw 2 "two_world ?s ?s 0"]
  note L = mount_image[OF sample_onefs_disk, folded two_loaded_def]
  have auth: "\<not> isl (auth_check (root_caller ''pw'') ''pw'')" by (simp add: sample_auth)
  have path: "hw_path (two_hw 0) = ''/dev/sda1''" "hw_path (two_hw 1) = ''/dev/sda2''" by (simp_all add: two_hw_def Let_def)
  have free: "dir_free (kvfs (two_state 2)) sub" "dir_free (kvfs (two_state 3)) sub" for sub
    by (simp_all add: two_defs Let_def empty_vfs_free)
  have s0: "served two_machine two_hw 2 (two_world ?s ?s 0) 0 (\<lambda>_. []) (two_world ?s ?s 0)" by (rule served.start)
  have s1: "served two_machine two_hw 2 (two_world ?s ?s 0) 1 (\<lambda>_. []) (two_world ?s ?s 1)"
    using S[OF s0, of "OActivate 0 (root_caller ''pw'') ''pw''"] auth two_activate0 by (simp add: call_k_def path)
  have s2: "served two_machine two_hw 2 (two_world ?s ?s 0) 2 (\<lambda>_. []) (two_world ?s ?s 2)"
    using S[OF s1, of "OActivate 1 (root_caller ''pw'') ''pw''"] auth two_activate1 path(2)
    by (simp add: call_k_def numeral_2_eq_2)
  have "is_idle two_hw 0 (two_state 2)" by (simp add: is_idle_def device_data_def) (simp add: two_defs Let_def)
  then have "op_ok two_hw 2 (\<lambda>_. []) (two_world ?s ?s 2) (OMount 0 sample_tm (NewMount (two_root 0)))"
    using free two_root by simp
  from S[OF s2 this, of "two_world ?l ?s 3"] have s3: "served two_machine two_hw 2 (two_world ?s ?s 0) 3 ?h (two_world ?l ?s 3)"
    using two_mount0 L(1) by (simp add: with_k_def numeral_3_eq_3 numeral_2_eq_2)
  have "is_idle two_hw 1 (two_state 3)" by (simp add: is_idle_def device_data_def) (simp add: two_defs Let_def)
  then have "op_ok two_hw 2 ?h (two_world ?l ?s 3) (OMount 1 sample_tm (NewMount (two_root 1)))"
    using free two_root two_subdir by (simp add: less_2)
  from S[OF s3 this, of "two_world ?l ?l 4"] have s4: "served two_machine two_hw 2 (two_world ?s ?s 0) 4 two_log (two_world ?l ?l 4)"
    using two_mount1 L(1) by (simp add: with_k_def two_log_def)
  have "is_mounted two_hw 0 (two_state 4)" by (simp add: is_mounted_def device_data_def) (simp add: two_defs Let_def)
  then have "op_ok two_hw 2 two_log (two_world ?l ?l 4) (OUmount 0 (two_root 0))" using two_root by simp
  from S[OF s4 this, of "two_world ?l ?l 5"] show ?thesis using two_umount0 by (simp add: with_k_def)
qed

theorem concurrent_devices_recover_witness:
  "at_rest two_hw 0 (two_state 6) \<and>
   restore_chain good_rs_env (default_opts\<lparr>ask := False\<rparr>) [] (snapshots_of two_hw 0 (two_world two_loaded two_loaded 6) [sample_tm])
     (hw_image two_hw 0 (two_world two_loaded two_loaded 6)) = Some (image_of 10 sample_onefs) \<and>
   (\<exists>s'. run_op two_machine two_hw (OWrite 1 sample_req) (two_world two_loaded two_loaded 6) = Inr s')"
proof -
  let ?s = "two_world two_loaded two_loaded 6"
  have "run_op two_machine two_hw (OWork 0) (two_world two_loaded two_loaded 5) = Inr ?s"
    by (simp add: two_queue0 two_work0 with_k_def)
  from served.op[OF two_served _ this] have served: "served two_machine two_hw 2 (two_world sample_onefs sample_onefs 0) 6 two_log ?s"
    by simp
  have rest: "at_rest two_hw 0 (two_state 6)"
    by (simp add: at_rest_def is_idle_def device_data_def) (simp add: two_defs Let_def)
  have "is_mounted two_hw 1 (two_state 6)" by (simp add: is_mounted_def device_data_def) (simp add: two_defs Let_def)
  then have ok: "op_ok two_hw 2 two_log ?s (OWrite 1 sample_req)" using sample_req_ok by simp
  have r: "rs_env_ok good_rs_env" "\<not> ask (default_opts\<lparr>ask := False\<rparr>)" "restore_all (default_opts\<lparr>ask := False\<rparr>)"
    by (simp_all add: good_rs_env_ok default_opts_def)
  have six: "(6 :: nat) < 2 ^ 40" by simp
  note T = concurrent_devices_recover[OF two_machine_ok two_fleet_ok served six r, of "[]"]
  have log: "two_log 0 = [(sample_tm, image_of 10 sample_onefs)]" by (simp add: two_log_def)
  have "restore_chain good_rs_env (default_opts\<lparr>ask := False\<rparr>) [] (snapshots_of two_hw 0 ?s (map fst (take (Suc 0) (two_log 0))))
      (hw_image two_hw 0 ?s) = Some (snd (two_log 0 ! 0))"
    by (rule T[THEN conjunct2, rule_format, THEN conjunct1]) (use rest in \<open>simp_all add: log\<close>)
  moreover have "\<exists>s'. run_op two_machine two_hw (OWrite 1 sample_req) ?s = Inr s'"
    using T[THEN conjunct1] ok by blast
  ultimately show ?thesis using rest by (simp add: log)
qed

theorem unmounted_devices_settle_witness:
  "\<exists>s'. run_ops two_machine two_hw [OWork 0] (two_world two_loaded two_loaded 5) = Inr s' \<and> at_rest two_hw 0 (fst (snd s'))"
proof -
  let ?s = "two_world two_loaded two_loaded 5"
  have len: "queue_length two_hw 0 (fst (snd ?s)) = 1"
    by (simp add: queue_length_def two_queue0) (simp add: two_defs Let_def)
  have un: "\<not> is_mounted two_hw 0 (fst (snd ?s))"
    by (simp add: is_mounted_def device_data_def) (simp add: two_defs Let_def)
  show ?thesis using unmounted_devices_settle[OF two_machine_ok two_fleet_ok two_served _ un, unfolded len] by auto
qed

end
