(* ===== verification/Usertool.thy ===== *)
theory Usertool
  imports Onefilefs
begin

text \<open>
  The writing tool of the tests, \<open>demo/SINGLEFILE-FS/user/user.c\<close>, on top of the file system: seek, then
  write until everything is written. The loop need not end: \<open>None\<close> is "does not return".
\<close>

text \<open>One exit: success and the file system, or the deadlock of a write. \<open>ret\<close> and \<open>to_write\<close> are \<open>int\<close>; the library
  turns an error of \<open>write\<close> into \<open>-1\<close>, and a negative count would move \<open>p\<close> before the text.\<close>

partial_function (option) user_write_loop ::
  "block_device \<Rightarrow> (u64 \<Rightarrow> bool) \<Rightarrow> bytes \<Rightarrow> s32 \<Rightarrow> u64 \<Rightarrow> onefilefs \<Rightarrow> (fault + bool \<times> onefilefs) option" where
  "user_write_loop bdev bread_ok p to_write off fs =
     (case onefilefs_write bdev bread_ok p (of_nat (length p)) off fs of
        Inl f \<Rightarrow> Some (Inl f)
      | Inr (r, off', fs', evs) \<Rightarrow>
          let ret = (if r < 0 then - 1 else of_int r :: s32) in
          if ret = - 1 then Some (Inr (False, fs'))
          else if sint ret < 0 then Some (Inl OutOfBounds)
          else
            let p' = drop (nat (sint ret)) p; to_write = to_write - ret
            in if sint to_write > 0 then user_write_loop bdev bread_ok p' to_write off' fs' else Some (Inr (True, fs')))"

text \<open>The result of \<open>lseek\<close> is kept in an \<open>int\<close> before it is compared with \<open>-1\<close>.\<close>

definition user_main ::
  "block_device \<Rightarrow> (u64 \<Rightarrow> bool) \<Rightarrow> bool \<Rightarrow> bytes \<Rightarrow> u64 \<Rightarrow> onefilefs \<Rightarrow> (fault + bool \<times> onefilefs) option" where
  "user_main bdev bread_ok open_ok content off fs =
     (if \<not> open_ok then Some (Inr (False, fs))
      else
        let (r, pos) = onefilefs_seek fs off SEEK_SET 0;
            ret = (if r < 0 then - 1 else of_int r :: u32)
        in if ret = - 1 then Some (Inr (False, fs))
           else user_write_loop bdev bread_ok content (of_nat (length content)) pos fs)"

lemma write_at_write_at:
  assumes "off \<le> length v" "r \<le> length p"
  shows "write_at (off + r) (drop r p) (write_at off (take r p) v) = write_at off p v"
proof -
  have "take r p @ drop r p = p" by simp
  then show ?thesis using assms
    by (cases "r = length p") (auto simp: write_at_def min_def add.commute)
qed

lemma sint_of_nat_s32: "m < 2 ^ 31 \<Longrightarrow> sint (of_nat m :: s32) = int m"
  using c_int_id[of "int m"] by (simp add: c_int_def signed_of_nat)

lemma user_write_loop_writes:
  assumes "onefs_ok n fs" "\<forall>b. bread_ok b" "off \<le> i_size fs" "length p < 2 ^ 31"
    and "unat off + length p \<le> unat (sb_info_max_file_size (disk fs SB_BLOCK_NUMBER))"
  shows "\<exists>fs'. user_write_loop bdev bread_ok p (of_nat (length p)) off fs = Some (Inr (True, fs')) \<and>
    file_view fs' = write_at (unat off) p (file_view fs)"
  using assms
proof (induction "length p" arbitrary: p off fs rule: less_induct)
  case less
  let ?max = "unat (sb_info_max_file_size (disk fs SB_BLOCK_NUMBER))"
  define r where "r = write_span fs (unat off) (length p)"
  have small: "length p < 2 ^ 63"
    using less.prems(5) max_file_size_bound[OF less.prems(1)] by (simp add: DEFAULT_BLOCK_SIZE_def)
  then have len: "unat (of_nat (length p) :: u64) = length p" by (intro unat_of_nat64) simp
  obtain fs1 evs where
    w: "onefilefs_write bdev bread_ok p (of_nat (length p)) off fs = Inr (int r, off + of_nat r, fs1, evs)"
    and ok: "onefs_ok n fs1" and off': "unat (off + of_nat r) = unat off + r" "off + of_nat r \<le> i_size fs1"
    and sb: "disk fs1 SB_BLOCK_NUMBER = disk fs SB_BLOCK_NUMBER"
    and view: "file_view fs1 = write_at (unat off) (take r p) (file_view fs)"
    using onefilefs_write_refines[where bread_ok = bread_ok and ubuf = p and len = "of_nat (length p)" and bdev = bdev,
        OF less.prems(1) _ less.prems(2,3)] small len unfolding r_def by auto
  have r: "r \<le> length p" "r \<le> DEFAULT_BLOCK_SIZE" by (simp_all add: r_def write_span_def)
  then have ri: "sint (of_nat r :: s32) = int r" by (intro sint_of_nat_s32) (simp add: DEFAULT_BLOCK_SIZE_def)
  then have rm: "(of_nat r :: s32) \<noteq> - 1" by auto
  have tw: "(of_nat (length p) - of_nat r :: s32) = of_nat (length p - r)" using r(1) by (simp add: of_nat_diff)
  have ti: "sint (of_nat (length p - r) :: s32) = int (length p - r)" using less.prems(4) by (intro sint_of_nat_s32) simp
  have step: "user_write_loop bdev bread_ok p (of_nat (length p)) off fs =
      (if 0 < length p - r then user_write_loop bdev bread_ok (drop r p) (of_nat (length p - r)) (off + of_nat r) fs1
       else Some (Inr (True, fs1)))"
    by (subst user_write_loop.simps)
      (simp only: w sum.case prod.case Let_def of_int_of_nat_eq rm if_False ri nat_int of_nat_less_0_iff not_less_zero tw ti of_nat_0_less_iff)
  show ?case
  proof (cases "r = length p")
    case True
    then show ?thesis using view step by simp
  next
    case False
    then have p: "length (drop r p) < length p" "length p > 0"
      using r less.prems(5) mod_less_divisor[of DEFAULT_BLOCK_SIZE "unat off"]
      by (auto simp: r_def write_span_def DEFAULT_BLOCK_SIZE_def min_def split: if_splits)
    have "unat (off + of_nat r) + length (drop r p) \<le> unat (sb_info_max_file_size (disk fs1 SB_BLOCK_NUMBER))"
      using less.prems(5) r by (simp add: off' sb)
    moreover have "length (drop r p) < 2 ^ 31" using less.prems(4) by simp
    ultimately obtain fs' where
      fs': "user_write_loop bdev bread_ok (drop r p) (of_nat (length p - r)) (off + of_nat r) fs1 = Some (Inr (True, fs'))"
      "file_view fs' = write_at (unat off + r) (drop r p) (file_view fs1)" using less.hyps[OF p(1) ok less.prems(2) off'(2)] unfolding off' by auto
    have "unat off \<le> length (file_view fs)" using less.prems(3) by (simp add: file_view_def word_le_nat_alt)
    then have "file_view fs' = write_at (unat off) p (file_view fs)"
      using write_at_write_at[OF _ r(1)] by (simp add: fs'(2) view)
    then show ?thesis using False r(1) fs'(1) step by simp
  qed
qed

text \<open>C25: the tool writes everything: when the blocks are readable, the offset lies within the file, the text is shorter
  than \<open>2 ^ 31\<close> bytes (it is counted in an \<open>int\<close>) and ends below the file's limit, it returns, with success, after writing block by block, and the file is the
  old one with the whole text at the offset.\<close>

theorem user_tool_writes_all:
  assumes "onefs_ok n fs" "\<forall>b. bread_ok b" "off \<le> i_size fs" "unat off < 2 ^ 31" "length content < 2 ^ 31"
    and "unat off + length content \<le> unat (sb_info_max_file_size (disk fs SB_BLOCK_NUMBER))"
  shows "\<exists>fs'. user_main bdev bread_ok True content off fs = Some (Inr (True, fs')) \<and>
    file_view fs' = write_at (unat off) content (file_view fs)"
proof -
  have "unat (i_size fs) < 2 ^ 63" by (rule off_small[OF assms(1) order_refl])
  then have s: "sint (i_size fs) = int (unat (i_size fs))" "sint off = int (unat off)"
    using assms(4) by (simp_all only: sint_small) (simp add: sint_small)
  have le: "\<not> sint (i_size fs) < sint off"
    unfolding s of_nat_less_iff using assms(3) by (simp add: word_le_nat_alt)
  have "onefilefs_seek fs off SEEK_SET 0 = (int (unat off), off)"
    using le s(2) by (simp add: onefilefs_seek_def del: of_nat_unat)
  moreover have "(of_int (int (unat off)) :: u32) \<noteq> - 1"
  proof
    assume "(of_int (int (unat off)) :: u32) = - 1"
    then have "unat (of_nat (unat off) :: u32) = unat (- 1 :: u32)" by (simp only: of_int_of_nat_eq)
    also have "\<dots> = 4294967295" by (simp add: unsigned_minus_1_eq_mask mask_eq_exp_minus_1)
    finally have *: "unat (of_nat (unat off) :: u32) = 4294967295" .
    have "unat (of_nat m :: u32) = m" if "m < 2 ^ 31" for m
      using that by (simp add: unat_of_nat take_bit_eq_mod)
    from this[OF assms(4), unfolded *] assms(4) show False by simp
  qed
  ultimately show ?thesis
    using user_write_loop_writes[where bread_ok = bread_ok, OF assms(1-3,5,6)] by (simp add: user_main_def)
qed

theorem user_tool_writes_all_witness:
  "\<exists>fs'. user_main \<lparr>bd_dev = 1, bd_lo_file_name = []\<rparr> (\<lambda>_. True) True (replicate 9000 7) 33 sample_onefs = Some (Inr (True, fs')) \<and>
    file_view fs' = replicate 33 0 @ replicate 9000 7"
proof -
  have "33 \<le> i_size sample_onefs" by (simp add: sample_onefs_def)
  moreover have "unat (33 :: u64) + length (replicate 9000 (7 :: u8)) \<le> unat (sb_info_max_file_size (disk sample_onefs SB_BLOCK_NUMBER))"
    by (simp add: sample_max_file_size)
  ultimately have "\<exists>fs'. user_main \<lparr>bd_dev = 1, bd_lo_file_name = []\<rparr> (\<lambda>_. True) True (replicate 9000 7) 33 sample_onefs = Some (Inr (True, fs')) \<and>
    file_view fs' = write_at (unat (33 :: u64)) (replicate 9000 7) (file_view sample_onefs)"
    by (intro user_tool_writes_all[OF sample_onefs_ok]) simp_all
  then show ?thesis by (simp add: sample_file_view write_at_def)
qed

end
