(* ===== verification/Useractivation.thy ===== *)
theory Useractivation
  imports Activation
begin

text \<open>
  The activation tool, \<open>src/user/activation.c\<close>: it packs a device name and a password into one message and
  sends it through sysfs or the character device. The messages it sends are the result; which calls fail
  is an argument. Strings are C strings.
\<close>

section \<open>The tool\<close>

text \<open>A write to a sysfs file, or an \<open>ioctl\<close> with its command: the file, and the bytes and length passed.\<close>

datatype user_msg =
    SysfsWrite string "string" u64
  | ChrdevIoctl string u32 "string" u64

record user_env =
  u_open_ok :: "string \<Rightarrow> bool"
  u_malloc_ok :: bool

definition concat_args :: "user_env \<Rightarrow> string \<Rightarrow> string \<Rightarrow> string option" where
  "concat_args env a b = (if u_malloc_ok env then Some (a @ CR # b @ [NUL]) else None)"

text \<open>The length of a message is \<open>strlen\<close> plus one; \<open>strlen(NULL)\<close> if the allocation failed.\<close>

definition do_sysfs :: "user_env \<Rightarrow> string \<Rightarrow> string \<Rightarrow> string \<Rightarrow> fault + user_msg list" where
  "do_sysfs env sysfs_path path passwd =
     (if \<not> u_open_ok env sysfs_path then Inr []
      else (case concat_args env path passwd of
        None \<Rightarrow> Inl NullDeref
      | Some str \<Rightarrow> Inr [SysfsWrite sysfs_path (cstr str @ [NUL]) (of_nat (length (cstr str) + 1))]))"

definition activate_sysfs :: "user_env \<Rightarrow> string \<Rightarrow> string \<Rightarrow> fault + user_msg list" where
  "activate_sysfs env path passwd = do_sysfs env ''/sys/module/blkdev_snapshot/activate_snapshot'' path passwd"

definition deactivate_sysfs :: "user_env \<Rightarrow> string \<Rightarrow> string \<Rightarrow> fault + user_msg list" where
  "deactivate_sysfs env path passwd = do_sysfs env ''/sys/module/blkdev_snapshot/deactivate_snapshot'' path passwd"

definition do_chrdev :: "user_env \<Rightarrow> string \<Rightarrow> string \<Rightarrow> string \<Rightarrow> u32 \<Rightarrow> fault + user_msg list" where
  "do_chrdev env path passwd chrdev_path iocmd =
     (if \<not> u_open_ok env chrdev_path then Inr []
      else (case concat_args env path passwd of
        None \<Rightarrow> Inl NullDeref
      | Some str \<Rightarrow> Inr [ChrdevIoctl chrdev_path iocmd (cstr str @ [NUL]) (of_nat (length (cstr str) + 1))]))"

definition activate_chrdev :: "user_env \<Rightarrow> string \<Rightarrow> string \<Rightarrow> string \<Rightarrow> fault + user_msg list" where
  "activate_chrdev env path passwd chrdev_path = do_chrdev env path passwd chrdev_path ACTIVATE_CHRDEV_IOCTL_CMD"

definition deactivate_chrdev :: "user_env \<Rightarrow> string \<Rightarrow> string \<Rightarrow> string \<Rightarrow> fault + user_msg list" where
  "deactivate_chrdev env path passwd chrdev_path = do_chrdev env path passwd chrdev_path DEACTIVATE_CHRDEV_IOCTL_CMD"

definition do_basic_checks_on :: "string option \<Rightarrow> string option \<Rightarrow> (string \<times> string) option" where
  "do_basic_checks_on path passwd =
     (case passwd of
        None \<Rightarrow> None
      | Some pw \<Rightarrow>
          (case path of
             None \<Rightarrow> None
           | Some p \<Rightarrow> if CR \<in> set pw then None else if CR \<in> set p then None else Some (p, pw)))"

definition get_mgmt_fn :: "user_env \<Rightarrow> string option \<Rightarrow> bool \<Rightarrow> string \<Rightarrow> string \<Rightarrow> fault + user_msg list" where
  "get_mgmt_fn env chrdev activate path passwd =
     (case chrdev of
        None \<Rightarrow> if activate then activate_sysfs env path passwd else deactivate_sysfs env path passwd
      | Some c \<Rightarrow> if activate then activate_chrdev env path passwd c else deactivate_chrdev env path passwd c)"

record act_opts =
  o_chrdev :: "string option"
  o_filepath :: "string option"
  o_passwd :: "string option"
  need_to_activate :: bool

text \<open>The results of \<open>getopt\<close>; \<open>None\<close> is the exit after printing the help.\<close>

fun parse_act_opts :: "(char \<times> string) list \<Rightarrow> act_opts \<Rightarrow> act_opts option" where
  "parse_act_opts [] cfg = Some cfg"
| "parse_act_opts ((ch, optarg) # opts) cfg =
     (if ch = CHR ''c'' then parse_act_opts opts (cfg\<lparr>o_chrdev := Some optarg\<rparr>)
      else if ch = CHR ''s'' then parse_act_opts opts (cfg\<lparr>o_chrdev := None\<rparr>)
      else if ch = CHR ''a'' then parse_act_opts opts (cfg\<lparr>need_to_activate := True\<rparr>)
      else if ch = CHR ''d'' then parse_act_opts opts (cfg\<lparr>need_to_activate := False\<rparr>)
      else if ch = CHR ''f'' then parse_act_opts opts (cfg\<lparr>o_filepath := Some optarg\<rparr>)
      else if ch = CHR ''p'' then parse_act_opts opts (cfg\<lparr>o_passwd := Some optarg\<rparr>)
      else if ch = CHR ''h'' then None
      else parse_act_opts opts cfg)"

text \<open>Exit status and messages sent.\<close>

definition activation_main :: "user_env \<Rightarrow> (char \<times> string) list \<Rightarrow> fault + bool \<times> user_msg list" where
  "activation_main env args =
     (case parse_act_opts args \<lparr>o_chrdev = None, o_filepath = None, o_passwd = None, need_to_activate = True\<rparr> of
        None \<Rightarrow> Inr (True, [])
      | Some cfg \<Rightarrow>
          (case do_basic_checks_on (o_filepath cfg) (o_passwd cfg) of
             None \<Rightarrow> Inr (False, [])
           | Some (p, pw) \<Rightarrow>
               (case get_mgmt_fn env (o_chrdev cfg) (need_to_activate cfg) p pw of
                  Inl f \<Rightarrow> Inl f | Inr msgs \<Rightarrow> Inr (True, msgs))))"

section \<open>The tool and the kernel agree\<close>

lemma takeWhile_sep: "CR \<notin> set a \<Longrightarrow> takeWhile (\<lambda>c. c \<noteq> CR) (a @ CR # r) = a"
  by (induction a) auto

lemma dropWhile_sep: "CR \<notin> set a \<Longrightarrow> dropWhile (\<lambda>c. c \<noteq> CR) (a @ CR # r) = CR # r"
  by (induction a) auto

lemma parse_concat:
  assumes "is_cstr p" "is_cstr pw" "CR \<notin> set p" "length p + length pw + 2 < 2 ^ 63"
  defines "msg \<equiv> p @ CR # pw @ [NUL]"
  shows "parse_call_args msg (of_nat (length msg)) =
    Inr (if strim p = [] then Inl (- EINVAL) else Inr (strim p, pw))"
proof -
  have len: "length msg = length p + length pw + 2" by (simp add: msg_def)
  have m: "of_nat (length msg) - 1 = (of_nat (length p + length pw + 1) :: u64)" by (simp add: len)
  have i: "unat (of_nat (length msg) - 1 :: u64) = length p + length pw + 1"
    unfolding m by (rule unat_of_nat64) (use assms(4) in simp)
  have "is_cstr (p @ CR # pw)" using assms(1,2) by (simp add: is_cstr_def CR_def NUL_def)
  then have c: "cstr msg = p @ CR # pw" using cstr_append_NUL[of "p @ CR # pw" "[]"] by (simp add: msg_def)
  have last: "msg ! (length p + length pw + 1) = NUL" by (simp add: msg_def nth_append)
  have pw: "cstr (tl (dropWhile (\<lambda>c. c \<noteq> CR) msg)) = pw"
    unfolding msg_def dropWhile_sep[OF assms(3)] using cstr_append_NUL[OF assms(2), of "[]"] by simp
  show ?thesis unfolding parse_call_args_def i c takeWhile_sep[OF assms(3)] pw last Let_def by (simp add: len)
qed

text \<open>C17: what the tool sends, the kernel understands: for a path and a password that are C strings without a
  carriage return, \<open>-f\<close> and \<open>-p\<close> make the tool send one message, and storing it runs the activation of the
  path, stripped of the white space around it, under this very password, and returns the length of the
  message when it succeeds. A path of white space only is \<open>-EINVAL\<close>.\<close>

theorem tool_kernel_roundtrip:
  assumes "is_cstr p" "is_cstr pw" "CR \<notin> set p" "CR \<notin> set pw" "length p + length pw + 2 < 2 ^ 31"
    and "u_malloc_ok env" "u_open_ok env ''/sys/module/blkdev_snapshot/activate_snapshot''"
  shows "\<exists>data datalen. activation_main env [(CHR ''f'', p), (CHR ''p'', pw)] =
      Inr (True, [SysfsWrite ''/sys/module/blkdev_snapshot/activate_snapshot'' data datalen]) \<and>
    activate_snapshot_sysfs_store cl bkt menv denv True data datalen k =
      (if strim p = [] then Inr (- EINVAL, k)
       else (case activate_snapshot cl bkt menv denv (strim p) pw k of
         Inl f \<Rightarrow> Inl f
       | Inr (rv, k') \<Rightarrow> Inr (if rv = 0 then int (length p + length pw + 2) else rv, k')))"
proof -
  let ?msg = "p @ CR # pw @ [NUL]"
  have len: "length ?msg = length p + length pw + 2" by simp
  have "is_cstr (p @ CR # pw)" using assms(1,2) by (simp add: is_cstr_def CR_def NUL_def)
  then have c: "cstr ?msg = p @ CR # pw" using cstr_append_NUL[of "p @ CR # pw" "[]"] by simp
  have main: "activation_main env [(CHR ''f'', p), (CHR ''p'', pw)] =
      Inr (True, [SysfsWrite ''/sys/module/blkdev_snapshot/activate_snapshot'' ?msg (of_nat (length ?msg))])"
    using assms(3,4,6,7) by (simp add: activation_main_def do_basic_checks_on_def get_mgmt_fn_def activate_sysfs_def
        do_sysfs_def concat_args_def c add.commute)
  have u: "unat (of_nat (length ?msg) :: u64) = length ?msg"
    by (rule unat_of_nat64) (use assms(5) in simp)
  have parse: "parse_call_args ?msg (of_nat (length ?msg)) = Inr (if strim p = [] then Inl (- EINVAL) else Inr (strim p, pw))"
    using assms(1-3,5) by (intro parse_concat) simp_all
  have ret: "sint (ucast (of_nat (length ?msg) :: u64) :: u32) = int (length p + length pw + 2)"
  proof -
    have "(ucast (of_nat (length ?msg) :: u64) :: u32) = of_nat (length ?msg)"
      using assms(5) by (simp only: unsigned_of_nat) (simp add: take_bit_nat_eq_self del: of_nat_add)
    then show ?thesis using sint_of_nat32[of "length ?msg"] assms(5) by (simp only: len)
  qed
  have "activate_snapshot_sysfs_store cl bkt menv denv True ?msg (of_nat (length ?msg)) k =
      (if strim p = [] then Inr (- EINVAL, k)
       else (case activate_snapshot cl bkt menv denv (strim p) pw k of
         Inl f \<Rightarrow> Inl f
       | Inr (rv, k') \<Rightarrow> Inr (if rv = 0 then int (length p + length pw + 2) else rv, k')))"
    unfolding activate_snapshot_sysfs_store_def sysfs_call_wrapper_def call_wrapper_def u take_all[OF order_refl] parse ret
    by (auto split: sum.splits)
  with main show ?thesis by blast
qed

theorem tool_kernel_roundtrip_witness:
  "\<exists>data datalen. activation_main \<lparr>u_open_ok = (\<lambda>_. True), u_malloc_ok = True\<rparr> [(CHR ''f'', ''/dev/sda1''), (CHR ''p'', ''pw'')] =
      Inr (True, [SysfsWrite ''/sys/module/blkdev_snapshot/activate_snapshot'' data datalen]) \<and>
    activate_snapshot_sysfs_store (user_caller ''pw'') (\<lambda>_. 0) (sample_env \<lparr>wr_hdr = 40, wr_ext = 0, wr_payld = 2\<rparr>)
      sample_dev_env True data datalen (started empty_vfs) = Inr (- EPERM, started empty_vfs)"
  using tool_kernel_roundtrip[of "''/dev/sda1''" "''pw''" "\<lparr>u_open_ok = (\<lambda>_. True), u_malloc_ok = True\<rparr>" "user_caller ''pw''" "\<lambda>_. 0"
      "sample_env \<lparr>wr_hdr = 40, wr_ext = 0, wr_payld = 2\<rparr>" sample_dev_env "started empty_vfs"]
  by (simp add: is_cstr_def NUL_def CR_def strim_def k_isspace_def activate_snapshot_def auth_check_def user_caller_def)

section \<open>The files\<close>

text \<open>The attributes of the module's directory in sysfs (\<open>src/kernel/activation.c\<close>). Everybody may write to them; a
  write to a file calls the \<open>store\<close> of the attribute of its name.\<close>

type_synonym store_fn = "bool \<Rightarrow> string \<Rightarrow> u64 \<Rightarrow> kstate \<Rightarrow> fault + int \<times> kstate"

record kobj_attribute =
  ka_name :: string
  ka_mode :: u32
  ka_store :: store_fn

definition S_IWUGO :: u32 where "S_IWUGO = 128 OR 16 OR 2"

definition activate_kobj_attribute :: "caller \<Rightarrow> (u64 \<Rightarrow> nat) \<Rightarrow> ms_env \<Rightarrow> dev_env \<Rightarrow> kobj_attribute" where
  "activate_kobj_attribute cl bkt menv env =
     \<lparr>ka_name = ''activate_snapshot'', ka_mode = S_IWUGO, ka_store = activate_snapshot_sysfs_store cl bkt menv env\<rparr>"

definition deactivate_kobj_attribute :: "caller \<Rightarrow> dev_env \<Rightarrow> kobj_attribute" where
  "deactivate_kobj_attribute cl env =
     \<lparr>ka_name = ''deactivate_snapshot'', ka_mode = S_IWUGO, ka_store = deactivate_snapshot_sysfs_store cl env\<rparr>"

definition sysfs_dir :: string where "sysfs_dir = ''/sys/module/blkdev_snapshot/''"

fun sysfs_write :: "kobj_attribute list \<Rightarrow> user_msg \<Rightarrow> kstate \<Rightarrow> fault + int \<times> kstate" where
  "sysfs_write attrs (SysfsWrite path data datalen) k =
     (case find (\<lambda>a. sysfs_dir @ ka_name a = path) attrs of
        None \<Rightarrow> Inr (- ENOENT, k)
      | Some a \<Rightarrow> if ka_mode a AND 2 = 0 then Inr (- EACCES, k) else ka_store a True data datalen k)"
| "sysfs_write attrs (ChrdevIoctl path cmd data datalen) k = Inr (- ENOENT, k)"

text \<open>The paths in the tool name these files, whoever runs it.\<close>

lemma sysfs_write_store:
  fixes cl bkt menv env
  defines "attrs \<equiv> [activate_kobj_attribute cl bkt menv env, deactivate_kobj_attribute cl env]"
  shows "activate_sysfs uenv p pw = Inr [msg] \<Longrightarrow> \<exists>path data datalen. msg = SysfsWrite path data datalen \<and>
      sysfs_write attrs msg k = activate_snapshot_sysfs_store cl bkt menv env True data datalen k"
    and "deactivate_sysfs uenv p pw = Inr [msg] \<Longrightarrow> \<exists>path data datalen. msg = SysfsWrite path data datalen \<and>
      sysfs_write attrs msg k = deactivate_snapshot_sysfs_store cl env True data datalen k"
  by (auto simp: activate_sysfs_def deactivate_sysfs_def do_sysfs_def attrs_def activate_kobj_attribute_def
      deactivate_kobj_attribute_def sysfs_dir_def S_IWUGO_def split: if_splits option.splits)

end
