(* ===== verification/Kmodule.thy ===== *)
theory Kmodule
  imports Activation Singlefilefs
begin

text \<open>
  Loading and unloading the module, \<open>src/kernel/main.c\<close>: the four components are set up in order, and a
  failure destroys the ones set up before. The state of the module is the state of its components; the
  results of the kernel's registration functions are the environment. This is the variant with sysfs.
\<close>

section \<open>State and environment\<close>

record module_state =
  m_k :: kstate
  m_fs :: "fs_probes \<times> xkpblocks"
  m_mounts :: bool
  m_act :: act_state

record init_env =
  passwd_given :: bool
  blkdevs_init :: int
  loops_init :: int
  fs_krp :: int
  fs_kp :: int
  mounts_krp :: int
  ie_penv :: passwd_env
  sysfs_create1 :: int
  sysfs_create2 :: int
  ie_bkt :: "u64 \<Rightarrow> nat"
  ie_menv :: ms_env
  ie_denv :: dev_env

section \<open>Operations\<close>

text \<open>The calls \<open>setup_fssupport\<close> and \<open>destroy_fssupport\<close> make through their table, which has the one entry
  of the single-file file system.\<close>

definition num_supp_fs :: nat where "num_supp_fs = 1"

definition exec_fs_call :: "init_env \<Rightarrow> fs_call \<Rightarrow> fs_probes \<times> xkpblocks \<Rightarrow> fs_probes \<times> xkpblocks" where
  "exec_fs_call env c s =
     (case c of
        Regi i \<Rightarrow> (snd (register_fssupport_singlefilefs (fs_krp env) (fs_kp env) (fst s)), snd s)
      | Unregi i \<Rightarrow> unregister_fssupport_singlefilefs s)"

definition module_setup_fssupport :: "init_env \<Rightarrow> module_state \<Rightarrow> int \<times> module_state" where
  "module_setup_fssupport env s =
     (let (rv, calls) = setup_fssupport
            (\<lambda>_. fst (register_fssupport_singlefilefs (fs_krp env) (fs_kp env) (fst (m_fs s)))) num_supp_fs
      in (rv, s\<lparr>m_fs := fold (exec_fs_call env) calls (m_fs s)\<rparr>))"

definition module_destroy_fssupport :: "init_env \<Rightarrow> module_state \<Rightarrow> module_state" where
  "module_destroy_fssupport env s = s\<lparr>m_fs := fold (exec_fs_call env) (destroy_fssupport num_supp_fs) (m_fs s)\<rparr>"

definition setup_mounts :: "int \<Rightarrow> module_state \<Rightarrow> int \<times> module_state" where
  "setup_mounts krp_res s = (krp_res, s\<lparr>m_mounts := (krp_res = 0)\<rparr>)"

definition destroy_mounts :: "module_state \<Rightarrow> module_state" where
  "destroy_mounts s = s\<lparr>m_mounts := False\<rparr>"

definition module_destroy_devices :: "init_env \<Rightarrow> module_state \<Rightarrow> fault + module_state" where
  "module_destroy_devices env s =
     (case destroy_devices (ie_bkt env) (ie_menv env) (ie_denv env) (m_k s) of
        Inl f \<Rightarrow> Inl f | Inr k \<Rightarrow> Inr (s\<lparr>m_k := k\<rparr>))"

text \<open>Leaving with the error \<open>rv\<close> after the last destructor.\<close>

definition fail_with :: "int \<Rightarrow> fault + module_state \<Rightarrow> fault + int \<times> module_state" where
  "fail_with rv r = (case r of Inl f \<Rightarrow> Inl f | Inr s \<Rightarrow> Inr (rv, s))"

definition init_blkdev_snapshot_module :: "init_env \<Rightarrow> module_state \<Rightarrow> fault + int \<times> module_state" where
  "init_blkdev_snapshot_module env s =
     (if \<not> passwd_given env \<or> cstr (activation_ct_passwd (act_passwd (m_act s))) = [] then Inr (- ENODATA, s)
      else
        let (rv1, k1) = setup_devices (blkdevs_init env) (loops_init env) (m_k s); s1 = s\<lparr>m_k := k1\<rparr> in
        if rv1 \<noteq> 0 then Inr (rv1, s1)
        else let (rv2, s2) = module_setup_fssupport env s1 in
          if rv2 \<noteq> 0 then fail_with rv2 (module_destroy_devices env s2)
          else let (rv3, s3) = setup_mounts (mounts_krp env) s2 in
            if rv3 \<noteq> 0 then fail_with rv3 (module_destroy_devices env (module_destroy_fssupport env s3))
            else
              let (rv4, act) = setup_activation_mechanism_sysfs (ie_penv env) (sysfs_create1 env) (sysfs_create2 env) (m_act s3);
                  s4 = s3\<lparr>m_act := act\<rparr>
              in if rv4 \<noteq> 0
                 then fail_with rv4 (module_destroy_devices env (module_destroy_fssupport env (destroy_mounts s4)))
                 else Inr (0, s4))"

definition exit_blkdev_snapshot_module :: "init_env \<Rightarrow> module_state \<Rightarrow> fault + module_state" where
  "exit_blkdev_snapshot_module env s =
     module_destroy_devices env (module_destroy_fssupport env (destroy_mounts
       (s\<lparr>m_act := destroy_activation_mechanism (m_act s)\<rparr>)))"

section \<open>Loading is all or nothing\<close>

definition no_probes :: fs_probes where
  "no_probes = \<lparr>krps_registered = False, kps_registered = False, taskcheck_scheduled = False\<rparr>"

definition all_probes :: fs_probes where
  "all_probes = \<lparr>krps_registered = True, kps_registered = True, taskcheck_scheduled = True\<rparr>"

text \<open>Nothing of the module is left in the kernel.\<close>

definition torn_down :: "module_state \<Rightarrow> bool" where
  "torn_down s \<longleftrightarrow> \<not> allow_reging_operation (m_k s) \<and> blkdevs_ht (m_k s) = [] \<and> loops_ht (m_k s) = [] \<and>
     objs (m_k s) = Map.empty \<and> wqs (m_k s) = Map.empty \<and> epochs (m_k s) = Map.empty \<and> waddw_worklist (m_k s) = [] \<and>
     fst (m_fs s) = no_probes \<and> \<not> m_mounts s \<and> no_activation (m_act s)"

definition fully_up :: "module_state \<Rightarrow> bool" where
  "fully_up s \<longleftrightarrow> allow_reging_operation (m_k s) \<and> fst (m_fs s) = all_probes \<and> m_mounts s \<and>
     activate_file (m_act s) \<and> deactivate_file (m_act s) \<and> auth_passwd (act_passwd (m_act s)) \<noteq> None"

definition loading :: "vfs \<Rightarrow> module_state \<Rightarrow> bool" where
  "loading v s \<longleftrightarrow> m_k s = initial_kstate v \<and> fst (m_fs s) = no_probes \<and> \<not> m_mounts s \<and> no_activation (m_act s)"

lemma destroy_fresh_devices:
  "destroy_devices bkt menv env (started v) = Inr (initial_kstate v)"
  by (simp add: destroy_devices_def start_defs Let_def)

lemma setup_devices_cases:
  "setup_devices b l (initial_kstate v) = (if b \<noteq> 0 \<or> l \<noteq> 0 then (- EINVAL, initial_kstate v) else (0, started v))"
  by (simp add: setup_devices_def start_defs Let_def)

lemma module_setup_fssupport_cases:
  assumes "fst (m_fs s) = no_probes"
  shows "\<exists>x. module_setup_fssupport env s =
    (if fs_krp env = 0 \<and> fs_kp env = 0 then (0, s\<lparr>m_fs := (all_probes, x)\<rparr>) else (1, s\<lparr>m_fs := (no_probes, x)\<rparr>))"
  using assms by (intro exI[of _ "snd (m_fs s)"], cases "m_fs s") (simp add: module_setup_fssupport_def setup_fssupport_def num_supp_fs_def
      register_fssupport_singlefilefs_def exec_fs_call_def no_probes_def all_probes_def Let_def)

lemma module_destroy_fssupport_eq:
  "fst (m_fs (module_destroy_fssupport env s)) = no_probes" "m_k (module_destroy_fssupport env s) = m_k s"
  "m_mounts (module_destroy_fssupport env s) = m_mounts s" "m_act (module_destroy_fssupport env s) = m_act s"
  by (simp_all add: module_destroy_fssupport_def destroy_fssupport_def num_supp_fs_def exec_fs_call_def
      unregister_fssupport_singlefilefs_def no_probes_def split: prod.splits)

lemma setup_activation_ok:
  assumes "setup_activation_mechanism_sysfs penv c1 c2 s = (0, s')"
  shows "activate_file s' \<and> deactivate_file s' \<and> auth_passwd (act_passwd s') \<noteq> None"
proof -
  obtain rv pst where p: "setup_passwd penv (act_passwd s) = (rv, pst)" by (cases "setup_passwd penv (act_passwd s)")
  have "auth_passwd pst \<noteq> None" if "rv = 0"
    using p that by (auto simp: setup_passwd_def Let_def split: prod.splits if_splits)
  with assms show ?thesis
    by (auto simp: setup_activation_mechanism_sysfs_def p Let_def split: if_splits)
qed

lemma teardown_devices:
  assumes "m_k s = started v" "fst (m_fs s) = no_probes" "\<not> m_mounts s" "no_activation (m_act s)"
  shows "\<exists>s'. module_destroy_devices env s = Inr s' \<and> torn_down s'"
  using assms by (simp add: module_destroy_devices_def destroy_fresh_devices torn_down_def initial_kstate_def)

text \<open>What loading may end in: everything up, or nothing left and a return value other than 0.\<close>

definition load_outcome :: "init_env \<Rightarrow> fault + int \<times> module_state \<Rightarrow> bool" where
  "load_outcome env r \<longleftrightarrow> (\<exists>rv s'. r = Inr (rv, s') \<and>
    (if rv = 0 then fully_up s' \<and> (\<exists>s''. exit_blkdev_snapshot_module env s' = Inr s'' \<and> torn_down s'')
     else torn_down s' \<and> (rv < 0 \<or> rv = 1 \<and> (fs_krp env \<noteq> 0 \<or> fs_kp env \<noteq> 0))))"

lemma load_outcome_Inr:
  "load_outcome env (Inr (rv, s')) \<longleftrightarrow>
    (if rv = 0 then fully_up s' \<and> (\<exists>s''. exit_blkdev_snapshot_module env s' = Inr s'' \<and> torn_down s'')
     else torn_down s' \<and> (rv < 0 \<or> rv = 1 \<and> (fs_krp env \<noteq> 0 \<or> fs_kp env \<noteq> 0)))"
  by (simp add: load_outcome_def)

lemma load_outcome_fail:
  assumes "rv < 0 \<or> rv = 1 \<and> (fs_krp env \<noteq> 0 \<or> fs_kp env \<noteq> 0)"
    and "m_k s = started v" "fst (m_fs s) = no_probes" "\<not> m_mounts s" "no_activation (m_act s)"
  shows "load_outcome env (fail_with rv (module_destroy_devices env s))"
  using teardown_devices[OF assms(2-5), of env] assms(1) by (auto simp: load_outcome_Inr fail_with_def)

lemma setup_activation_error:
  assumes "setup_activation_mechanism_sysfs penv c1 c2 s = (rv, s')" "rv \<noteq> 0" "c1 \<le> 0" "c2 \<le> 0"
  shows "rv < 0"
  using assms setup_passwd_failed[of penv "act_passwd s" "fst (setup_passwd penv (act_passwd s))" "snd (setup_passwd penv (act_passwd s))"]
  by (auto simp: setup_activation_mechanism_sysfs_def Let_def split: prod.splits if_splits)

text \<open>The last phase: the mount probes are in, the activation mechanism follows.\<close>

lemma load_activation:
  assumes "m_k s = started v" "fst (m_fs s) = all_probes" "no_activation (m_act s)" "m_mounts s"
    and "setup_activation_mechanism_sysfs (ie_penv env) c1 c2 (m_act s) = (rv, act)" "c1 \<le> 0" "c2 \<le> 0"
  shows "load_outcome env (if rv \<noteq> 0
    then fail_with rv (module_destroy_devices env (module_destroy_fssupport env (destroy_mounts (s\<lparr>m_act := act\<rparr>))))
    else Inr (0, s\<lparr>m_act := act\<rparr>))"
proof (cases "rv = 0")
  case True
  then have "fully_up (s\<lparr>m_act := act\<rparr>)"
    using setup_activation_ok assms by (simp add: fully_up_def started_eq)
  moreover have "\<exists>s''. exit_blkdev_snapshot_module env (s\<lparr>m_act := act\<rparr>) = Inr s'' \<and> torn_down s''"
    unfolding exit_blkdev_snapshot_module_def using assms(1)
    by (intro teardown_devices) (simp_all add: module_destroy_fssupport_eq destroy_mounts_def destroy_activation_none)
  ultimately show ?thesis using True by (simp add: load_outcome_Inr)
next
  case False
  have "load_outcome env (fail_with rv (module_destroy_devices env (module_destroy_fssupport env (destroy_mounts (s\<lparr>m_act := act\<rparr>)))))"
    using setup_activation_failed[OF assms(5) False assms(3)] setup_activation_error[OF assms(5) False assms(6,7)] assms(1)
    by (intro load_outcome_fail) (simp_all add: module_destroy_fssupport_eq destroy_mounts_def)
  with False show ?thesis by simp
qed

lemma load_module:
  assumes "loading v s" "mounts_krp env \<le> 0" "sysfs_create1 env \<le> 0" "sysfs_create2 env \<le> 0"
  shows "load_outcome env (init_blkdev_snapshot_module env s)"
proof -
  note load = assms(1)[unfolded loading_def]
  have fresh: "load_outcome env (Inr (rv, s))" if "rv < 0" for rv
    using that load by (simp add: load_outcome_Inr torn_down_def initial_kstate_def)
  let ?s1 = "s\<lparr>m_k := started v\<rparr>"
  have "fst (m_fs ?s1) = no_probes" using load by simp
  from module_setup_fssupport_cases[OF this, of env] obtain x where
    fs: "module_setup_fssupport env ?s1 = (if fs_krp env = 0 \<and> fs_kp env = 0 then (0, ?s1\<lparr>m_fs := (all_probes, x)\<rparr>)
        else (1, ?s1\<lparr>m_fs := (no_probes, x)\<rparr>))" by blast
  let ?s3 = "?s1\<lparr>m_fs := (all_probes, x), m_mounts := (mounts_krp env = 0)\<rparr>"
  obtain rv act where act: "setup_activation_mechanism_sysfs (ie_penv env) (sysfs_create1 env) (sysfs_create2 env) (m_act s) = (rv, act)"
    by (cases "setup_activation_mechanism_sysfs (ie_penv env) (sysfs_create1 env) (sysfs_create2 env) (m_act s)")
  have same: "s\<lparr>m_k := initial_kstate v\<rparr> = s" using load by simp
  have a: "load_outcome env (fail_with 1 (module_destroy_devices env (?s1\<lparr>m_fs := (no_probes, x)\<rparr>)))"
    if "\<not> (fs_krp env = 0 \<and> fs_kp env = 0)"
    using that load by (intro load_outcome_fail) simp_all
  have b: "load_outcome env (fail_with (mounts_krp env) (module_destroy_devices env (module_destroy_fssupport env ?s3)))"
    if "mounts_krp env \<noteq> 0"
    using that assms(2) load by (intro load_outcome_fail) (simp_all add: module_destroy_fssupport_eq)
  have c: "load_outcome env (if rv \<noteq> 0
      then fail_with rv (module_destroy_devices env (module_destroy_fssupport env (destroy_mounts (?s3\<lparr>m_act := act\<rparr>))))
      else Inr (0, ?s3\<lparr>m_act := act\<rparr>))" if "mounts_krp env = 0"
    using that load act assms(3,4) by (intro load_activation[where ?c1.0 = "sysfs_create1 env" and ?c2.0 = "sysfs_create2 env"]) simp_all
  show ?thesis
    using fresh[of "- ENODATA"] fresh[of "- EINVAL"] a b c load
    by (auto simp: init_blkdev_snapshot_module_def setup_devices_cases same fs setup_mounts_def act Let_def)
qed

text \<open>The return value, by the first call that fails.\<close>

definition load_result :: "init_env \<Rightarrow> module_state \<Rightarrow> int" where
  "load_result env s =
     (if \<not> passwd_given env \<or> cstr (activation_ct_passwd (act_passwd (m_act s))) = [] then - ENODATA
      else if blkdevs_init env \<noteq> 0 \<or> loops_init env \<noteq> 0 then - EINVAL
      else if fs_krp env \<noteq> 0 \<or> fs_kp env \<noteq> 0 then 1
      else if mounts_krp env \<noteq> 0 then mounts_krp env
      else fst (setup_activation_mechanism_sysfs (ie_penv env) (sysfs_create1 env) (sysfs_create2 env) (m_act s)))"

lemma fail_with_value: "fail_with rv r = Inr (rv', s') \<Longrightarrow> rv' = rv"
  by (auto simp: fail_with_def split: sum.splits)

lemma load_value:
  assumes "loading v s" "init_blkdev_snapshot_module env s = Inr (rv, s')"
  shows "rv = load_result env s"
proof -
  note load = assms(1)[unfolded loading_def]
  let ?s1 = "s\<lparr>m_k := started v\<rparr>"
  have "fst (m_fs ?s1) = no_probes" using load by simp
  from module_setup_fssupport_cases[OF this, of env] obtain x where
    fs: "module_setup_fssupport env ?s1 = (if fs_krp env = 0 \<and> fs_kp env = 0 then (0, ?s1\<lparr>m_fs := (all_probes, x)\<rparr>)
        else (1, ?s1\<lparr>m_fs := (no_probes, x)\<rparr>))" by blast
  show ?thesis using assms(2) load
    by (auto simp: load_result_def init_blkdev_snapshot_module_def setup_devices_cases fs setup_mounts_def Let_def
        split: if_splits prod.splits dest!: fail_with_value)
qed

text \<open>C33: loading the module is all or nothing: whatever call fails, it returns, and either everything is up (the
  device tables open, all probes registered, both sysfs files and the password in place), and unloading it at
  once takes everything down again, or nothing is left behind. The return value is 0 exactly when everything is
  up, and otherwise that of the first call that fails (\<open>load_result\<close>), a negative number; but it is 1 exactly when
  the file system support is the first to fail, which the kernel takes for a module that loaded.\<close>

theorem module_init_all_or_nothing:
  assumes "loading v s" "mounts_krp env \<le> 0" "sysfs_create1 env \<le> 0" "sysfs_create2 env \<le> 0"
  shows "\<exists>rv s'. init_blkdev_snapshot_module env s = Inr (rv, s') \<and> rv = load_result env s \<and>
    (if rv = 0 then fully_up s' \<and> (\<exists>s''. exit_blkdev_snapshot_module env s' = Inr s'' \<and> torn_down s'')
     else torn_down s' \<and> (rv < 0 \<or> rv = 1)) \<and>
    (rv = 1 \<longleftrightarrow> passwd_given env \<and> cstr (activation_ct_passwd (act_passwd (m_act s))) \<noteq> [] \<and>
       blkdevs_init env = 0 \<and> loops_init env = 0 \<and> (fs_krp env \<noteq> 0 \<or> fs_kp env \<noteq> 0))"
proof -
  obtain rv s' where r: "init_blkdev_snapshot_module env s = Inr (rv, s')"
    and o: "load_outcome env (Inr (rv, s'))" using load_module[OF assms] by (auto simp: load_outcome_def)
  have rv: "rv = load_result env s" by (rule load_value[OF assms(1) r])
  have "load_result env s = 1 \<longleftrightarrow> passwd_given env \<and> cstr (activation_ct_passwd (act_passwd (m_act s))) \<noteq> [] \<and>
       blkdevs_init env = 0 \<and> loops_init env = 0 \<and> (fs_krp env \<noteq> 0 \<or> fs_kp env \<noteq> 0)"
  proof
    assume 1: "load_result env s = 1"
    then have "fs_krp env \<noteq> 0 \<or> fs_kp env \<noteq> 0" using o rv by (auto simp: load_outcome_Inr)
    with 1 show "passwd_given env \<and> cstr (activation_ct_passwd (act_passwd (m_act s))) \<noteq> [] \<and>
       blkdevs_init env = 0 \<and> loops_init env = 0 \<and> (fs_krp env \<noteq> 0 \<or> fs_kp env \<noteq> 0)"
      by (auto simp: load_result_def split: if_splits)
  qed (simp add: load_result_def)
  with r rv o show ?thesis by (auto simp: load_outcome_Inr split: if_splits)
qed

definition sample_module :: module_state where
  "sample_module = \<lparr>m_k = initial_kstate empty_vfs, m_fs = (no_probes, no_threads), m_mounts = False,
     m_act = \<lparr>act_passwd = configured ''pw'', activate_file = False, deactivate_file = False, activation_chrdev = None\<rparr>\<rparr>"

definition sample_init_env :: init_env where
  "sample_init_env = \<lparr>passwd_given = True, blkdevs_init = 0, loops_init = 0, fs_krp = 0, fs_kp = - EINVAL, mounts_krp = 0,
     ie_penv = sample_passwd_env, sysfs_create1 = 0, sysfs_create2 = 0, ie_bkt = (\<lambda>_. 0),
     ie_menv = sample_env \<lparr>wr_hdr = 40, wr_ext = 0, wr_payld = 2\<rparr>, ie_denv = sample_dev_env\<rparr>"

theorem module_init_all_or_nothing_witness:
  "\<exists>s'. init_blkdev_snapshot_module sample_init_env sample_module = Inr (1, s') \<and> torn_down s'"
proof -
  have l: "loading empty_vfs sample_module"
    by (simp add: loading_def sample_module_def no_activation_def configured_def)
  have env: "passwd_given sample_init_env" "blkdevs_init sample_init_env = 0" "loops_init sample_init_env = 0"
    by (simp_all add: sample_init_env_def)
  have "cstr (activation_ct_passwd (act_passwd (m_act sample_module))) \<noteq> []"
    by (simp add: sample_module_def configured_def cstr_def NUL_def)
  moreover obtain x where "module_setup_fssupport sample_init_env (sample_module\<lparr>m_k := started empty_vfs\<rparr>) =
      (1, sample_module\<lparr>m_k := started empty_vfs, m_fs := (no_probes, x)\<rparr>)"
    using module_setup_fssupport_cases[of "sample_module\<lparr>m_k := started empty_vfs\<rparr>" sample_init_env]
    by (auto simp: sample_module_def sample_init_env_def)
  moreover have "setup_devices 0 0 (m_k sample_module) = (0, started empty_vfs)"
    by (simp add: sample_module_def setup_devices_cases)
  ultimately have "\<exists>s'. init_blkdev_snapshot_module sample_init_env sample_module = Inr (1, s')"
    using env by (simp add: init_blkdev_snapshot_module_def fail_with_def module_destroy_devices_def destroy_fresh_devices Let_def)
  with module_init_all_or_nothing[OF l, of sample_init_env] show ?thesis
    by (auto simp: sample_init_env_def)
qed

end
