(* ===== verification/Spec2Isabelle.thy ===== *)
theory Spec2Isabelle
  imports Graceprops Threads Loopdev Rhkeys Demomod Concurrent Usertool Useractivation Kmodule
begin

text \<open>
  The Linux kernel module blkdev-snapshot, its two user programs and the demonstration file system it
  watches, as definitions of HOL translated from the C source, with the theorems that make them correct.

  \<^bold>\<open>The program.\<close> A block device or an image file is registered with the module under a password
  (\<open>src/kernel/activation.c\<close>, \<open>passwd.c\<close>, \<open>devices.c\<close>). When a registered device is mounted, kernel probes
  open an epoch for it (\<open>mounts.c\<close>). While it is mounted, probes on the single-file file system
  (\<open>fs-support/singlefilefs.c\<close>) remember the block a thread read last and, when the thread dirties a buffer,
  hand the old contents to \<open>bdsnap_make_snapshot\<close> (\<open>snapshot.c\<close>), which queues a work on the ordered workqueue
  of the device. The work looks the block number up in a cache (\<open>lru-ng.c\<close>) and in the epoch's \<open>snapblocks\<close>
  file and appends a record when it finds it in neither. The last unmount closes the epoch. The tool
  \<open>src/user/restore.c\<close> writes the records of a \<open>snapblocks\<close> file back onto the device,
  \<open>src/user/activation.c\<close> talks to the activation interface.

  \<^bold>\<open>Conventions.\<close> A function that can perform an illegal access, or never returns, has type \<open>fault + 'a\<close>:
  \<open>Inl\<close> names the access (\<open>NullDeref\<close>, \<open>UseAfterFree\<close>, \<open>OutOfBounds\<close>, \<open>Hang\<close>, \<dots>). Error numbers are ordinary
  results. Machine integers are words of their width, sizes of objects in memory are natural numbers, bytes are
  \<open>8 word\<close> lists, C strings are character lists without the final 0. The outcome of an allocation or of a
  call into the kernel that may fail is an argument (the records \<open>dev_env\<close>, \<open>snapdir_env\<close>, \<open>ms_env\<close>, \<open>bd_env\<close>, \<open>rs_env\<close>, \<dots>, and booleans), so
  every error branch of the source is a branch here. Kernel objects that are shared and freed (devices,
  epochs, workqueues) live in maps from identifiers, so that an access after a free is visible.
\<close>

text \<open>
  \<^bold>\<open>Theories\<close>, in the order of imports:

  \<^item> \<open>Prelude\<close>: types, error numbers, faults, \<open>strscpy\<close>, little-endian encoding, writing at an offset.
  \<^item> \<open>Lru\<close>: \<open>lru-ng.c\<close>, the list and the hash table of \<open>struct lru_ng\<close> with addresses. Every operation keeps
    both in step, frees what it unlinks, keeps at most \<open>LRU_NG__LRU_MAX_ENTRIES\<close> numbers, and on a machine with one
    NUMA node together they refine a bounded list with move-to-front. Locale \<open>block_cache\<close>, interpretation \<open>lru\<close>.
  \<^item> \<open>Snapblocks\<close>: the records of a \<open>snapblocks\<close> file, \<open>write_snapblock\<close> and \<open>file_lookup\<close>, byte for byte
    against an explicit format (\<open>file_format\<close>); the search ends and answers membership on every well-formed
    file. Locale \<open>block_log\<close>, interpretation \<open>snaplog\<close>.
  \<^item> \<open>Snapdir\<close>: the directories \<open>/snapshot/<device>-<date>\<close> on an explicit tree with reference counts, exact on
    every path; the variant of \<open>vfs_mkdir\<close> of the kernels from 6.15 on.
  \<^item> \<open>Snapwork\<close>: \<open>make_snapshot\<close>. A sequence of works on an epoch is the log that keeps the first contents of
    each block number; its proof uses \<open>lru\<close> and \<open>snaplog\<close> only through their locales.
  \<^item> \<open>Snapframe\<close>: what the works of one epoch leave alone. They only create and write their own directory and
    file (\<open>vfs_step\<close>), so the files of other epochs keep their contents.
  \<^item> \<open>Devices\<close>: \<open>devices.c\<close>, \<open>devices.h\<close>, \<open>mounts.h\<close>. Registration refines a set of devices, errors leave
    nothing behind. Locale \<open>device_registry\<close>, interpretation \<open>registry\<close>.
  \<^item> \<open>Loopdev\<close>: \<open>get-loop-backing-file.h\<close>, the copies of the loop driver's structure per kernel version as layouts
    with offsets and padding: the bytes at which the name of the backing file is read on x86-64 and i386.
  \<^item> \<open>Rhkeys\<close>: the hash and comparison functions of the two tables of devices. Locale \<open>rhash_client\<close> (the contract of
    \<open>rhashtable\<close> for its clients), interpretations \<open>loops\<close> and \<open>blkdevs\<close>: a search by hash is the lookup of \<open>Devices\<close>.
  \<^item> \<open>Mounts\<close>: \<open>mounts.c\<close>. Mounts and unmounts refine a counter per device with an epoch while it is positive, up
    to the \<open>2 ^ 31\<close> mounts at which the \<open>int\<close> wraps; the probe of the old mount call counts for the wrong device.
  \<^item> \<open>Bdsnap\<close>: \<open>bdsnap_test_device\<close>, \<open>bdsnap_make_snapshot\<close>, \<open>queue_snapshot_work\<close> as atomic calls.
  \<^item> \<open>System\<close>: all of the above as one transition system (\<open>kstep\<close>, \<open>reach\<close>) with an ownership invariant: as
    long as the workqueue of a new device can be allocated, no reachable step uses freed memory but the activation
    whose full path cannot be found out; module exit frees everything when no cleanup lacked memory.
  \<^item> \<open>Race\<close>: \<open>bdsnap_make_snapshot\<close> in steps between which others can run (the three reads of \<open>obj->e\<close> that fill a work
    are one of them), equal to the atomic call when not interrupted, faulting when the last unmount comes in
    between.
  \<^item> \<open>Grace\<close>, \<open>Graceinv\<close>, \<open>Graceprops\<close>: file system probes, mount probes, deactivations, activations and workers as one
    transition system whose steps are those of \<open>Race\<close> and the single accesses of the others, with \<open>general_lock\<close>, \<open>wq_destroy_lock\<close> and RCU grace
    periods. \<open>Grace\<close> is the model (\<open>gstep\<close>), \<open>Graceinv\<close> its invariant, \<open>Graceprops\<close> the properties: no use of freed
    memory in executions of \<open>admissible\<close> steps, nothing queued for a device that is marked destroyed, every
    deactivation can complete, and a late mount event leaks an epoch.
  \<^item> \<open>Singlefilefs\<close>: \<open>fs-support/singlefilefs.c\<close> and \<open>fs-support.h\<close>. Within one \<open>vfs_write\<close> exactly the blocks
    read before a dirtied buffer are handed over; threads do not see each other's entries.
  \<^item> \<open>Threads\<close>: the same probes in any interleaving of threads. The hash table refines one stack of entries per
    thread, and every thread hands over what it would hand over alone.
  \<^item> \<open>Restore\<close>: \<open>src/user/restore.c\<close>, options included; the tool writes exactly the chosen records.
  \<^item> \<open>Onefilefs\<close>: \<open>demo/SINGLEFILE-FS\<close>. Reads and writes refine a byte file; a write reads each block it dirties
    right before it, so that the probes get exactly the blocks it writes, with their old contents; \<open>mkfs\<close> makes a mountable image.
  \<^item> \<open>Demomod\<close>: the module of that file system.
  \<^item> \<open>Usertool\<close>: the test program that writes a text to the file, in as many \<open>write\<close> calls as it takes.
  \<^item> \<open>Tracked\<close>: one write with the probes around it. Locale \<open>preimage_steps\<close> (a step hands over the old contents of
    what it changes, so that the first block logged under each number undoes any sequence of steps),
    interpretation \<open>ofs\<close> on the file system; images of the device and the restoration of a log.
  \<^item> \<open>Passwd\<close>: \<open>passwd.c\<close>, the salted digest, wiping of the plain password, the comparison.
  \<^item> \<open>Activation\<close>: \<open>activation.c\<close>, both interfaces. Whoever changes the state of the module is root and passed an
    accepted password.
  \<^item> \<open>Useractivation\<close>: \<open>src/user/activation.c\<close>. What the tool sends is what the kernel parses.
  \<^item> \<open>Service\<close>: a whole session, from the activation to the file found after the unmount, the worker interleaved
    with the writes in any way: the image restored is the image of the mount, and the writes are unaffected.
  \<^item> \<open>History\<close>: any number of mounts of one device. Restoring the files from the newest back to mount \<open>i\<close> gives the
    image of mount \<open>i\<close> (\<open>point_in_time_recovery\<close>).
  \<^item> \<open>Devinv\<close>: what the module keeps for one device, as an invariant (\<open>dev_inv\<close>: idle, mounted, or unmounted with
    works pending) over the chain of its mounts and their files, and which other states leave it alone
    (\<open>stays\<close>). \<open>mount_fs\<close> is the image as the demonstration file system mounts it.
  \<^item> \<open>Concurrent\<close>: any number of devices activated, mounted, written, unmounted, restored, exchanged and deactivated,
    with the works of all queues and the deferred destructions interleaved (\<open>run_op\<close>, \<open>op_ok\<close>, \<open>served\<close>). Nothing
    faults, every device at rest can be taken back to each of its last mounts
    (\<open>concurrent_devices_recover\<close>), and a device that is not mounted comes to rest in as many steps as its
    queue has items (\<open>unmounted_devices_settle\<close>).
  \<^item> \<open>Kmodule\<close>: \<open>main.c\<close>. The set up is all or nothing.
\<close>

text \<open>
  \<^bold>\<open>Loops and bounds.\<close> Three loops of the source need not end and are partial functions into \<open>option\<close>:
  \<open>file_lookup_from\<close> (ends on well-formed files below \<open>2 ^ 63\<close> bytes, does not on a record of size 0),
  \<open>restore_loop\<close> (ends on encoded records below \<open>2 ^ 63\<close> bytes), \<open>user_write_loop\<close> (ends when the text is
  shorter than \<open>2 ^ 31\<close> bytes and fits below the file's limit). All other loops are structural or have a measure; there is no fuel, except for
  \<open>run_wq_n\<close> and \<open>reader_steps\<close>, which count steps and are used with the exact number. File offsets are 64 bits wide: \<open>snapfile_ok\<close>,
  \<open>onefs_ok\<close> and \<open>room\<close> premises state the limits below which they do not wrap. The mounts of an epoch are counted in a
  word of 32 bits: \<open>epoch_counting_refines\<close> holds below \<open>2 ^ 31\<close> mounts. A session of \<open>Service\<close> has
  fewer than \<open>2 ^ 40\<close> writes, each of which hands over at most five blocks of 4096 bytes, which keeps its
  \<open>snapblocks\<close> file below \<open>2 ^ 63\<close> bytes; a run of \<open>Concurrent\<close> has fewer than \<open>2 ^ 40\<close> operations.

  \<^bold>\<open>Parameters.\<close> The bucket a key of the cache falls into, \<open>xxh64\<close> and \<open>jhash\<close> (the tables of \<open>rhashtable\<close>
  are association lists; \<open>Rhkeys\<close> justifies it), the structure of the loop driver, \<open>mount_bdev\<close> and the registration of
  file systems, the SHA-256 digest and the random bytes of the salt, path resolution by the VFS, the results of allocations, of
  \<open>kernel_read\<close> and \<open>kernel_write\<close>, and of the system calls of the tools. They are arbitrary in the theorems
  unless a premise restricts them.

  \<^bold>\<open>Not modelled.\<close> Messages (\<open>pr-err-failure.h\<close>, usage texts); build files and shell scripts; the switch of
  \<open>CR0.WP\<close> around the wiping of the module parameter; the macros that name functions of different kernel
  versions. In \<open>System\<close> an object is unlinked and freed in one step; its grace period is in \<open>Grace\<close>, where a mount
  event counts in one step (it holds \<open>general_lock\<close>); its executions (\<open>greach\<close>) are those in which no last unmount
  falls into the window of \<open>Race\<close>. Kernels before 6.15, where an error of \<open>vfs_mkdir\<close> leaves a dentry without an inode
  that the code goes on with. The probes of one thread interleave with other threads at the granularity of whole probes. Memory
  ordering is sequential consistency.

  \<^bold>\<open>What the proofs found.\<close> Several theorems state behaviour the code hardly intends; they are exact statements
  of what it does. \<open>failed_write_loses_block\<close>: the test of the result of \<open>write_snapblock\<close> is inverted, so a
  block whose write failed is cached as saved (and not saved while it stays in the cache) and one that was
  saved is not cached. \<open>torn_record_counts_as_saved\<close>
  and \<open>file_lookup_hangs\<close>: records without a payload. \<open>umount_race_use_after_free\<close>: \<open>obj->e\<close> is read without
  the lock the unmount holds. \<open>ioctl_double_fetch\<close>: the length in user memory is read twice.
  \<open>periodic_check_skips_buckets\<close>: the start positions of the periodic check double.
  \<open>late_mount_leaks_epoch\<close>: a mount event after the deactivation opens an epoch nobody frees.
  \<open>old_mount_counts_mountpoint\<close>: \<open>path_mount\<close> gets the mount point, not the mounted device.
  \<open>onefilefs_superblock_error\<close>: a deadlock and a NULL dereference in the demonstration file system.

  \<^bold>\<open>Left to do.\<close> In \<open>Concurrent\<close> a device is mounted at one place at a time and deactivated only at rest (\<open>System\<close> and
  \<open>Grace\<close> have deactivations at any time), and the probes of one write run without those of another (\<open>Threads\<close>
  interleaves them, \<open>Grace\<close> the accesses to the devices); restoring a device that is in use. The lines of the
  C files that no definition covers are includes, prototypes, macros of kernel versions, messages and the tables that
  register probes and operations.
\<close>

end
